theory Spec2Isabelle
  imports Main "HOL-Library.Word"
begin

unbundle bit_operations_syntax

section \<open>TLS helpers (tls.c)\<close>

subsection \<open>ALPN wire-format scan\<close>

text \<open>
  \<^verbatim>\<open>protoneg_check_protocol\<close> walks the byte array \<^verbatim>\<open>in\<close> of length \<^verbatim>\<open>in_len\<close>.
  A pointer into \<^verbatim>\<open>in\<close> is modelled by its offset. Reading \<^verbatim>\<open>in[i]\<close> at
  \<^verbatim>\<open>i >= in_len\<close> is a read outside the buffer (\<open>Inl OutOfBounds\<close>).
\<close>

datatype fault = OutOfBounds | REQUIRE_failed | INSIST_failed | NULL_deref | Shift_overflow

text \<open>\<^verbatim>\<open>memcmp(&in[i], key, key_len) == 0\<close>, for \<^verbatim>\<open>i + key_len <= in_len\<close>.\<close>

definition memcmp_eq :: "8 word list \<Rightarrow> nat \<Rightarrow> 8 word list \<Rightarrow> bool" where
  "memcmp_eq inp i key = (take (length key) (drop i inp) = key)"

function protoneg_check_protocol_from ::
  "8 word list \<Rightarrow> 8 word list \<Rightarrow> nat \<Rightarrow> fault + (nat \<times> 8 word) option" where
  "protoneg_check_protocol_from inp key i =
     (if i + length key \<le> length inp then
        (if memcmp_eq inp i key then
           (if i < length inp then Inr (Some (i + 1, inp ! i)) else Inl OutOfBounds)
         else protoneg_check_protocol_from inp key (i + (unat (inp ! i) + 1)))
      else Inr None)"
  by pat_completeness auto
termination
proof (relation "measure (\<lambda>(inp, key, i). length inp - i)")
  fix inp key :: "8 word list" and i :: nat
  assume le: "i + length key \<le> length inp" and ne: "\<not> memcmp_eq inp i key"
  from ne have "key \<noteq> []" by (auto simp: memcmp_eq_def)
  with le have "i < length inp" by (cases key) auto
  then show "((inp, key, i + (unat (inp ! i) + 1)), (inp, key, i))
      \<in> measure (\<lambda>(inp, key, i). length inp - i)"
    by simp
qed simp

definition protoneg_check_protocol ::
  "8 word list \<Rightarrow> 8 word list \<Rightarrow> fault + (nat \<times> 8 word) option" where
  "protoneg_check_protocol inp key = protoneg_check_protocol_from inp key 0"

text \<open>\<^verbatim>\<open>DOT_PROTO_ALPN\<close> is \<^verbatim>\<open>"\x3" "dot"\<close>; its length is 4.\<close>

definition DOT_PROTO_ALPN :: "8 word list" where
  "DOT_PROTO_ALPN = [3, 0x64, 0x6f, 0x74]"

definition dot_select_next_protocol :: "8 word list \<Rightarrow> fault + (nat \<times> 8 word) option" where
  "dot_select_next_protocol inp = protoneg_check_protocol inp DOT_PROTO_ALPN"

text \<open>The wire form of a list of protocol names: each name prefixed by its length byte.\<close>

definition alpn_record :: "8 word list \<Rightarrow> 8 word list" where
  "alpn_record p = of_nat (length p) # p"

definition alpn_wire :: "8 word list list \<Rightarrow> 8 word list" where
  "alpn_wire ps = concat (map alpn_record ps)"

datatype isc_result = ISC_R_SUCCESS | ISC_R_NOTFOUND | ISC_R_EXISTS | ISC_R_NOMORE | ISC_R_FAILURE

subsection \<open>Protocol-version mask\<close>

text \<open>
  The provider's disable bits \<^verbatim>\<open>SSL_OP_NO_TLSv1_2\<close> and \<^verbatim>\<open>SSL_OP_NO_TLSv1_3\<close> are macros of
  the crypto library's headers; \<^verbatim>\<open>get_tls_version_disable_bit\<close> tests them with
  \<^verbatim>\<open>#ifdef\<close>. They are parameters of the model: \<open>None\<close> when the macro is not defined.
\<close>

record tls_build =
  SSL_OP_NO_TLSv1_2 :: "64 word option"
  SSL_OP_NO_TLSv1_3 :: "64 word option"

text \<open>
  Modelled from the spec: the enumeration \<^verbatim>\<open>isc_tls_protocol_version_t\<close> is declared in a
  header that is not among the sources. The spec has a bitmask over the two versions 1.2 and
  1.3, and the loop of \<^verbatim>\<open>isc_tlsctx_set_protocols\<close> says the versions are powers of two
  from \<^verbatim>\<open>ISC_TLS_PROTO_VER_1_2\<close> up to, and excluding, \<^verbatim>\<open>ISC_TLS_PROTO_VER_UNDEFINED\<close>.
\<close>

definition ISC_TLS_PROTO_VER_1_2 :: "32 word" where "ISC_TLS_PROTO_VER_1_2 = 1"
definition ISC_TLS_PROTO_VER_1_3 :: "32 word" where "ISC_TLS_PROTO_VER_1_3 = 2"
definition ISC_TLS_PROTO_VER_UNDEFINED :: "32 word" where "ISC_TLS_PROTO_VER_UNDEFINED = 3"

definition get_tls_version_disable_bit :: "tls_build \<Rightarrow> 32 word \<Rightarrow> fault + 64 word" where
  "get_tls_version_disable_bit b tls_ver =
     (if tls_ver = ISC_TLS_PROTO_VER_1_2 then
        Inr (case SSL_OP_NO_TLSv1_2 b of Some x \<Rightarrow> x | None \<Rightarrow> 0)
      else if tls_ver = ISC_TLS_PROTO_VER_1_3 then
        Inr (case SSL_OP_NO_TLSv1_3 b of Some x \<Rightarrow> x | None \<Rightarrow> 0)
      else Inl INSIST_failed)"

definition isc_tls_protocol_supported :: "tls_build \<Rightarrow> 32 word \<Rightarrow> fault + bool" where
  "isc_tls_protocol_supported b tls_ver =
     (case get_tls_version_disable_bit b tls_ver of
        Inl f \<Rightarrow> Inl f
      | Inr x \<Rightarrow> Inr (x \<noteq> 0))"

partial_function (option) isc_tlsctx_set_protocols_loop ::
  "tls_build \<Rightarrow> 32 word \<Rightarrow> 32 word \<Rightarrow> 64 word \<Rightarrow> 64 word \<Rightarrow> 32 word
     \<Rightarrow> (fault + 64 word \<times> 64 word \<times> 32 word) option" where
  "isc_tlsctx_set_protocols_loop b tls_versions tls_ver set_options clear_options versions =
     (if tls_ver < ISC_TLS_PROTO_VER_UNDEFINED then
        (if tls_versions AND tls_ver = 0 then
           (case get_tls_version_disable_bit b tls_ver of
              Inl f \<Rightarrow> Some (Inl f)
            | Inr x \<Rightarrow>
                isc_tlsctx_set_protocols_loop b tls_versions (push_bit 1 tls_ver)
                  (set_options OR x) clear_options (versions AND NOT tls_ver))
         else
           (case isc_tls_protocol_supported b tls_ver of
              Inl f \<Rightarrow> Some (Inl f)
            | Inr ok \<Rightarrow>
                if \<not> ok then Some (Inl INSIST_failed)
                else
                  (case get_tls_version_disable_bit b tls_ver of
                     Inl f \<Rightarrow> Some (Inl f)
                   | Inr x \<Rightarrow>
                       isc_tlsctx_set_protocols_loop b tls_versions (push_bit 1 tls_ver)
                         set_options (clear_options OR x) (versions AND NOT tls_ver))))
      else Some (Inr (set_options, clear_options, versions)))"

text \<open>
  Modelled from the spec: \<^verbatim>\<open>SSL_CTX_set_options\<close> and \<^verbatim>\<open>SSL_CTX_clear_options\<close> belong to the
  crypto provider. A context carries a word of option bits; setting ORs bits in, clearing
  removes them.
\<close>

record ssl_ctx =
  options :: "64 word"

definition SSL_CTX_set_options :: "ssl_ctx \<Rightarrow> 64 word \<Rightarrow> ssl_ctx" where
  "SSL_CTX_set_options ctx opts = ctx\<lparr>options := options ctx OR opts\<rparr>"

definition SSL_CTX_clear_options :: "ssl_ctx \<Rightarrow> 64 word \<Rightarrow> ssl_ctx" where
  "SSL_CTX_clear_options ctx opts = ctx\<lparr>options := options ctx AND NOT opts\<rparr>"

definition isc_tlsctx_set_protocols ::
  "tls_build \<Rightarrow> ssl_ctx option \<Rightarrow> 32 word \<Rightarrow> (fault + ssl_ctx \<times> 64 word \<times> 64 word) option" where
  "isc_tlsctx_set_protocols b ctx tls_versions =
     (case ctx of
        None \<Rightarrow> Some (Inl REQUIRE_failed)
      | Some c \<Rightarrow>
          if tls_versions = 0 then Some (Inl REQUIRE_failed)
          else
            (case isc_tlsctx_set_protocols_loop b tls_versions ISC_TLS_PROTO_VER_1_2 0 0 tls_versions of
               None \<Rightarrow> None
             | Some (Inl f) \<Rightarrow> Some (Inl f)
             | Some (Inr (set_options, clear_options, versions)) \<Rightarrow>
                 if versions \<noteq> 0 then Some (Inl INSIST_failed)
                 else Some (Inr (SSL_CTX_clear_options (SSL_CTX_set_options c set_options) clear_options,
                                 set_options, clear_options))))"

text \<open>The disable bit of a known version (0 when the build does not have it), and whether
  a version is selected in a mask.\<close>

definition disable_bit :: "tls_build \<Rightarrow> 32 word \<Rightarrow> 64 word" where
  "disable_bit b v = (case get_tls_version_disable_bit b v of Inl _ \<Rightarrow> 0 | Inr x \<Rightarrow> x)"

definition version_selected :: "32 word \<Rightarrow> 32 word \<Rightarrow> bool" where
  "version_selected tls_versions v = (tls_versions AND v \<noteq> 0)"

subsection \<open>TLS context cache\<close>

text \<open>
  An entry is the matrix \<^verbatim>\<open>ctx[isc_tlsctx_cache_count - 1][2]\<close> of context pointers
  (\<open>None\<close> is \<^verbatim>\<open>NULL\<close>). The hash table stores a pointer to the entry; an entry is
  reachable only through the table, so the table is modelled as holding the entry itself and
  the assignment \<^verbatim>\<open>entry->ctx[tr_offset][ipv6] = ctx\<close> as an update of the table at the name.
  The read-write lock is not modelled: one call runs at a time.
\<close>

type_synonym 'c isc_tlsctx_cache_entry = "nat \<Rightarrow> nat \<Rightarrow> 'c option"

text \<open>
  Modelled from the spec: \<^verbatim>\<open>isc_ht_find\<close> and \<^verbatim>\<open>isc_ht_add\<close> are not among the sources.
  The spec has find as a pure read that returns the value or NOT_FOUND, and add as inserting
  or reporting a duplicate with EXISTS. A key of the spec's map is a byte sequence of at most
  65535 bytes, and a longer key is a contract violation (\<open>Inl REQUIRE_failed\<close>), as with the
  \<^verbatim>\<open>REQUIRE(keysize <= UINT16_MAX)\<close> of \<^verbatim>\<open>isc_hashmap_find\<close> and \<^verbatim>\<open>isc_hashmap_add\<close>.
\<close>

type_synonym 'c isc_ht = "string \<rightharpoonup> 'c isc_tlsctx_cache_entry"

definition isc_ht_find ::
  "'c isc_ht \<Rightarrow> string \<Rightarrow> fault + isc_result \<times> 'c isc_tlsctx_cache_entry option" where
  "isc_ht_find ht key =
     (if length key > 65535 then Inl REQUIRE_failed
      else Inr (case ht key of None \<Rightarrow> (ISC_R_NOTFOUND, None) | Some e \<Rightarrow> (ISC_R_SUCCESS, Some e)))"

definition isc_ht_add ::
  "'c isc_ht \<Rightarrow> string \<Rightarrow> 'c isc_tlsctx_cache_entry \<Rightarrow> fault + isc_result \<times> 'c isc_ht" where
  "isc_ht_add ht key e =
     (if length key > 65535 then Inl REQUIRE_failed
      else Inr (case ht key of None \<Rightarrow> (ISC_R_SUCCESS, ht(key \<mapsto> e)) | Some _ \<Rightarrow> (ISC_R_EXISTS, ht)))"

text \<open>Modelled from the spec: the macro \<^verbatim>\<open>ISC_MAGIC\<close> is not among the sources; the magic
  word validates the handle and is the four characters \<^verbatim>\<open>TlSc\<close>.\<close>

definition TLSCTX_CACHE_MAGIC :: "32 word" where
  "TLSCTX_CACHE_MAGIC = 0x546c5363"

record 'c isc_tlsctx_cache =
  magic :: "32 word"
  references :: nat
  data :: "'c isc_ht"

definition VALID_TLSCTX_CACHE :: "'c isc_tlsctx_cache \<Rightarrow> bool" where
  "VALID_TLSCTX_CACHE t = (magic t = TLSCTX_CACHE_MAGIC)"

text \<open>
  Modelled from the spec: the enumeration \<^verbatim>\<open>isc_tlsctx_cache_transport_t\<close> and the address
  families are declared in headers that are not among the sources. The transports are
  \<^verbatim>\<open>none\<close>, DoT, DoH and the count; the families are those of the socket interface.
\<close>

definition isc_tlsctx_cache_none :: nat where "isc_tlsctx_cache_none = 0"
definition isc_tlsctx_cache_count :: nat where "isc_tlsctx_cache_count = 3"

definition AF_INET :: "16 word" where "AF_INET = 2"
definition AF_INET6 :: "16 word" where "AF_INET6 = 10"

definition isc_tlsctx_cache_new :: "'c isc_tlsctx_cache" where
  "isc_tlsctx_cache_new = \<lparr>magic = TLSCTX_CACHE_MAGIC, references = 1, data = Map.empty\<rparr>"

definition isc_tlsctx_cache_add ::
  "'c isc_tlsctx_cache \<Rightarrow> string option \<Rightarrow> nat \<Rightarrow> 16 word \<Rightarrow> 'c option \<Rightarrow> 'c option option
     \<Rightarrow> fault + isc_result \<times> 'c isc_tlsctx_cache \<times> 'c option option" where
  "isc_tlsctx_cache_add cache name transport family ctx pfound =
     (if \<not> VALID_TLSCTX_CACHE cache then Inl REQUIRE_failed
      else case name of None \<Rightarrow> Inl REQUIRE_failed | Some nm \<Rightarrow>
      if nm = [] then Inl REQUIRE_failed
      else if \<not> (transport > isc_tlsctx_cache_none \<and> transport < isc_tlsctx_cache_count)
        then Inl REQUIRE_failed
      else if \<not> (family = AF_INET \<or> family = AF_INET6) then Inl REQUIRE_failed
      else if ctx = None then Inl REQUIRE_failed
      else
        let tr_offset = transport - 1;
            ipv6 = (if family = AF_INET6 then 1 else 0::nat)
        in case isc_ht_find (data cache) nm of
             Inl f \<Rightarrow> Inl f
           | Inr (ISC_R_SUCCESS, Some entry) \<Rightarrow>
               if entry tr_offset ipv6 \<noteq> None then
                 (case pfound of
                    None \<Rightarrow> Inr (ISC_R_EXISTS, cache, pfound)
                  | Some cell \<Rightarrow>
                      if cell \<noteq> None then Inl INSIST_failed
                      else Inr (ISC_R_EXISTS, cache, Some (entry tr_offset ipv6)))
               else
                 Inr (ISC_R_SUCCESS,
                      cache\<lparr>data := (data cache)(nm \<mapsto> entry(tr_offset := (entry tr_offset)(ipv6 := ctx)))\<rparr>,
                      pfound)
           | Inr (ISC_R_SUCCESS, None) \<Rightarrow> Inl NULL_deref
           | Inr (result, _) \<Rightarrow>
               let entry = (\<lambda>_ _. None);
                   entry = entry(tr_offset := (entry tr_offset)(ipv6 := ctx))
               in case isc_ht_add (data cache) nm entry of
                    Inl f \<Rightarrow> Inl f
                  | Inr (ISC_R_SUCCESS, ht) \<Rightarrow> Inr (ISC_R_SUCCESS, cache\<lparr>data := ht\<rparr>, pfound)
                  | Inr _ \<Rightarrow> Inl INSIST_failed)"

definition isc_tlsctx_cache_find ::
  "'c isc_tlsctx_cache \<Rightarrow> string option \<Rightarrow> nat \<Rightarrow> 16 word \<Rightarrow> 'c option option
     \<Rightarrow> fault + isc_result \<times> 'c option" where
  "isc_tlsctx_cache_find cache name transport family pctx =
     (if \<not> VALID_TLSCTX_CACHE cache then Inl REQUIRE_failed
      else case name of None \<Rightarrow> Inl REQUIRE_failed | Some nm \<Rightarrow>
      if nm = [] then Inl REQUIRE_failed
      else if \<not> (transport > isc_tlsctx_cache_none \<and> transport < isc_tlsctx_cache_count)
        then Inl REQUIRE_failed
      else if \<not> (family = AF_INET \<or> family = AF_INET6) then Inl REQUIRE_failed
      else if pctx \<noteq> Some None then Inl REQUIRE_failed
      else
        let tr_offset = transport - 1;
            ipv6 = (if family = AF_INET6 then 1 else 0::nat)
        in case isc_ht_find (data cache) nm of
             Inl f \<Rightarrow> Inl f
           | Inr (ISC_R_SUCCESS, Some entry) \<Rightarrow>
               if entry tr_offset ipv6 \<noteq> None then Inr (ISC_R_SUCCESS, entry tr_offset ipv6)
               else Inr (ISC_R_NOTFOUND, None)
           | Inr (ISC_R_SUCCESS, None) \<Rightarrow> Inl NULL_deref
           | Inr (result, _) \<Rightarrow> Inr (result, None))"

text \<open>The slot of a cache that add and find address, and the arguments that pass the
  \<^verbatim>\<open>REQUIRE\<close>s of add and find and the key bound of the map: a valid cache, a name of 1 to
  65535 bytes, a transport strictly between \<^verbatim>\<open>none\<close> and the count, and one of the two
  families.\<close>

definition cache_slot :: "'c isc_tlsctx_cache \<Rightarrow> string \<Rightarrow> nat \<Rightarrow> 16 word \<Rightarrow> 'c option" where
  "cache_slot cache nm transport family =
     (case data cache nm of
        None \<Rightarrow> None
      | Some entry \<Rightarrow> entry (transport - 1) (if family = AF_INET6 then 1 else 0))"

definition cache_args_ok :: "'c isc_tlsctx_cache \<Rightarrow> string \<Rightarrow> nat \<Rightarrow> 16 word \<Rightarrow> bool" where
  "cache_args_ok cache nm transport family =
     (VALID_TLSCTX_CACHE cache \<and> nm \<noteq> [] \<and> length nm \<le> 65535 \<and>
      isc_tlsctx_cache_none < transport \<and> transport < isc_tlsctx_cache_count \<and>
      (family = AF_INET \<or> family = AF_INET6))"

text \<open>Two caches for the examples: \<open>cache_ns1\<close> is the new cache after the context 7 has been
  added for the name \<^verbatim>\<open>ns1\<close>, transport 1 and \<^verbatim>\<open>AF_INET\<close>; \<open>cache_ns1_v6\<close> is that cache
  after the context 8 has been added for the same name and transport and \<^verbatim>\<open>AF_INET6\<close>.\<close>

definition cache_ns1 :: "nat isc_tlsctx_cache" where
  "cache_ns1 = \<lparr>magic = TLSCTX_CACHE_MAGIC, references = 1,
     data = [''ns1'' \<mapsto> (\<lambda>_ _. None)(0 := (\<lambda>_. None)(0 := Some 7))]\<rparr>"

definition cache_ns1_v6 :: "nat isc_tlsctx_cache" where
  "cache_ns1_v6 = \<lparr>magic = TLSCTX_CACHE_MAGIC, references = 1,
     data = [''ns1'' \<mapsto> (\<lambda>_ _. None)(0 := (\<lambda>_. None)(0 := Some 7, 1 := Some 8))]\<rparr>"

section \<open>Hash map (hashmap.c)\<close>

text \<open>
  Conventions of the model. \<^verbatim>\<open>size_t\<close> is a word of 64 bits, \<^verbatim>\<open>uint32_t\<close> of 32, \<^verbatim>\<open>uint16_t\<close>
  of 16 and \<^verbatim>\<open>uint8_t\<close> of 8; arithmetic wraps as in C. A key is its bytes, and \<^verbatim>\<open>keysize\<close> is
  their number; \<open>None\<close> is the \<^verbatim>\<open>NULL\<close> pointer, for a key, a value and a table. The array of
  nodes of a table is a function from the 32-bit index, and a pointer to a node is the index of
  its slot. A failed \<^verbatim>\<open>REQUIRE\<close> or \<^verbatim>\<open>INSIST\<close>, the use of a \<^verbatim>\<open>NULL\<close> table and a shift
  by 64 bits or more are faults (\<open>Inl\<close>). A loop that the source does not bound is a partial
  function whose value \<open>None\<close> is that of a run that does not return.
\<close>

subsection \<open>The code\<close>

text \<open>Sequencing of calls that may fault or not return.\<close>

definition res_bind :: "(fault + 'a) option \<Rightarrow> ('a \<Rightarrow> (fault + 'b) option) \<Rightarrow> (fault + 'b) option" where
  "res_bind r f = (case r of None \<Rightarrow> None | Some (Inl e) \<Rightarrow> Some (Inl e) | Some (Inr x) \<Rightarrow> f x)"

text \<open>The macros \<^verbatim>\<open>APPROX_90_PERCENT\<close>, \<^verbatim>\<open>APPROX_40_PERCENT\<close> and \<^verbatim>\<open>APPROX_20_PERCENT\<close>, on
  \<^verbatim>\<open>size_t\<close>: \<^verbatim>\<open>((x) * 921) >> 10\<close> and so on.\<close>

definition APPROX_90_PERCENT :: "64 word \<Rightarrow> 64 word" where
  "APPROX_90_PERCENT x = drop_bit 10 (x * 921)"

definition APPROX_40_PERCENT :: "64 word \<Rightarrow> 64 word" where
  "APPROX_40_PERCENT x = drop_bit 10 (x * 409)"

definition APPROX_20_PERCENT :: "64 word \<Rightarrow> 64 word" where
  "APPROX_20_PERCENT x = drop_bit 10 (x * 205)"

text \<open>Modelled from the spec: the macro \<^verbatim>\<open>ISC_MAGIC\<close> and the option
  \<^verbatim>\<open>ISC_HASHMAP_CASE_INSENSITIVE\<close> are declared in headers that are not among the sources. The
  magic word validates the handle and is the four characters \<^verbatim>\<open>HMap\<close>; equality of keys is exact
  or ASCII case-insensitive per map configuration, the option being one bit of the options.\<close>

definition ISC_HASHMAP_MAGIC :: "32 word" where
  "ISC_HASHMAP_MAGIC = 0x484d6170"

definition ISC_HASHMAP_CASE_INSENSITIVE :: "32 word" where
  "ISC_HASHMAP_CASE_INSENSITIVE = 1"

text \<open>\<^verbatim>\<open>HASHSIZE(bits)\<close> is \<^verbatim>\<open>UINT64_C(1) << (bits)\<close>.\<close>

definition HASHSIZE :: "nat \<Rightarrow> 64 word" where
  "HASHSIZE bits = push_bit bits 1"

definition HASHMAP_NO_BITS :: "8 word" where "HASHMAP_NO_BITS = 0"
definition HASHMAP_MIN_BITS :: "8 word" where "HASHMAP_MIN_BITS = 1"
definition HASHMAP_MAX_BITS :: "8 word" where "HASHMAP_MAX_BITS = 32"
definition UINT16_MAX :: nat where "UINT16_MAX = 65535"

record 'v hashmap_node =
  n_key :: "8 word list option"
  n_value :: "'v option"
  n_hashval :: "32 word"
  n_psl :: "32 word"
  n_keysize :: "16 word"

record 'v hashmap_table =
  t_size :: "64 word"
  t_hashbits :: "8 word"
  t_hashmask :: "32 word"
  t_table :: "(32 word \<Rightarrow> 'v hashmap_node) option"

record 'v isc_hashmap =
  hm_magic :: "32 word"
  hm_case_sensitive :: bool
  hm_hindex :: "8 word"
  hm_hiter :: "32 word"
  hm_count :: "64 word"
  hm_hash_key :: "8 word list"
  hm_tables :: "8 word \<Rightarrow> 'v hashmap_table"

record isc_hashmap_iter =
  it_i :: "64 word"
  it_hindex :: "8 word"
  it_cur :: "(8 word \<times> 64 word) option"

definition zero_node :: "'v hashmap_node" where
  "zero_node = \<lparr>n_key = None, n_value = None, n_hashval = 0, n_psl = 0, n_keysize = 0\<rparr>"

definition zero_table :: "'v hashmap_table" where
  "zero_table = \<lparr>t_size = 0, t_hashbits = 0, t_hashmask = 0, t_table = None\<rparr>"

definition ISC_HASHMAP_VALID :: "'v isc_hashmap \<Rightarrow> bool" where
  "ISC_HASHMAP_VALID hashmap = (hm_magic hashmap = ISC_HASHMAP_MAGIC)"

text \<open>Modelled from the spec: \<^verbatim>\<open>isc_hash_bits32\<close> is declared in a header that is not among
  the sources. The spec has it as the extraction of the high bits of the hash value: the home
  slot of a hash value \<open>h\<close> in a table of \<open>bits\<close> bits is \<open>h >> (32 - bits)\<close>.\<close>

definition isc_hash_bits32 :: "32 word \<Rightarrow> 8 word \<Rightarrow> 32 word" where
  "isc_hash_bits32 val bits = drop_bit (32 - unat bits) val"

text \<open>Modelled from the spec: \<^verbatim>\<open>isc_ascii_lowerequal\<close> is declared in a header that is not
  among the sources; it compares the first \<open>len\<close> bytes of two keys with the ASCII letters
  folded to lower case. \<^verbatim>\<open>memcmp\<close> (equal to 0) compares them as they are.\<close>

definition isc_ascii_tolower :: "8 word \<Rightarrow> 8 word" where
  "isc_ascii_tolower c = (if 0x41 \<le> c \<and> c \<le> 0x5a then c + 0x20 else c)"

definition isc_ascii_lowerequal :: "8 word list \<Rightarrow> 8 word list \<Rightarrow> nat \<Rightarrow> bool" where
  "isc_ascii_lowerequal a b len = (map isc_ascii_tolower (take len a) = map isc_ascii_tolower (take len b))"

definition memcmp :: "8 word list \<Rightarrow> 8 word list \<Rightarrow> nat \<Rightarrow> bool" where
  "memcmp a b len = (take len a = take len b)"

definition hashmap_nexttable :: "8 word \<Rightarrow> 8 word" where
  "hashmap_nexttable idx = (if idx = 0 then 1 else 0)"

definition rehashing_in_progress :: "'v isc_hashmap \<Rightarrow> bool" where
  "rehashing_in_progress hashmap =
     (t_table (hm_tables hashmap (hashmap_nexttable (hm_hindex hashmap))) \<noteq> None)"

definition try_nexttable :: "'v isc_hashmap \<Rightarrow> 8 word \<Rightarrow> bool" where
  "try_nexttable hashmap idx = (idx = hm_hindex hashmap \<and> rehashing_in_progress hashmap)"

definition hashmap_node_init ::
  "32 word \<Rightarrow> 8 word list option \<Rightarrow> 'v option \<Rightarrow> fault + 'v hashmap_node" where
  "hashmap_node_init hashval key val =
     (case key of
        None \<Rightarrow> Inl REQUIRE_failed
      | Some k \<Rightarrow>
          if \<not> length k \<le> UINT16_MAX then Inl REQUIRE_failed
          else Inr \<lparr>n_key = key, n_value = val, n_hashval = hashval, n_psl = 0,
                    n_keysize = of_nat (length k)\<rparr>)"

definition hashmap_create_table ::
  "'v isc_hashmap \<Rightarrow> 8 word \<Rightarrow> 8 word \<Rightarrow> fault + 'v isc_hashmap" where
  "hashmap_create_table hashmap idx bits =
     (if \<not> (t_hashbits (hm_tables hashmap idx) = HASHMAP_NO_BITS) then Inl REQUIRE_failed
      else if \<not> (t_table (hm_tables hashmap idx) = None) then Inl REQUIRE_failed
      else if \<not> (bits \<ge> HASHMAP_MIN_BITS) then Inl REQUIRE_failed
      else if \<not> (bits \<le> HASHMAP_MAX_BITS) then Inl REQUIRE_failed
      else Inr (hashmap\<lparr>hm_tables := (hm_tables hashmap)(idx :=
             \<lparr>t_size = HASHSIZE (unat bits), t_hashbits = bits,
              t_hashmask = ucast (HASHSIZE (unat bits) - 1),
              t_table = Some (\<lambda>_. zero_node)\<rparr>)\<rparr>))"

text \<open>\<^verbatim>\<open>hashmap_free_table\<close>: the loop of the \<^verbatim>\<open>cleanup\<close> case counts down \<^verbatim>\<open>count\<close> for
  every node of the table; the table is then released.\<close>

function hashmap_free_table_cleanup ::
  "(32 word \<Rightarrow> 'v hashmap_node) \<Rightarrow> 64 word \<Rightarrow> 64 word \<Rightarrow> 64 word \<Rightarrow> 64 word" where
  "hashmap_free_table_cleanup tbl sz cnt i =
     (if i < sz then
        (if n_key (tbl (ucast i)) \<noteq> None then hashmap_free_table_cleanup tbl sz (cnt - 1) (i + 1)
         else hashmap_free_table_cleanup tbl sz cnt (i + 1))
      else cnt)"
  by pat_completeness auto
termination
proof (relation "measure (\<lambda>(tbl, sz, cnt, i). unat sz - unat i)")
  fix tbl :: "32 word \<Rightarrow> 'v hashmap_node" and sz cnt i :: "64 word"
  assume lt: "i < sz"
  then have "unat i < unat sz" by (simp add: word_less_nat_alt)
  moreover have "unat sz < 2 ^ 64" using unsigned_less [of sz] by simp
  ultimately have "unat i + unat (1 :: 64 word) < 2 ^ LENGTH(64)" by simp
  then have "unat (i + 1) = unat i + 1" by (simp add: unat_add_lem [THEN iffD1])
  moreover from lt have "unat i < unat sz" by (simp add: word_less_nat_alt)
  ultimately show "((tbl, sz, cnt - 1, i + 1), (tbl, sz, cnt, i)) \<in> measure (\<lambda>(tbl, sz, cnt, i). unat sz - unat i)"
    and "((tbl, sz, cnt, i + 1), (tbl, sz, cnt, i)) \<in> measure (\<lambda>(tbl, sz, cnt, i). unat sz - unat i)"
    by simp_all
qed simp

declare hashmap_free_table_cleanup.simps [simp del]

definition hashmap_free_table :: "'v isc_hashmap \<Rightarrow> 8 word \<Rightarrow> bool \<Rightarrow> fault + 'v isc_hashmap" where
  "hashmap_free_table hashmap idx cleanup =
     (case t_table (hm_tables hashmap idx) of
        None \<Rightarrow> Inl NULL_deref
      | Some tbl \<Rightarrow>
          Inr (hashmap
                \<lparr>hm_count := (if cleanup
                     then hashmap_free_table_cleanup tbl (t_size (hm_tables hashmap idx)) (hm_count hashmap) 0
                     else hm_count hashmap),
                 hm_tables := (hm_tables hashmap)(idx := zero_table)\<rparr>))"

text \<open>\<^verbatim>\<open>isc_hashmap_create\<close>: the seed \<^verbatim>\<open>hash_key\<close> is filled by \<^verbatim>\<open>isc_entropy_get\<close>; the
  bytes it delivers are the parameter \<open>entropy\<close>. The memory context is not modelled.\<close>

definition isc_hashmap_create :: "8 word list \<Rightarrow> 8 word \<Rightarrow> 32 word \<Rightarrow> fault + 'v isc_hashmap" where
  "isc_hashmap_create entropy bits opts =
     (let case_sensitive = (opts AND ISC_HASHMAP_CASE_INSENSITIVE = 0) in
      if \<not> (bits \<ge> HASHMAP_MIN_BITS \<and> bits \<le> HASHMAP_MAX_BITS) then Inl REQUIRE_failed
      else hashmap_create_table
             \<lparr>hm_magic = ISC_HASHMAP_MAGIC, hm_case_sensitive = case_sensitive, hm_hindex = 0,
              hm_hiter = 0, hm_count = 0, hm_hash_key = entropy, hm_tables = (\<lambda>_. zero_table)\<rparr>
             0 bits)"

definition hashmap_match :: "'v hashmap_node \<Rightarrow> 32 word \<Rightarrow> 8 word list \<Rightarrow> bool \<Rightarrow> bool" where
  "hashmap_match node hashval key case_sensitive =
     (n_hashval node = hashval \<and> unat (n_keysize node) = length key \<and>
      (case n_key node of
         None \<Rightarrow> False
       | Some nkey \<Rightarrow>
           if case_sensitive then memcmp nkey key (length key)
           else isc_ascii_lowerequal nkey key (length key)))"

text \<open>\<^verbatim>\<open>hashmap_find\<close>: the loop over the probe sequence of one table, then the \<^verbatim>\<open>goto\<close>
  to the other table. A node found is returned as its table, its slot and its probe sequence
  length (\<^verbatim>\<open>*idxp\<close>, the pointer, \<^verbatim>\<open>*pslp\<close>).\<close>

partial_function (option) hashmap_find_loop ::
  "(32 word \<Rightarrow> 'v hashmap_node) \<Rightarrow> 32 word \<Rightarrow> bool \<Rightarrow> 32 word \<Rightarrow> 8 word list
     \<Rightarrow> 32 word \<Rightarrow> 32 word \<Rightarrow> (32 word \<times> 32 word) option option" where
  "hashmap_find_loop tbl hashmask cs hashval key hash psl =
     (let pos = (hash + psl) AND hashmask;
          node = tbl pos
      in if n_key node = None \<or> psl > n_psl node then Some None
         else if hashmap_match node hashval key cs then Some (Some (pos, psl))
         else hashmap_find_loop tbl hashmask cs hashval key hash (psl + 1))"

partial_function (option) hashmap_find ::
  "'v isc_hashmap \<Rightarrow> 32 word \<Rightarrow> 8 word list \<Rightarrow> 8 word
     \<Rightarrow> (fault + (8 word \<times> 32 word \<times> 32 word) option) option" where
  "hashmap_find hashmap hashval key idx =
     (case t_table (hm_tables hashmap idx) of
        None \<Rightarrow> Some (Inl NULL_deref)
      | Some tbl \<Rightarrow>
          (case hashmap_find_loop tbl (t_hashmask (hm_tables hashmap idx)) (hm_case_sensitive hashmap)
                  hashval key (isc_hash_bits32 hashval (t_hashbits (hm_tables hashmap idx))) 0 of
             None \<Rightarrow> None
           | Some (Some (pos, psl)) \<Rightarrow> Some (Inr (Some (idx, pos, psl)))
           | Some None \<Rightarrow>
               if try_nexttable hashmap idx
               then hashmap_find hashmap hashval key (hashmap_nexttable idx)
               else Some (Inr None)))"

text \<open>The keyed hash \<^verbatim>\<open>isc_halfsiphash24\<close> is declared in a header that is not among the
  sources; it is a parameter of the model, a function of the seed of the map, the key and the
  case sensitivity.\<close>

definition isc_hashmap_hash ::
  "(8 word list \<Rightarrow> 8 word list \<Rightarrow> bool \<Rightarrow> 32 word) \<Rightarrow> 'v isc_hashmap \<Rightarrow> 8 word list
     \<Rightarrow> fault + 32 word" where
  "isc_hashmap_hash isc_halfsiphash24 hashmap key =
     (if \<not> ISC_HASHMAP_VALID hashmap then Inl REQUIRE_failed
      else Inr (isc_halfsiphash24 (hm_hash_key hashmap) key (hm_case_sensitive hashmap)))"

text \<open>The local \<^verbatim>\<open>hashval\<close> of the three entry points: the caller's value, or the keyed hash.\<close>

definition hashval_of ::
  "(8 word list \<Rightarrow> 8 word list \<Rightarrow> bool \<Rightarrow> 32 word) \<Rightarrow> 'v isc_hashmap \<Rightarrow> 32 word option
     \<Rightarrow> 8 word list \<Rightarrow> fault + 32 word" where
  "hashval_of isc_halfsiphash24 hashmap hashvalp key =
     (case hashvalp of
        Some hashval \<Rightarrow> Inr hashval
      | None \<Rightarrow> isc_hashmap_hash isc_halfsiphash24 hashmap key)"

definition isc_hashmap_find ::
  "(8 word list \<Rightarrow> 8 word list \<Rightarrow> bool \<Rightarrow> 32 word) \<Rightarrow> 'v isc_hashmap \<Rightarrow> 32 word option
     \<Rightarrow> 8 word list option \<Rightarrow> 'v option option
     \<Rightarrow> (fault + isc_result \<times> 'v option option) option" where
  "isc_hashmap_find isc_halfsiphash24 hashmap hashvalp key valuep =
     (if \<not> ISC_HASHMAP_VALID hashmap then Some (Inl REQUIRE_failed)
      else case key of None \<Rightarrow> Some (Inl REQUIRE_failed) | Some k \<Rightarrow>
      if \<not> length k \<le> UINT16_MAX then Some (Inl REQUIRE_failed)
      else if \<not> (valuep = None \<or> valuep = Some None) then Some (Inl REQUIRE_failed)
      else
        res_bind (Some (hashval_of isc_halfsiphash24 hashmap hashvalp k)) (\<lambda>hashval.
        res_bind (hashmap_find hashmap hashval k (hm_hindex hashmap)) (\<lambda>node.
          case node of
            None \<Rightarrow> Some (Inr (ISC_R_NOTFOUND, valuep))
          | Some (idx, pos, psl) \<Rightarrow>
              (case t_table (hm_tables hashmap idx) of
                 None \<Rightarrow> Some (Inl NULL_deref)
               | Some tbl \<Rightarrow>
                   if \<not> n_key (tbl pos) \<noteq> None then Some (Inl INSIST_failed)
                   else Some (Inr (ISC_R_SUCCESS,
                          (case valuep of None \<Rightarrow> None | Some _ \<Rightarrow> Some (n_value (tbl pos)))))))))"

text \<open>\<^verbatim>\<open>hashmap_delete_node\<close>: the backward shift from the slot \<open>entry\<close>.\<close>

partial_function (option) hashmap_delete_node_loop ::
  "(32 word \<Rightarrow> 'v hashmap_node) \<Rightarrow> 32 word \<Rightarrow> 64 word \<Rightarrow> 32 word \<Rightarrow> 32 word
     \<Rightarrow> (fault + (32 word \<Rightarrow> 'v hashmap_node)) option" where
  "hashmap_delete_node_loop tbl hashmask sz entry pos0 =
     (let pos = (pos0 + 1) AND hashmask in
      if \<not> (ucast pos < sz) then Some (Inl INSIST_failed)
      else
        let node = tbl pos in
        if n_key node = None \<or> n_psl node = 0 then Some (Inr (tbl(entry := zero_node)))
        else
          let node = node\<lparr>n_psl := n_psl node - 1\<rparr>;
              tbl = tbl(pos := node);
              tbl = tbl(entry := node)
          in hashmap_delete_node_loop tbl hashmask sz pos pos)"

definition hashmap_delete_node ::
  "'v isc_hashmap \<Rightarrow> 32 word \<Rightarrow> 32 word \<Rightarrow> 32 word \<Rightarrow> 8 word \<Rightarrow> (fault + 'v isc_hashmap) option" where
  "hashmap_delete_node hashmap entry hashval psl idx =
     (let hashmap = hashmap\<lparr>hm_count := hm_count hashmap - 1\<rparr>;
          hash = isc_hash_bits32 hashval (t_hashbits (hm_tables hashmap idx));
          pos = hash + psl
      in case t_table (hm_tables hashmap idx) of
           None \<Rightarrow> Some (Inl NULL_deref)
         | Some tbl \<Rightarrow>
             res_bind (hashmap_delete_node_loop tbl (t_hashmask (hm_tables hashmap idx))
                         (t_size (hm_tables hashmap idx)) entry pos)
               (\<lambda>tbl. Some (Inr (hashmap\<lparr>hm_tables := (hm_tables hashmap)
                    (idx := (hm_tables hashmap idx)\<lparr>t_table := Some tbl\<rparr>)\<rparr>))))"

text \<open>\<^verbatim>\<open>hashmap_add\<close>: the loop carries the table, the node in hand and \<^verbatim>\<open>psl\<close>; the
  optional \<^verbatim>\<open>ISC_HASHMAP_GROW_FAST\<close> block is not compiled.\<close>

partial_function (option) hashmap_add_loop ::
  "(32 word \<Rightarrow> 'v hashmap_node) \<Rightarrow> 32 word \<Rightarrow> bool \<Rightarrow> 32 word \<Rightarrow> 8 word list \<Rightarrow> 32 word
     \<Rightarrow> 'v hashmap_node \<Rightarrow> 32 word \<Rightarrow> (isc_result \<times> (32 word \<Rightarrow> 'v hashmap_node)) option" where
  "hashmap_add_loop tbl hashmask cs hashval key hash node psl =
     (let pos = (hash + psl) AND hashmask;
          current = tbl pos
      in if n_key current = None then Some (ISC_R_SUCCESS, tbl(pos := node))
         else if hashmap_match current hashval key cs then Some (ISC_R_EXISTS, tbl)
         else
           let (tbl, node) =
                 (if n_psl node > n_psl current then (tbl(pos := node), current) else (tbl, node));
               node = node\<lparr>n_psl := n_psl node + 1\<rparr>
           in hashmap_add_loop tbl hashmask cs hashval key hash node (psl + 1))"

definition hashmap_add ::
  "'v isc_hashmap \<Rightarrow> 32 word \<Rightarrow> 8 word list option \<Rightarrow> 'v option \<Rightarrow> 8 word
     \<Rightarrow> (fault + isc_result \<times> 'v isc_hashmap) option" where
  "hashmap_add hashmap hashval key val idx =
     (let hash = isc_hash_bits32 hashval (t_hashbits (hm_tables hashmap idx)) in
      res_bind (Some (hashmap_node_init hashval key val)) (\<lambda>node.
        case key of None \<Rightarrow> Some (Inl NULL_deref) | Some k \<Rightarrow>
        case t_table (hm_tables hashmap idx) of
          None \<Rightarrow> Some (Inl NULL_deref)
        | Some tbl \<Rightarrow>
            (case hashmap_add_loop tbl (t_hashmask (hm_tables hashmap idx)) (hm_case_sensitive hashmap)
                    hashval k hash node 0 of
               None \<Rightarrow> None
             | Some (result, tbl) \<Rightarrow>
                 Some (Inr (result,
                   hashmap\<lparr>hm_count := (if result = ISC_R_SUCCESS then hm_count hashmap + 1
                                          else hm_count hashmap),
                           hm_tables := (hm_tables hashmap)
                             (idx := (hm_tables hashmap idx)\<lparr>t_table := Some tbl\<rparr>)\<rparr>)))))"

text \<open>\<^verbatim>\<open>hashmap_rehash_one\<close>: \<^verbatim>\<open>oldsize\<close> is declared \<^verbatim>\<open>uint32_t\<close> and initialised from the
  \<^verbatim>\<open>size_t\<close> size of the table, so it holds the size modulo \<open>2 ^ 32\<close>.\<close>

function hashmap_rehash_skip :: "(32 word \<Rightarrow> 'v hashmap_node) \<Rightarrow> 32 word \<Rightarrow> 32 word \<Rightarrow> 32 word" where
  "hashmap_rehash_skip oldtable oldsize hiter =
     (if hiter < oldsize \<and> n_key (oldtable hiter) = None
      then hashmap_rehash_skip oldtable oldsize (hiter + 1)
      else hiter)"
  by pat_completeness auto
termination
proof (relation "measure (\<lambda>(oldtable, oldsize, hiter). unat oldsize - unat hiter)")
  fix oldtable :: "32 word \<Rightarrow> 'v hashmap_node" and oldsize hiter :: "32 word"
  assume "hiter < oldsize \<and> n_key (oldtable hiter) = None"
  then have lt: "unat hiter < unat oldsize" by (simp add: word_less_nat_alt)
  moreover have "unat oldsize < 2 ^ 32" using unsigned_less [of oldsize] by simp
  ultimately have "unat hiter + unat (1 :: 32 word) < 2 ^ LENGTH(32)" by simp
  then have "unat (hiter + 1) = unat hiter + 1" by (simp add: unat_add_lem [THEN iffD1])
  with lt show "((oldtable, oldsize, hiter + 1), (oldtable, oldsize, hiter))
      \<in> measure (\<lambda>(oldtable, oldsize, hiter). unat oldsize - unat hiter)"
    by simp
qed simp

declare hashmap_rehash_skip.simps [simp del]

definition hashmap_rehash_one :: "'v isc_hashmap \<Rightarrow> (fault + 'v isc_hashmap) option" where
  "hashmap_rehash_one hashmap =
     (let oldidx = hashmap_nexttable (hm_hindex hashmap);
          oldsize = (ucast (t_size (hm_tables hashmap oldidx)) :: 32 word)
      in case t_table (hm_tables hashmap oldidx) of
           None \<Rightarrow> Some (Inl NULL_deref)
         | Some oldtable \<Rightarrow>
             let hashmap = hashmap\<lparr>hm_hiter := hashmap_rehash_skip oldtable oldsize (hm_hiter hashmap)\<rparr> in
             if hm_hiter hashmap = oldsize then
               res_bind (Some (hashmap_free_table hashmap (hashmap_nexttable (hm_hindex hashmap)) False))
                 (\<lambda>hashmap. Some (Inr (hashmap\<lparr>hm_hiter := 0\<rparr>)))
             else
               let node = oldtable (hm_hiter hashmap) in
               res_bind (hashmap_delete_node hashmap (hm_hiter hashmap) (n_hashval node) (n_psl node) oldidx)
                 (\<lambda>hashmap.
               res_bind (hashmap_add hashmap (n_hashval node) (n_key node) (n_value node) (hm_hindex hashmap))
                 (\<lambda>(result, hashmap).
                    if result \<noteq> ISC_R_SUCCESS then Some (Inl INSIST_failed)
                    else Some (Inr hashmap))))"

text \<open>\<^verbatim>\<open>grow_bits\<close> and \<^verbatim>\<open>shrink_bits\<close>; \<^verbatim>\<open>HASHSIZE(newbits)\<close> shifts a 64-bit one, which C
  leaves undefined for a shift of 64 or more.\<close>

function grow_bits_loop :: "64 word \<Rightarrow> 32 word \<Rightarrow> fault + 32 word" where
  "grow_bits_loop cnt newbits =
     (if \<not> newbits < 64 then Inl Shift_overflow
      else if cnt > APPROX_40_PERCENT (HASHSIZE (unat newbits)) then grow_bits_loop cnt (newbits + 1)
      else Inr newbits)"
  by pat_completeness auto
termination
proof (relation "measure (\<lambda>(cnt, newbits). 64 - unat newbits)")
  fix cnt :: "64 word" and newbits :: "32 word"
  assume "\<not> \<not> newbits < 64"
  then have lt: "unat newbits < 64" by (simp add: word_less_nat_alt)
  then have "unat newbits + unat (1 :: 32 word) < 2 ^ LENGTH(32)" by simp
  then have "unat (newbits + 1) = unat newbits + 1" by (simp add: unat_add_lem [THEN iffD1])
  with lt show "((cnt, newbits + 1), (cnt, newbits)) \<in> measure (\<lambda>(cnt, newbits). 64 - unat newbits)"
    by simp
qed simp

declare grow_bits_loop.simps [simp del]

definition grow_bits :: "'v isc_hashmap \<Rightarrow> fault + 32 word" where
  "grow_bits hashmap =
     (case grow_bits_loop (hm_count hashmap)
             (ucast (t_hashbits (hm_tables hashmap (hm_hindex hashmap))) + 1) of
        Inl f \<Rightarrow> Inl f
      | Inr newbits \<Rightarrow> Inr (if newbits > ucast HASHMAP_MAX_BITS then ucast HASHMAP_MAX_BITS else newbits))"

definition shrink_bits :: "'v isc_hashmap \<Rightarrow> 32 word" where
  "shrink_bits hashmap =
     (let newbits = ucast (t_hashbits (hm_tables hashmap (hm_hindex hashmap))) - 1 in
      if newbits \<le> ucast HASHMAP_MIN_BITS then ucast HASHMAP_MIN_BITS else newbits)"

definition hashmap_rehash_start_grow :: "'v isc_hashmap \<Rightarrow> fault + 'v isc_hashmap" where
  "hashmap_rehash_start_grow hashmap =
     (let oldindex = hm_hindex hashmap;
          oldbits = (ucast (t_hashbits (hm_tables hashmap oldindex)) :: 32 word);
          newindex = hashmap_nexttable oldindex
      in if \<not> \<not> rehashing_in_progress hashmap then Inl REQUIRE_failed
         else case grow_bits hashmap of
                Inl f \<Rightarrow> Inl f
              | Inr newbits \<Rightarrow>
                  if newbits > oldbits then
                    (case hashmap_create_table hashmap newindex (ucast newbits) of
                       Inl f \<Rightarrow> Inl f
                     | Inr hashmap \<Rightarrow> Inr (hashmap\<lparr>hm_hindex := newindex\<rparr>))
                  else Inr hashmap)"

definition hashmap_rehash_start_shrink :: "'v isc_hashmap \<Rightarrow> fault + 'v isc_hashmap" where
  "hashmap_rehash_start_shrink hashmap =
     (let oldindex = hm_hindex hashmap;
          oldbits = (ucast (t_hashbits (hm_tables hashmap oldindex)) :: 32 word);
          newindex = hashmap_nexttable oldindex
      in if \<not> \<not> rehashing_in_progress hashmap then Inl REQUIRE_failed
         else let newbits = shrink_bits hashmap in
              if newbits < oldbits then
                (case hashmap_create_table hashmap newindex (ucast newbits) of
                   Inl f \<Rightarrow> Inl f
                 | Inr hashmap \<Rightarrow> Inr (hashmap\<lparr>hm_hindex := newindex\<rparr>))
              else Inr hashmap)"

definition over_threshold :: "'v isc_hashmap \<Rightarrow> fault + bool" where
  "over_threshold hashmap =
     (let bits = (ucast (t_hashbits (hm_tables hashmap (hm_hindex hashmap))) :: 32 word) in
      if bits = ucast HASHMAP_MAX_BITS then Inr False
      else if \<not> bits < 64 then Inl Shift_overflow
      else Inr (hm_count hashmap > APPROX_90_PERCENT (HASHSIZE (unat bits))))"

definition under_threshold :: "'v isc_hashmap \<Rightarrow> fault + bool" where
  "under_threshold hashmap =
     (let bits = (ucast (t_hashbits (hm_tables hashmap (hm_hindex hashmap))) :: 32 word) in
      if bits = ucast HASHMAP_MIN_BITS then Inr False
      else if \<not> bits < 64 then Inl Shift_overflow
      else Inr (hm_count hashmap < APPROX_20_PERCENT (HASHSIZE (unat bits))))"

definition isc_hashmap_delete ::
  "(8 word list \<Rightarrow> 8 word list \<Rightarrow> bool \<Rightarrow> 32 word) \<Rightarrow> 'v isc_hashmap \<Rightarrow> 32 word option
     \<Rightarrow> 8 word list option \<Rightarrow> (fault + isc_result \<times> 'v isc_hashmap) option" where
  "isc_hashmap_delete isc_halfsiphash24 hashmap hashvalp key =
     (if \<not> ISC_HASHMAP_VALID hashmap then Some (Inl REQUIRE_failed)
      else case key of None \<Rightarrow> Some (Inl REQUIRE_failed) | Some k \<Rightarrow>
      if \<not> length k \<le> UINT16_MAX then Some (Inl REQUIRE_failed)
      else
        res_bind (Some (hashval_of isc_halfsiphash24 hashmap hashvalp k)) (\<lambda>hashval.
        res_bind
          (if rehashing_in_progress hashmap then hashmap_rehash_one hashmap
           else res_bind (Some (under_threshold hashmap)) (\<lambda>under.
                  if under then
                    res_bind (Some (hashmap_rehash_start_shrink hashmap)) hashmap_rehash_one
                  else Some (Inr hashmap)))
          (\<lambda>hashmap.
        res_bind (hashmap_find hashmap hashval k (hm_hindex hashmap)) (\<lambda>node.
          case node of
            None \<Rightarrow> Some (Inr (ISC_R_NOTFOUND, hashmap))
          | Some (idx, pos, psl) \<Rightarrow>
              (case t_table (hm_tables hashmap idx) of
                 None \<Rightarrow> Some (Inl NULL_deref)
               | Some tbl \<Rightarrow>
                   if \<not> n_key (tbl pos) \<noteq> None then Some (Inl INSIST_failed)
                   else res_bind (hashmap_delete_node hashmap pos hashval psl idx)
                          (\<lambda>hashmap. Some (Inr (ISC_R_SUCCESS, hashmap))))))))"

definition isc_hashmap_add ::
  "(8 word list \<Rightarrow> 8 word list \<Rightarrow> bool \<Rightarrow> 32 word) \<Rightarrow> 'v isc_hashmap \<Rightarrow> 32 word option
     \<Rightarrow> 8 word list option \<Rightarrow> 'v option \<Rightarrow> (fault + isc_result \<times> 'v isc_hashmap) option" where
  "isc_hashmap_add isc_halfsiphash24 hashmap hashvalp key val =
     (if \<not> ISC_HASHMAP_VALID hashmap then Some (Inl REQUIRE_failed)
      else case key of None \<Rightarrow> Some (Inl REQUIRE_failed) | Some k \<Rightarrow>
      if \<not> length k \<le> UINT16_MAX then Some (Inl REQUIRE_failed)
      else
        res_bind (Some (hashval_of isc_halfsiphash24 hashmap hashvalp k)) (\<lambda>hashval.
        res_bind
          (if rehashing_in_progress hashmap then hashmap_rehash_one hashmap
           else res_bind (Some (over_threshold hashmap)) (\<lambda>over.
                  if over then
                    res_bind (Some (hashmap_rehash_start_grow hashmap)) hashmap_rehash_one
                  else Some (Inr hashmap)))
          (\<lambda>hashmap.
        res_bind
          (if rehashing_in_progress hashmap
           then hashmap_find hashmap hashval k (hashmap_nexttable (hm_hindex hashmap))
           else Some (Inr None))
          (\<lambda>found.
             if found \<noteq> None then Some (Inr (ISC_R_EXISTS, hashmap))
             else hashmap_add hashmap hashval key val (hm_hindex hashmap)))))"

text \<open>Iterators. The map of an iterator is passed to each call along with the iterator;
  \<^verbatim>\<open>cur\<close> is the table and the slot of the current node.\<close>

definition isc_hashmap_iter_create :: "'v isc_hashmap \<Rightarrow> fault + isc_hashmap_iter" where
  "isc_hashmap_iter_create hashmap =
     (if \<not> ISC_HASHMAP_VALID hashmap then Inl REQUIRE_failed
      else Inr \<lparr>it_i = 0, it_hindex = hm_hindex hashmap, it_cur = None\<rparr>)"

function hashmap_iter_skip :: "(32 word \<Rightarrow> 'v hashmap_node) \<Rightarrow> 64 word \<Rightarrow> 64 word \<Rightarrow> 64 word" where
  "hashmap_iter_skip tbl sz i =
     (if i < sz \<and> n_key (tbl (ucast i)) = None then hashmap_iter_skip tbl sz (i + 1) else i)"
  by pat_completeness auto
termination
proof (relation "measure (\<lambda>(tbl, sz, i). unat sz - unat i)")
  fix tbl :: "32 word \<Rightarrow> 'v hashmap_node" and sz i :: "64 word"
  assume "i < sz \<and> n_key (tbl (ucast i)) = None"
  then have lt: "unat i < unat sz" by (simp add: word_less_nat_alt)
  moreover have "unat sz < 2 ^ 64" using unsigned_less [of sz] by simp
  ultimately have "unat i + unat (1 :: 64 word) < 2 ^ LENGTH(64)" by simp
  then have "unat (i + 1) = unat i + 1" by (simp add: unat_add_lem [THEN iffD1])
  with lt show "((tbl, sz, i + 1), (tbl, sz, i)) \<in> measure (\<lambda>(tbl, sz, i). unat sz - unat i)"
    by simp
qed simp

declare hashmap_iter_skip.simps [simp del]

partial_function (option) isc__hashmap_iter_next ::
  "'v isc_hashmap \<Rightarrow> isc_hashmap_iter \<Rightarrow> (fault + isc_result \<times> isc_hashmap_iter) option" where
  "isc__hashmap_iter_next hashmap iter =
     (let sz = t_size (hm_tables hashmap (it_hindex iter)) in
      case (if it_i iter < sz
            then (case t_table (hm_tables hashmap (it_hindex iter)) of
                    None \<Rightarrow> Inl NULL_deref
                  | Some tbl \<Rightarrow> Inr (iter\<lparr>it_i := hashmap_iter_skip tbl sz (it_i iter)\<rparr>))
            else Inr iter) of
        Inl f \<Rightarrow> Some (Inl f)
      | Inr iter \<Rightarrow>
          if it_i iter < sz then
            Some (Inr (ISC_R_SUCCESS, iter\<lparr>it_cur := Some (it_hindex iter, it_i iter)\<rparr>))
          else if try_nexttable hashmap (it_hindex iter) then
            isc__hashmap_iter_next hashmap
              (iter\<lparr>it_hindex := hashmap_nexttable (it_hindex iter), it_i := 0\<rparr>)
          else Some (Inr (ISC_R_NOMORE, iter)))"

definition isc_hashmap_iter_first ::
  "'v isc_hashmap \<Rightarrow> isc_hashmap_iter \<Rightarrow> (fault + isc_result \<times> isc_hashmap_iter) option" where
  "isc_hashmap_iter_first hashmap iter =
     isc__hashmap_iter_next hashmap (iter\<lparr>it_hindex := hm_hindex hashmap, it_i := 0\<rparr>)"

definition isc_hashmap_iter_next ::
  "'v isc_hashmap \<Rightarrow> isc_hashmap_iter \<Rightarrow> (fault + isc_result \<times> isc_hashmap_iter) option" where
  "isc_hashmap_iter_next hashmap iter =
     (if \<not> it_cur iter \<noteq> None then Some (Inl REQUIRE_failed)
      else isc__hashmap_iter_next hashmap (iter\<lparr>it_i := it_i iter + 1\<rparr>))"

definition isc_hashmap_iter_delcurrent_next ::
  "'v isc_hashmap \<Rightarrow> isc_hashmap_iter
     \<Rightarrow> (fault + isc_result \<times> 'v isc_hashmap \<times> isc_hashmap_iter) option" where
  "isc_hashmap_iter_delcurrent_next hashmap iter =
     (if \<not> it_cur iter \<noteq> None then Some (Inl REQUIRE_failed)
      else case t_table (hm_tables hashmap (it_hindex iter)) of
             None \<Rightarrow> Some (Inl NULL_deref)
           | Some tbl \<Rightarrow>
               if \<not> it_i iter < t_size (hm_tables hashmap (it_hindex iter)) then Some (Inl OutOfBounds)
               else
                 let node = tbl (ucast (it_i iter)) in
                 res_bind (hashmap_delete_node hashmap (ucast (it_i iter)) (n_hashval node) (n_psl node)
                             (it_hindex iter))
                   (\<lambda>hashmap.
                 res_bind (isc__hashmap_iter_next hashmap iter)
                   (\<lambda>(result, iter). Some (Inr (result, hashmap, iter)))))"

definition isc_hashmap_count :: "'v isc_hashmap \<Rightarrow> fault + 32 word" where
  "isc_hashmap_count hashmap =
     (if \<not> ISC_HASHMAP_VALID hashmap then Inl REQUIRE_failed else Inr (ucast (hm_count hashmap)))"

subsection \<open>Invariants of a table\<close>

text \<open>The stored probe sequence length of every node is the distance from its home slot.\<close>

definition psl_ok :: "(32 word \<Rightarrow> 'v hashmap_node) \<Rightarrow> 8 word \<Rightarrow> 32 word \<Rightarrow> bool" where
  "psl_ok tbl bits m =
     (\<forall>p. p \<le> m \<longrightarrow> n_key (tbl p) \<noteq> None \<longrightarrow>
        n_psl (tbl p) = (p - isc_hash_bits32 (n_hashval (tbl p)) bits) AND m)"

text \<open>Robin Hood order: a displaced node follows a node that is at most one step less displaced.\<close>

definition rh_ok :: "(32 word \<Rightarrow> 'v hashmap_node) \<Rightarrow> 32 word \<Rightarrow> bool" where
  "rh_ok tbl m =
     (\<forall>p. p \<le> m \<longrightarrow> n_key (tbl p) \<noteq> None \<longrightarrow> n_psl (tbl p) \<noteq> 0 \<longrightarrow>
        n_key (tbl ((p - 1) AND m)) \<noteq> None \<and> n_psl (tbl p) - 1 \<le> n_psl (tbl ((p - 1) AND m)))"

definition node_ok :: "'v hashmap_node \<Rightarrow> bool" where
  "node_ok x =
     (case n_key x of None \<Rightarrow> True
      | Some k \<Rightarrow> length k \<le> UINT16_MAX \<and> n_keysize x = of_nat (length k))"

definition keys_ok :: "(32 word \<Rightarrow> 'v hashmap_node) \<Rightarrow> 32 word \<Rightarrow> bool" where
  "keys_ok tbl m = (\<forall>p. p \<le> m \<longrightarrow> node_ok (tbl p))"

definition same_key :: "bool \<Rightarrow> 'v hashmap_node \<Rightarrow> 'v hashmap_node \<Rightarrow> bool" where
  "same_key cs x y =
     (case n_key y of None \<Rightarrow> False | Some k \<Rightarrow> hashmap_match x (n_hashval y) k cs)"

definition distinct_keys :: "bool \<Rightarrow> (32 word \<Rightarrow> 'v hashmap_node) \<Rightarrow> 32 word \<Rightarrow> bool" where
  "distinct_keys cs tbl m =
     (\<forall>p q. p \<le> m \<longrightarrow> q \<le> m \<longrightarrow> n_key (tbl p) \<noteq> None \<longrightarrow> n_key (tbl q) \<noteq> None \<longrightarrow>
        same_key cs (tbl p) (tbl q) \<longrightarrow> p = q)"

definition table_ok :: "bool \<Rightarrow> (32 word \<Rightarrow> 'v hashmap_node) \<Rightarrow> 8 word \<Rightarrow> 32 word \<Rightarrow> bool" where
  "table_ok cs tbl bits m =
     (psl_ok tbl bits m \<and> rh_ok tbl m \<and> keys_ok tbl m \<and> distinct_keys cs tbl m)"

definition has_room :: "(32 word \<Rightarrow> 'v hashmap_node) \<Rightarrow> 32 word \<Rightarrow> bool" where
  "has_room tbl m = (\<exists>e. e \<le> m \<and> n_key (tbl e) = None)"

text \<open>A key is in a table when some node of the table matches it.\<close>

definition in_table :: "bool \<Rightarrow> (32 word \<Rightarrow> 'v hashmap_node) \<Rightarrow> 32 word \<Rightarrow> 32 word \<Rightarrow> 8 word list \<Rightarrow> bool" where
  "in_table cs tbl m hashval key =
     (\<exists>p. p \<le> m \<and> n_key (tbl p) \<noteq> None \<and> hashmap_match (tbl p) hashval key cs)"


text \<open>The contents of a table: its nodes, their probe sequence lengths put aside, and the
  slots they occupy.\<close>

definition strip :: "'v hashmap_node \<Rightarrow> 'v hashmap_node" where
  "strip x = x\<lparr>n_psl := 0\<rparr>"

definition entries :: "(32 word \<Rightarrow> 'v hashmap_node) \<Rightarrow> 32 word \<Rightarrow> 'v hashmap_node set" where
  "entries tbl m = {strip (tbl p) | p. p \<le> m \<and> n_key (tbl p) \<noteq> None}"

definition occ :: "(32 word \<Rightarrow> 'v hashmap_node) \<Rightarrow> 32 word \<Rightarrow> 32 word set" where
  "occ tbl m = {p. p \<le> m \<and> n_key (tbl p) \<noteq> None}"

text \<open>The invariant of the loop of \<^verbatim>\<open>hashmap_add\<close>, at slot \<open>pos\<close> with the node \<open>node\<close> in
  hand, for a table whose slot \<open>e\<close> is empty.\<close>

definition add_inv ::
  "bool \<Rightarrow> 8 word \<Rightarrow> 32 word \<Rightarrow> 32 word \<Rightarrow> 32 word \<Rightarrow> 8 word list
     \<Rightarrow> (32 word \<Rightarrow> 'v hashmap_node) \<Rightarrow> 'v hashmap_node \<Rightarrow> 32 word \<Rightarrow> bool" where
  "add_inv cs bits m e hashval key tbl node pos =
     (table_ok cs tbl bits m \<and> e \<le> m \<and> n_key (tbl e) = None \<and>
      node_ok node \<and> n_key node \<noteq> None \<and>
      n_psl node = (pos - isc_hash_bits32 (n_hashval node) bits) AND m \<and>
      (n_psl node \<noteq> 0 \<longrightarrow>
         n_key (tbl ((pos - 1) AND m)) \<noteq> None \<and> n_psl node - 1 \<le> n_psl (tbl ((pos - 1) AND m))) \<and>
      (\<forall>q. q \<le> m \<longrightarrow> n_key (tbl q) \<noteq> None \<longrightarrow> \<not> same_key cs (tbl q) node) \<and>
      (\<forall>q. q \<le> m \<longrightarrow> unat ((q - pos) AND m) \<le> unat ((e - pos) AND m) \<longrightarrow>
           n_key (tbl q) \<noteq> None \<longrightarrow> \<not> hashmap_match (tbl q) hashval key cs) \<and>
      unat (n_psl node) + unat ((e - pos) AND m) \<le> unat m)"

text \<open>Robin Hood order at one slot.\<close>

definition rh_at :: "(32 word \<Rightarrow> 'v hashmap_node) \<Rightarrow> 32 word \<Rightarrow> 32 word \<Rightarrow> bool" where
  "rh_at tbl m p =
     (n_key (tbl p) \<noteq> None \<longrightarrow> n_psl (tbl p) \<noteq> 0 \<longrightarrow>
        n_key (tbl ((p - 1) AND m)) \<noteq> None \<and> n_psl (tbl p) - 1 \<le> n_psl (tbl ((p - 1) AND m)))"

text \<open>The invariant of the loop of \<^verbatim>\<open>hashmap_delete_node\<close>, for the table with the slot
  \<open>e\<close> of the deleted node taken as empty: the order may be broken only at the slot after \<open>e\<close>,
  and the node there fits behind the node before \<open>e\<close> once it is moved back.\<close>

definition del_inv ::
  "bool \<Rightarrow> 8 word \<Rightarrow> 32 word \<Rightarrow> (32 word \<Rightarrow> 'v hashmap_node) \<Rightarrow> 32 word \<Rightarrow> bool" where
  "del_inv cs bits m tbl e =
     (e \<le> m \<and> n_key (tbl e) = None \<and> psl_ok tbl bits m \<and> keys_ok tbl m \<and> distinct_keys cs tbl m \<and>
      (\<forall>p. p \<le> m \<longrightarrow> p \<noteq> (e + 1) AND m \<longrightarrow> rh_at tbl m p) \<and>
      (n_key (tbl ((e + 1) AND m)) \<noteq> None \<longrightarrow> 2 \<le> n_psl (tbl ((e + 1) AND m)) \<longrightarrow>
         n_key (tbl ((e - 1) AND m)) \<noteq> None \<and>
         n_psl (tbl ((e + 1) AND m)) - 2 \<le> n_psl (tbl ((e - 1) AND m))))"

text \<open>The sum of the probe sequence lengths of a table: it decreases with every backward shift.\<close>

definition wt :: "'v hashmap_node \<Rightarrow> nat" where
  "wt x = (if n_key x = None then 0 else unat (n_psl x))"

definition psl_sum :: "(32 word \<Rightarrow> 'v hashmap_node) \<Rightarrow> 32 word \<Rightarrow> nat" where
  "psl_sum tbl m = sum (\<lambda>p. wt (tbl p)) {p. p \<le> m}"

subsection \<open>Invariants of a map\<close>

text \<open>A table is well formed when its array is allocated, its width is within 1 and 32, its
  mask and size are those of the width, and its array satisfies the invariants of a table. Its
  entries are the nodes it holds, and its count is their number.\<close>

definition tbl_wf :: "bool \<Rightarrow> 'v hashmap_table \<Rightarrow> bool" where
  "tbl_wf cs t =
     (case t_table t of
        None \<Rightarrow> False
      | Some tbl \<Rightarrow>
          1 \<le> unat (t_hashbits t) \<and> unat (t_hashbits t) \<le> 32 \<and>
          t_hashmask t = mask (unat (t_hashbits t)) \<and>
          t_size t = HASHSIZE (unat (t_hashbits t)) \<and>
          table_ok cs tbl (t_hashbits t) (t_hashmask t))"

definition tab_entries :: "'v hashmap_table \<Rightarrow> 'v hashmap_node set" where
  "tab_entries t = (case t_table t of None \<Rightarrow> {} | Some tbl \<Rightarrow> entries tbl (t_hashmask t))"

definition tab_count :: "'v hashmap_table \<Rightarrow> nat" where
  "tab_count t = (case t_table t of None \<Rightarrow> 0 | Some tbl \<Rightarrow> card (occ tbl (t_hashmask t)))"

text \<open>The table that receives insertions, and the table that a rehash empties.\<close>

definition active :: "'v isc_hashmap \<Rightarrow> 'v hashmap_table" where
  "active hashmap = hm_tables hashmap (hm_hindex hashmap)"

definition source :: "'v isc_hashmap \<Rightarrow> 'v hashmap_table" where
  "source hashmap = hm_tables hashmap (hashmap_nexttable (hm_hindex hashmap))"

text \<open>The contents of a map: the nodes of both tables, their probe sequence lengths put aside.\<close>

definition contents :: "'v isc_hashmap \<Rightarrow> 'v hashmap_node set" where
  "contents hashmap = tab_entries (active hashmap) \<union> tab_entries (source hashmap)"

text \<open>The invariant of a map: the handle is valid and \<^verbatim>\<open>hindex\<close> is 0 or 1; the active table
  is well formed; outside a rehash the other table is the zeroed one and \<^verbatim>\<open>hiter\<close> is 0; during
  a rehash the source table is well formed and has at most 31 bits, no key is in both tables,
  the slots of the source table below \<^verbatim>\<open>hiter\<close> are empty, and \<^verbatim>\<open>hiter\<close> is at most the size of
  the source table; \<^verbatim>\<open>count\<close> is the number of nodes of the two tables.\<close>

definition hashmap_inv :: "'v isc_hashmap \<Rightarrow> bool" where
  "hashmap_inv hashmap =
     (ISC_HASHMAP_VALID hashmap \<and> (hm_hindex hashmap = 0 \<or> hm_hindex hashmap = 1) \<and>
      tbl_wf (hm_case_sensitive hashmap) (active hashmap) \<and>
      (case t_table (source hashmap) of
         None \<Rightarrow> source hashmap = zero_table \<and> hm_hiter hashmap = 0
       | Some stbl \<Rightarrow>
           tbl_wf (hm_case_sensitive hashmap) (source hashmap) \<and>
           unat (t_hashbits (source hashmap)) \<le> 31 \<and>
           (\<forall>x\<in>tab_entries (active hashmap). \<forall>y\<in>tab_entries (source hashmap).
              \<not> same_key (hm_case_sensitive hashmap) x y) \<and>
           (\<forall>p. p < hm_hiter hashmap \<longrightarrow> n_key (stbl p) = None) \<and>
           unat (hm_hiter hashmap) \<le> 2 ^ unat (t_hashbits (source hashmap))) \<and>
      unat (hm_count hashmap) = tab_count (active hashmap) + tab_count (source hashmap))"

text \<open>The active table has a free slot for one more node whenever the load threshold does not
  see to it: during a rehash, and at 32 bits.\<close>

definition room_ok :: "'v isc_hashmap \<Rightarrow> bool" where
  "room_ok hashmap =
     (rehashing_in_progress hashmap \<or> unat (t_hashbits (active hashmap)) = 32 \<longrightarrow>
        unat (hm_count hashmap) < 2 ^ unat (t_hashbits (active hashmap)))"

text \<open>What \<^verbatim>\<open>isc_hashmap_add\<close> does to the width of the active table, from the map \<open>hashmap\<close>
  before the call to the map \<open>hashmap'\<close> after it: the width changes only when no rehash is in
  progress and \<^verbatim>\<open>over_threshold\<close> holds, and then to the least greater width whose table is at
  most \<^verbatim>\<open>APPROX_40_PERCENT\<close> full, 32 at most.\<close>

definition grow_rel :: "'v isc_hashmap \<Rightarrow> 'v isc_hashmap \<Rightarrow> bool" where
  "grow_rel hashmap hashmap' =
     (let b = unat (t_hashbits (active hashmap)); b' = unat (t_hashbits (active hashmap'));
          cnt = unat (hm_count hashmap)
      in (rehashing_in_progress hashmap \<longrightarrow> b' = b) \<and>
         (\<not> rehashing_in_progress hashmap \<and> over_threshold hashmap \<noteq> Inr True \<longrightarrow>
            b' = b \<and> \<not> rehashing_in_progress hashmap') \<and>
         (\<not> rehashing_in_progress hashmap \<and> over_threshold hashmap = Inr True \<longrightarrow>
            b < b' \<and> b' \<le> 32 \<and> (b' < 32 \<longrightarrow> cnt \<le> (2 ^ b' * 409) div 1024) \<and>
            (\<forall>j. b < j \<and> j < b' \<longrightarrow> (2 ^ j * 409) div 1024 < cnt)))"

text \<open>What \<^verbatim>\<open>isc_hashmap_delete\<close> does to the width of the active table: the width changes
  only when no rehash is in progress and \<^verbatim>\<open>under_threshold\<close> holds, and then to one less.\<close>

definition shrink_rel :: "'v isc_hashmap \<Rightarrow> 'v isc_hashmap \<Rightarrow> bool" where
  "shrink_rel hashmap hashmap' =
     (let b = unat (t_hashbits (active hashmap)); b' = unat (t_hashbits (active hashmap'))
      in (rehashing_in_progress hashmap \<longrightarrow> b' = b) \<and>
         (\<not> rehashing_in_progress hashmap \<and> under_threshold hashmap \<noteq> Inr True \<longrightarrow>
            b' = b \<and> \<not> rehashing_in_progress hashmap') \<and>
         (\<not> rehashing_in_progress hashmap \<and> under_threshold hashmap = Inr True \<longrightarrow>
            b' = b - 1))"

text \<open>A delete that starts a shrink of a table of 32 bits.\<close>

definition shrinks_32 :: "'v isc_hashmap \<Rightarrow> bool" where
  "shrinks_32 hashmap =
     (\<not> rehashing_in_progress hashmap \<and> unat (t_hashbits (active hashmap)) = 32 \<and>
      under_threshold hashmap = Inr True)"

text \<open>The invariant of the probe sequence lengths, for both tables of a map: the stored length of
  a node at slot \<open>p\<close> with hash value \<open>h\<close> is \<open>(p - (h >> (32 - bits))) AND hashmask\<close>.\<close>

definition table_psl :: "'v hashmap_table \<Rightarrow> bool" where
  "table_psl t =
     (case t_table t of None \<Rightarrow> True | Some tbl \<Rightarrow> psl_ok tbl (t_hashbits t) (t_hashmask t))"

definition psl_inv :: "'v isc_hashmap \<Rightarrow> bool" where
  "psl_inv hashmap = (table_psl (hm_tables hashmap 0) \<and> table_psl (hm_tables hashmap 1))"

text \<open>The hash value that the entry points use for a key.\<close>

definition the_hashval ::
  "(8 word list \<Rightarrow> 8 word list \<Rightarrow> bool \<Rightarrow> 32 word) \<Rightarrow> 'v isc_hashmap \<Rightarrow> 32 word option
     \<Rightarrow> 8 word list \<Rightarrow> 32 word" where
  "the_hashval isc_halfsiphash24 hashmap hashvalp key =
     (case hashvalp of
        Some hashval \<Rightarrow> hashval
      | None \<Rightarrow> isc_halfsiphash24 (hm_hash_key hashmap) key (hm_case_sensitive hashmap))"

text \<open>The number of adds that the active table can still take before a rehash ends: each step
  of a rehash moves one node out of the source table, so the count plus the number of nodes of
  the source table bounds the count at the end of the rehash.\<close>

definition load :: "'v isc_hashmap \<Rightarrow> nat" where
  "load hashmap = unat (hm_count hashmap) + tab_count (source hashmap)"

definition load_step :: "'v isc_hashmap \<Rightarrow> 'v isc_hashmap \<Rightarrow> bool" where
  "load_step hashmap hashmap' =
     (load hashmap' \<le> load hashmap \<and>
      (rehashing_in_progress hashmap' \<longrightarrow> load hashmap' + 1 = load hashmap))"

text \<open>The bound on the count that the thresholds keep: outside a rehash the count is at most
  one above \<^verbatim>\<open>APPROX_90_PERCENT\<close> of the capacity; during a rehash the count plus the nodes still
  to move is at most \<^verbatim>\<open>APPROX_90_PERCENT\<close> of the capacity of the active table. A table of 32
  bits does not grow: its bound is the capacity, less the one slot that stays free.\<close>

definition cap_limit :: "nat \<Rightarrow> nat" where
  "cap_limit b = (if b < 32 then (2 ^ b * 921) div 1024 else 2 ^ 32 - 2)"

definition hashmap_cap :: "'v isc_hashmap \<Rightarrow> bool" where
  "hashmap_cap hashmap =
     (let threshold = cap_limit (unat (t_hashbits (active hashmap)))
      in if rehashing_in_progress hashmap then load hashmap \<le> threshold
         else unat (hm_count hashmap) \<le> threshold + 1)"

definition add_ready :: "'v isc_hashmap \<Rightarrow> bool" where
  "add_ready hashmap =
     (let threshold = cap_limit (unat (t_hashbits (active hashmap)))
      in if rehashing_in_progress hashmap then load hashmap + 1 \<le> threshold
         else unat (hm_count hashmap) \<le> threshold)"

definition hashmap_ok :: "'v isc_hashmap \<Rightarrow> bool" where
  "hashmap_ok hashmap = (hashmap_inv hashmap \<and> hashmap_cap hashmap)"

text \<open>The maps that a sequence of calls builds from a new map: by add, by delete, and by
  \<^verbatim>\<open>isc_hashmap_iter_delcurrent_next\<close> on an iterator whose current slot holds a node. Two
  calls are not followed: an add on a map whose count is \<open>2 ^ 32 - 1\<close> or more, and the delete
  that starts the shrink of a table of 32 bits.\<close>

inductive reachable ::
  "(8 word list \<Rightarrow> 8 word list \<Rightarrow> bool \<Rightarrow> 32 word) \<Rightarrow> 'v isc_hashmap \<Rightarrow> bool"
  for isc_halfsiphash24 where
  reachable_create:
    "isc_hashmap_create entropy bits opts = Inr hashmap \<Longrightarrow> reachable isc_halfsiphash24 hashmap"
| reachable_add:
    "reachable isc_halfsiphash24 hashmap \<Longrightarrow> length key \<le> 65535 \<Longrightarrow>
     unat (hm_count hashmap) < 2 ^ 32 - 1 \<Longrightarrow>
     isc_hashmap_add isc_halfsiphash24 hashmap hashvalp (Some key) val = Some (Inr (r, hashmap')) \<Longrightarrow>
     reachable isc_halfsiphash24 hashmap'"
| reachable_delete:
    "reachable isc_halfsiphash24 hashmap \<Longrightarrow> length key \<le> 65535 \<Longrightarrow>
     \<not> (\<not> rehashing_in_progress hashmap \<and> unat (t_hashbits (active hashmap)) = 32 \<and>
        unat (hm_count hashmap) < (2 ^ 32 * 205) div 1024) \<Longrightarrow>
     isc_hashmap_delete isc_halfsiphash24 hashmap hashvalp (Some key) = Some (Inr (r, hashmap')) \<Longrightarrow>
     reachable isc_halfsiphash24 hashmap'"
| reachable_delcurrent:
    "reachable isc_halfsiphash24 hashmap \<Longrightarrow> it_cur iter \<noteq> None \<Longrightarrow>
     it_hindex iter = hm_hindex hashmap \<or> it_hindex iter = hashmap_nexttable (hm_hindex hashmap) \<Longrightarrow>
     t_table (hm_tables hashmap (it_hindex iter)) = Some tbl \<Longrightarrow>
     it_i iter < t_size (hm_tables hashmap (it_hindex iter)) \<Longrightarrow>
     n_key (tbl (ucast (it_i iter))) \<noteq> None \<Longrightarrow>
     isc_hashmap_iter_delcurrent_next hashmap iter = Some (Inr (r, hashmap', iter')) \<Longrightarrow>
     reachable isc_halfsiphash24 hashmap'"

subsection \<open>Example maps\<close>

text \<open>
  Maps and nodes on which the code is run further down. The keyed hash \<open>H0\<close> is constant; the
  runs pass the hash value of each key to the entry points. \<open>hmap1\<close>, \<open>hmap2\<close> and \<open>hmap3\<close>
  are the maps of one table of 1, 2 and 3 bits with a given count and array of nodes, as
  \<^verbatim>\<open>isc_hashmap_create\<close> and \<^verbatim>\<open>isc_hashmap_add\<close> build them; \<open>map32_empty\<close> and \<open>map32_one\<close>
  are the map created with 32 bits, and that map after one add. \<open>map_growing\<close> is a map in the
  middle of a grow from 1 to 3 bits, \<open>map32_shrinking\<close> the map of 32 bits after the start of a
  shrink, \<open>map31_lost\<close> and \<open>map_shrunk\<close> maps after a shrink.
\<close>

definition H0 :: "8 word list \<Rightarrow> 8 word list \<Rightarrow> bool \<Rightarrow> 32 word" where
  "H0 hk key cs = 0"

definition node1 :: "nat hashmap_node" where
  "node1 = \<lparr>n_key = Some [1], n_value = Some 5, n_hashval = 0, n_psl = 0, n_keysize = 1\<rparr>"

definition map32_empty :: "nat isc_hashmap" where
  "map32_empty =
     \<lparr>hm_magic = ISC_HASHMAP_MAGIC, hm_case_sensitive = True, hm_hindex = 0, hm_hiter = 0,
      hm_count = 0, hm_hash_key = [],
      hm_tables = (\<lambda>_. zero_table)(0 :=
        \<lparr>t_size = HASHSIZE 32, t_hashbits = 32, t_hashmask = 0xFFFFFFFF,
         t_table = Some (\<lambda>_. zero_node)\<rparr>)\<rparr>"

definition map32_one :: "nat isc_hashmap" where
  "map32_one =
     \<lparr>hm_magic = ISC_HASHMAP_MAGIC, hm_case_sensitive = True, hm_hindex = 0, hm_hiter = 0,
      hm_count = 1, hm_hash_key = [],
      hm_tables = (\<lambda>_. zero_table)(0 :=
        \<lparr>t_size = HASHSIZE 32, t_hashbits = 32, t_hashmask = 0xFFFFFFFF,
         t_table = Some ((\<lambda>_. zero_node)(0 := node1))\<rparr>)\<rparr>"

definition map32_shrinking :: "nat isc_hashmap" where
  "map32_shrinking =
     \<lparr>hm_magic = ISC_HASHMAP_MAGIC, hm_case_sensitive = True, hm_hindex = 1, hm_hiter = 0,
      hm_count = 1, hm_hash_key = [],
      hm_tables = (\<lambda>_. zero_table)(0 :=
        \<lparr>t_size = HASHSIZE 32, t_hashbits = 32, t_hashmask = 0xFFFFFFFF,
         t_table = Some ((\<lambda>_. zero_node)(0 := node1))\<rparr>,
        1 := \<lparr>t_size = HASHSIZE 31, t_hashbits = 31, t_hashmask = 0x7FFFFFFF,
         t_table = Some (\<lambda>_. zero_node)\<rparr>)\<rparr>"

definition map31_lost :: "nat isc_hashmap" where
  "map31_lost =
     \<lparr>hm_magic = ISC_HASHMAP_MAGIC, hm_case_sensitive = True, hm_hindex = 1, hm_hiter = 0,
      hm_count = 1, hm_hash_key = [],
      hm_tables = (\<lambda>_. zero_table)(1 :=
        \<lparr>t_size = HASHSIZE 31, t_hashbits = 31, t_hashmask = 0x7FFFFFFF,
         t_table = Some (\<lambda>_. zero_node)\<rparr>)\<rparr>"

definition nodeA :: "nat hashmap_node" where
  "nodeA = \<lparr>n_key = Some [1], n_value = Some 10, n_hashval = 0, n_psl = 0, n_keysize = 1\<rparr>"
definition nodeB :: "nat hashmap_node" where
  "nodeB = \<lparr>n_key = Some [2], n_value = Some 20, n_hashval = 1, n_psl = 1, n_keysize = 1\<rparr>"
definition nodeC :: "nat hashmap_node" where
  "nodeC = \<lparr>n_key = Some [3], n_value = Some 30, n_hashval = 0xC0000000, n_psl = 0, n_keysize = 1\<rparr>"
definition nodeY :: "nat hashmap_node" where
  "nodeY = \<lparr>n_key = Some [4], n_value = Some 40, n_hashval = 0x80000000, n_psl = 0, n_keysize = 1\<rparr>"
definition nodeZ :: "nat hashmap_node" where
  "nodeZ = \<lparr>n_key = Some [5], n_value = Some 50, n_hashval = 0xA0000000, n_psl = 0, n_keysize = 1\<rparr>"

definition hmap1 :: "64 word \<Rightarrow> (32 word \<Rightarrow> nat hashmap_node) \<Rightarrow> nat isc_hashmap" where
  "hmap1 cnt tbl =
     \<lparr>hm_magic = ISC_HASHMAP_MAGIC, hm_case_sensitive = True, hm_hindex = 0, hm_hiter = 0,
      hm_count = cnt, hm_hash_key = [],
      hm_tables = (\<lambda>_. zero_table)(0 :=
        \<lparr>t_size = 2, t_hashbits = 1, t_hashmask = 1, t_table = Some tbl\<rparr>)\<rparr>"

definition hmap2 :: "64 word \<Rightarrow> (32 word \<Rightarrow> nat hashmap_node) \<Rightarrow> nat isc_hashmap" where
  "hmap2 cnt tbl =
     \<lparr>hm_magic = ISC_HASHMAP_MAGIC, hm_case_sensitive = True, hm_hindex = 0, hm_hiter = 0,
      hm_count = cnt, hm_hash_key = [],
      hm_tables = (\<lambda>_. zero_table)(0 :=
        \<lparr>t_size = 4, t_hashbits = 2, t_hashmask = 3, t_table = Some tbl\<rparr>)\<rparr>"

definition hmap3 :: "64 word \<Rightarrow> (32 word \<Rightarrow> nat hashmap_node) \<Rightarrow> nat isc_hashmap" where
  "hmap3 cnt tbl =
     \<lparr>hm_magic = ISC_HASHMAP_MAGIC, hm_case_sensitive = True, hm_hindex = 0, hm_hiter = 0,
      hm_count = cnt, hm_hash_key = [],
      hm_tables = (\<lambda>_. zero_table)(0 :=
        \<lparr>t_size = 8, t_hashbits = 3, t_hashmask = 7, t_table = Some tbl\<rparr>)\<rparr>"

definition map_growing :: "nat isc_hashmap" where
  "map_growing =
     \<lparr>hm_magic = ISC_HASHMAP_MAGIC, hm_case_sensitive = True, hm_hindex = 1, hm_hiter = 0,
      hm_count = 3, hm_hash_key = [],
      hm_tables = (\<lambda>_. zero_table)(0 :=
        \<lparr>t_size = 2, t_hashbits = 1, t_hashmask = 1,
         t_table = Some ((\<lambda>_. zero_node)(1 := nodeY))\<rparr>,
        1 := \<lparr>t_size = 8, t_hashbits = 3, t_hashmask = 7,
         t_table = Some ((\<lambda>_. zero_node)(0 := nodeA, 5 := nodeZ))\<rparr>)\<rparr>"

definition tblABC :: "32 word \<Rightarrow> nat hashmap_node" where
  "tblABC = (\<lambda>_. zero_node)(0 := nodeA, 1 := nodeB, 3 := nodeC)"

definition tbl_stale :: "32 word \<Rightarrow> nat hashmap_node" where
  "tbl_stale = (\<lambda>_. zero_node)(0 := nodeA, 3 := nodeB\<lparr>n_psl := 0\<rparr>)"

definition map_shrunk :: "nat isc_hashmap" where
  "map_shrunk =
     \<lparr>hm_magic = ISC_HASHMAP_MAGIC, hm_case_sensitive = True, hm_hindex = 1, hm_hiter = 0,
      hm_count = 0, hm_hash_key = [],
      hm_tables = (\<lambda>_. zero_table)(1 :=
        \<lparr>t_size = 4, t_hashbits = 2, t_hashmask = 3, t_table = Some (\<lambda>_. zero_node)\<rparr>)\<rparr>"

lemma length_alpn_record [simp]: "length (alpn_record p) = Suc (length p)"
  by (simp add: alpn_record_def)

lemma alpn_wire_simps [simp]:
  "alpn_wire [] = []"
  "alpn_wire (p # ps) = alpn_record p @ alpn_wire ps"
  "alpn_wire (ps @ qs) = alpn_wire ps @ alpn_wire qs"
  by (simp_all add: alpn_wire_def)

lemma alpn_record_le_wire: "q \<in> set ps \<Longrightarrow> length (alpn_record q) \<le> length (alpn_wire ps)"
  by (induction ps) auto

lemma alpn_record_prefix_iff:
  assumes "length p \<le> 255" "length q \<le> 255"
  shows "take (length (alpn_record q)) (alpn_record p @ rest) = alpn_record q \<longleftrightarrow> p = q"
proof
  assume h: "take (length (alpn_record q)) (alpn_record p @ rest) = alpn_record q"
  then have "(of_nat (length p) :: 8 word) = of_nat (length q)"
    by (simp add: alpn_record_def)
  then have "unat (of_nat (length p) :: 8 word) = unat (of_nat (length q) :: 8 word)" by simp
  with assms have len: "length p = length q"
    by (simp add: unat_of_nat)
  with h show "p = q" by (simp add: alpn_record_def)
next
  assume "p = q" then show "take (length (alpn_record q)) (alpn_record p @ rest) = alpn_record q"
    by simp
qed

lemma protoneg_from_wire:
  assumes "\<forall>p \<in> set ps. length p \<le> 255" and "length q \<le> 255"
  shows "protoneg_check_protocol_from (alpn_wire pre @ alpn_wire ps) (alpn_record q) (length (alpn_wire pre)) =
     (if q \<in> set ps
      then Inr (Some (length (alpn_wire (pre @ takeWhile (\<lambda>p. p \<noteq> q) ps)) + 1, of_nat (length q)))
      else Inr None)"
  using assms(1)
proof (induction ps arbitrary: pre)
  case Nil
  show ?case by (subst protoneg_check_protocol_from.simps) simp
next
  case (Cons p ps)
  have lp: "length p \<le> 255" and rest: "\<forall>p \<in> set ps. length p \<le> 255" using Cons.prems by auto
  let ?inp = "alpn_wire pre @ alpn_wire (p # ps)"
  let ?i = "length (alpn_wire pre)"
  show ?case
  proof (cases "?i + length (alpn_record q) \<le> length ?inp")
    case False
    then have "q \<notin> set (p # ps)" using alpn_record_le_wire[of q "p # ps"] by auto
    with False show ?thesis by (subst protoneg_check_protocol_from.simps) simp
  next
    case True
    have m: "memcmp_eq ?inp ?i (alpn_record q) \<longleftrightarrow> p = q"
      using alpn_record_prefix_iff[OF lp assms(2), of "alpn_wire ps"]
      by (simp add: memcmp_eq_def)
    have at: "?inp ! ?i = of_nat (length p)"
      by (simp add: nth_append alpn_record_def)
    show ?thesis
    proof (cases "p = q")
      case True
      with m \<open>?i + length (alpn_record q) \<le> length ?inp\<close> at show ?thesis
        by (subst protoneg_check_protocol_from.simps) simp
    next
      case False
      have step: "?i + (unat (?inp ! ?i) + 1) = length (alpn_wire (pre @ [p]))"
        using lp at by (simp add: unat_of_nat)
      have "protoneg_check_protocol_from ?inp (alpn_record q) ?i =
            protoneg_check_protocol_from ?inp (alpn_record q) (length (alpn_wire (pre @ [p])))"
        using m False True step by (subst protoneg_check_protocol_from.simps) simp
      also have "?inp = alpn_wire (pre @ [p]) @ alpn_wire ps" by simp
      also have "protoneg_check_protocol_from (alpn_wire (pre @ [p]) @ alpn_wire ps) (alpn_record q)
            (length (alpn_wire (pre @ [p]))) =
         (if q \<in> set ps
          then Inr (Some (length (alpn_wire ((pre @ [p]) @ takeWhile (\<lambda>p. p \<noteq> q) ps)) + 1, of_nat (length q)))
          else Inr None)"
        by (rule Cons.IH[OF rest])
      finally show ?thesis using False by simp
    qed
  qed
qed

text \<open>
  C7. On the wire form of a list of protocol names, each at most 255 bytes long, the scan for
  a length-prefixed needle returns the offset of the payload of the first record equal to the
  needle, and the length byte of that record, if the needle is a record of the list; it
  returns false if it is not. The scan moves from record to record by \<^verbatim>\<open>1 + in[i]\<close>.
\<close>

theorem protoneg_check_protocol_wire:
  assumes "\<forall>p \<in> set ps. length p \<le> 255" and "length q \<le> 255"
  shows "protoneg_check_protocol (alpn_wire ps) (alpn_record q) =
     (if q \<in> set ps
      then Inr (Some (length (alpn_wire (takeWhile (\<lambda>p. p \<noteq> q) ps)) + 1, of_nat (length q)))
      else Inr None)"
  using protoneg_from_wire[OF assms, of "[]"] by (simp add: protoneg_check_protocol_def)

lemma alpn_payload_at_offset:
  assumes "q \<in> set ps"
  shows "take (length q) (drop (length (alpn_wire (takeWhile (\<lambda>p. p \<noteq> q) ps)) + 1) (alpn_wire ps)) = q"
proof -
  from assms obtain ys zs where "ps = ys @ q # zs" "q \<notin> set ys" by (auto dest: split_list_first)
  then have "takeWhile (\<lambda>p. p \<noteq> q) ps = ys" by (induction ys arbitrary: ps) auto
  with \<open>ps = ys @ q # zs\<close> show ?thesis by (simp add: alpn_record_def)
qed

theorem protoneg_check_protocol_wire_witness:
  "length [0x64, 0x6f, 0x74 :: 8 word] \<le> 255 \<and>
   dot_select_next_protocol (alpn_wire [[0x68, 0x32], [0x64, 0x6f, 0x74]]) = Inr (Some (4, 3))"
  using protoneg_check_protocol_wire[of "[[0x68, 0x32], [0x64, 0x6f, 0x74]]" "[0x64, 0x6f, 0x74]"]
  by (simp add: dot_select_next_protocol_def DOT_PROTO_ALPN_def alpn_record_def)

lemma disable_bit_simps:
  "disable_bit b ISC_TLS_PROTO_VER_1_2 = (case SSL_OP_NO_TLSv1_2 b of Some x \<Rightarrow> x | None \<Rightarrow> 0)"
  "disable_bit b ISC_TLS_PROTO_VER_1_3 = (case SSL_OP_NO_TLSv1_3 b of Some x \<Rightarrow> x | None \<Rightarrow> 0)"
  by (simp_all add: disable_bit_def get_tls_version_disable_bit_def
      ISC_TLS_PROTO_VER_1_2_def ISC_TLS_PROTO_VER_1_3_def)

lemma get_tls_version_disable_bit_known:
  assumes "v = ISC_TLS_PROTO_VER_1_2 \<or> v = ISC_TLS_PROTO_VER_1_3"
  shows "get_tls_version_disable_bit b v = Inr (disable_bit b v)"
  using assms by (auto simp: disable_bit_def get_tls_version_disable_bit_def)

lemma set_protocols_loop_step:
  assumes v: "v = ISC_TLS_PROTO_VER_1_2 \<or> v = ISC_TLS_PROTO_VER_1_3" and v': "v' = push_bit 1 v"
  shows "isc_tlsctx_set_protocols_loop b tv v s c vs =
     (if version_selected tv v \<and> disable_bit b v = 0 then Some (Inl INSIST_failed)
      else isc_tlsctx_set_protocols_loop b tv v'
             (if version_selected tv v then s else s OR disable_bit b v)
             (if version_selected tv v then c OR disable_bit b v else c)
             (vs AND NOT v))"
proof -
  have lt: "v < ISC_TLS_PROTO_VER_UNDEFINED"
    using v by (auto simp: ISC_TLS_PROTO_VER_1_2_def ISC_TLS_PROTO_VER_1_3_def
        ISC_TLS_PROTO_VER_UNDEFINED_def)
  show ?thesis
    by (subst isc_tlsctx_set_protocols_loop.simps)
       (simp add: lt get_tls_version_disable_bit_known[OF v] isc_tls_protocol_supported_def
          version_selected_def v')
qed

lemma set_protocols_loop_exit:
  "isc_tlsctx_set_protocols_loop b tv 4 s c vs = Some (Inr (s, c, vs))"
  by (subst isc_tlsctx_set_protocols_loop.simps) (simp add: ISC_TLS_PROTO_VER_UNDEFINED_def)

lemma set_protocols_loop_result:
  "isc_tlsctx_set_protocols_loop b tv ISC_TLS_PROTO_VER_1_2 0 0 vs =
     (if \<exists>v \<in> {ISC_TLS_PROTO_VER_1_2, ISC_TLS_PROTO_VER_1_3}.
           version_selected tv v \<and> disable_bit b v = 0
      then Some (Inl INSIST_failed)
      else Some (Inr
        ((if version_selected tv ISC_TLS_PROTO_VER_1_2 then 0 else disable_bit b ISC_TLS_PROTO_VER_1_2) OR
         (if version_selected tv ISC_TLS_PROTO_VER_1_3 then 0 else disable_bit b ISC_TLS_PROTO_VER_1_3),
         (if version_selected tv ISC_TLS_PROTO_VER_1_2 then disable_bit b ISC_TLS_PROTO_VER_1_2 else 0) OR
         (if version_selected tv ISC_TLS_PROTO_VER_1_3 then disable_bit b ISC_TLS_PROTO_VER_1_3 else 0),
         vs AND NOT ISC_TLS_PROTO_VER_1_2 AND NOT ISC_TLS_PROTO_VER_1_3)))"
proof -
  have s1: "ISC_TLS_PROTO_VER_1_3 = push_bit 1 ISC_TLS_PROTO_VER_1_2"
    by (simp add: ISC_TLS_PROTO_VER_1_2_def ISC_TLS_PROTO_VER_1_3_def)
  have s2: "4 = push_bit 1 ISC_TLS_PROTO_VER_1_3"
    by (simp add: ISC_TLS_PROTO_VER_1_3_def)
  show ?thesis
    by (simp add: set_protocols_loop_step[OF _ s1] set_protocols_loop_step[OF _ s2]
        set_protocols_loop_exit and.assoc)
qed

lemma mask_over_known_versions:
  fixes tv :: "32 word"
  assumes "tv AND NOT (ISC_TLS_PROTO_VER_1_2 OR ISC_TLS_PROTO_VER_1_3) = 0"
  shows "tv AND NOT ISC_TLS_PROTO_VER_1_2 AND NOT ISC_TLS_PROTO_VER_1_3 = 0"
  using assms by (simp add: and.assoc flip: bit.de_Morgan_disj)

text \<open>
  C8. For every context and every non-zero mask over the versions 1.2 and 1.3,
  \<^verbatim>\<open>isc_tlsctx_set_protocols\<close> puts the provider's \<^verbatim>\<open>SSL_OP_NO_TLSv1_2\<close> into the options to
  set when 1.2 is absent from the mask and into the options to clear when it is present, and
  likewise \<^verbatim>\<open>SSL_OP_NO_TLSv1_3\<close> for 1.3, and applies both to the context. A selected version
  whose disable bit the build does not have (the macro is undefined, or is zero) fails the
  \<^verbatim>\<open>INSIST\<close>, and the zero mask fails the \<^verbatim>\<open>REQUIRE\<close>.
\<close>

theorem isc_tlsctx_set_protocols_mask:
  assumes "tls_versions \<noteq> 0"
    and "tls_versions AND NOT (ISC_TLS_PROTO_VER_1_2 OR ISC_TLS_PROTO_VER_1_3) = 0"
  shows "isc_tlsctx_set_protocols b (Some ctx) tls_versions =
     (let no_tls1_2 = (case SSL_OP_NO_TLSv1_2 b of Some x \<Rightarrow> x | None \<Rightarrow> 0);
          no_tls1_3 = (case SSL_OP_NO_TLSv1_3 b of Some x \<Rightarrow> x | None \<Rightarrow> 0);
          sel1_2 = (tls_versions AND ISC_TLS_PROTO_VER_1_2 \<noteq> 0);
          sel1_3 = (tls_versions AND ISC_TLS_PROTO_VER_1_3 \<noteq> 0)
      in if (sel1_2 \<and> no_tls1_2 = 0) \<or> (sel1_3 \<and> no_tls1_3 = 0)
         then Some (Inl INSIST_failed)
         else
           (let set_options = (if sel1_2 then 0 else no_tls1_2) OR (if sel1_3 then 0 else no_tls1_3);
                clear_options = (if sel1_2 then no_tls1_2 else 0) OR (if sel1_3 then no_tls1_3 else 0)
            in Some (Inr (ctx\<lparr>options := (options ctx OR set_options) AND NOT clear_options\<rparr>,
                          set_options, clear_options))))
     \<and> isc_tlsctx_set_protocols b (Some ctx) 0 = Some (Inl REQUIRE_failed)"
  using assms(1) mask_over_known_versions[OF assms(2)]
  by (simp add: isc_tlsctx_set_protocols_def set_protocols_loop_result Let_def disable_bit_simps
      version_selected_def SSL_CTX_set_options_def SSL_CTX_clear_options_def
      del: bit.conj_disj_distribs)

theorem isc_tlsctx_set_protocols_mask_witness:
  "isc_tlsctx_set_protocols \<lparr>SSL_OP_NO_TLSv1_2 = Some 0x08000000, SSL_OP_NO_TLSv1_3 = Some 0x20000000\<rparr>
       (Some \<lparr>options = 0x20000000\<rparr>) ISC_TLS_PROTO_VER_1_3
     = Some (Inr (\<lparr>options = 0x08000000\<rparr>, 0x08000000, 0x20000000)) \<and>
   isc_tlsctx_set_protocols \<lparr>SSL_OP_NO_TLSv1_2 = Some 0x08000000, SSL_OP_NO_TLSv1_3 = Some 0x20000000\<rparr>
       (Some \<lparr>options = 0x20000004\<rparr>) ISC_TLS_PROTO_VER_1_2
     = Some (Inr (\<lparr>options = 0x20000004\<rparr>, 0x20000000, 0x08000000)) \<and>
   isc_tlsctx_set_protocols \<lparr>SSL_OP_NO_TLSv1_2 = Some 0x08000000, SSL_OP_NO_TLSv1_3 = None\<rparr>
       (Some \<lparr>options = 0\<rparr>) (ISC_TLS_PROTO_VER_1_2 OR ISC_TLS_PROTO_VER_1_3)
     = Some (Inl INSIST_failed)"
  using isc_tlsctx_set_protocols_mask[of ISC_TLS_PROTO_VER_1_3
      "\<lparr>SSL_OP_NO_TLSv1_2 = Some 0x08000000, SSL_OP_NO_TLSv1_3 = Some 0x20000000\<rparr>"
      "\<lparr>options = 0x20000000\<rparr>"]
    isc_tlsctx_set_protocols_mask[of ISC_TLS_PROTO_VER_1_2
      "\<lparr>SSL_OP_NO_TLSv1_2 = Some 0x08000000, SSL_OP_NO_TLSv1_3 = Some 0x20000000\<rparr>"
      "\<lparr>options = 0x20000004\<rparr>"]
    isc_tlsctx_set_protocols_mask[of "ISC_TLS_PROTO_VER_1_2 OR ISC_TLS_PROTO_VER_1_3"
      "\<lparr>SSL_OP_NO_TLSv1_2 = Some 0x08000000, SSL_OP_NO_TLSv1_3 = None\<rparr>"
      "\<lparr>options = 0\<rparr>"]
  by (simp add: ISC_TLS_PROTO_VER_1_2_def ISC_TLS_PROTO_VER_1_3_def)

lemma AF_INET_neq_AF_INET6: "AF_INET \<noteq> AF_INET6"
  by (simp add: AF_INET_def AF_INET6_def)

lemma cache_add_occupied:
  assumes "cache_args_ok cache nm tr fam" "cache_slot cache nm tr fam = Some c0"
  shows "isc_tlsctx_cache_add cache (Some nm) tr fam (Some c) None = Inr (ISC_R_EXISTS, cache, None)"
    and "isc_tlsctx_cache_add cache (Some nm) tr fam (Some c) (Some None) =
           Inr (ISC_R_EXISTS, cache, Some (Some c0))"
  using assms AF_INET_neq_AF_INET6
  by (auto simp: cache_args_ok_def cache_slot_def isc_tlsctx_cache_add_def isc_ht_find_def Let_def
      split: option.splits)

lemma cache_add_vacant:
  assumes "cache_args_ok cache nm tr fam" "cache_slot cache nm tr fam = None"
  shows "\<exists>cache'. isc_tlsctx_cache_add cache (Some nm) tr fam (Some c) pfound =
             Inr (ISC_R_SUCCESS, cache', pfound) \<and>
           cache_args_ok cache' nm tr fam \<and>
           cache_slot cache' nm tr fam = Some c \<and>
           data cache' nm = Some
             ((case data cache nm of None \<Rightarrow> (\<lambda>_ _. None) | Some e \<Rightarrow> e)
                (tr - 1 := ((case data cache nm of None \<Rightarrow> (\<lambda>_ _. None) | Some e \<Rightarrow> e) (tr - 1))
                   ((if fam = AF_INET6 then 1 else 0) := Some c)))"
  using assms AF_INET_neq_AF_INET6
  by (auto simp: cache_args_ok_def cache_slot_def isc_tlsctx_cache_add_def isc_ht_find_def
      isc_ht_add_def Let_def VALID_TLSCTX_CACHE_def split: option.splits)

lemma cache_find_slot:
  assumes "cache_args_ok cache nm tr fam"
  shows "isc_tlsctx_cache_find cache (Some nm) tr fam (Some None) =
     (case cache_slot cache nm tr fam of
        None \<Rightarrow> Inr (ISC_R_NOTFOUND, None)
      | Some c \<Rightarrow> Inr (ISC_R_SUCCESS, Some c))"
  using assms AF_INET_neq_AF_INET6
  by (auto simp: cache_args_ok_def cache_slot_def isc_tlsctx_cache_find_def isc_ht_find_def Let_def
      split: option.splits)

lemma cache_name_too_long:
  assumes "VALID_TLSCTX_CACHE cache" "65535 < length nm"
    "isc_tlsctx_cache_none < tr" "tr < isc_tlsctx_cache_count" "fam = AF_INET \<or> fam = AF_INET6"
  shows "isc_tlsctx_cache_add cache (Some nm) tr fam (Some c) pfound = Inl REQUIRE_failed"
    and "isc_tlsctx_cache_find cache (Some nm) tr fam (Some None) = Inl REQUIRE_failed"
  using assms
  by (auto simp: isc_tlsctx_cache_add_def isc_tlsctx_cache_find_def isc_ht_find_def Let_def)

text \<open>
  C6. For a valid cache, a name of 1 to 65535 bytes (the key bound of the map), a transport
  and a family: when the slot of the name's entry is occupied, add returns EXISTS, leaves the
  cache as it is and writes the context found through \<^verbatim>\<open>pfound\<close> (when given); find
  returns that context. When the slot is empty, whether the name has an entry or not, add returns SUCCESS, leaves \<^verbatim>\<open>pfound\<close>
  as it is and installs the context in the entry of the name (a zeroed entry when the name
  had none); find then returns the installed context, and find before the add returns
  NOTFOUND.
\<close>

theorem isc_tlsctx_cache_add_find:
  assumes ok: "cache_args_ok cache nm tr fam"
  shows "(case cache_slot cache nm tr fam of
            Some c0 \<Rightarrow>
              isc_tlsctx_cache_add cache (Some nm) tr fam (Some c) (Some None) =
                Inr (ISC_R_EXISTS, cache, Some (Some c0)) \<and>
              isc_tlsctx_cache_add cache (Some nm) tr fam (Some c) None =
                Inr (ISC_R_EXISTS, cache, None) \<and>
              isc_tlsctx_cache_find cache (Some nm) tr fam (Some None) = Inr (ISC_R_SUCCESS, Some c0)
          | None \<Rightarrow>
              (\<exists>cache'.
                 isc_tlsctx_cache_add cache (Some nm) tr fam (Some c) pfound =
                   Inr (ISC_R_SUCCESS, cache', pfound) \<and>
                 data cache' nm = Some
                   ((case data cache nm of None \<Rightarrow> (\<lambda>_ _. None) | Some e \<Rightarrow> e)
                      (tr - 1 := ((case data cache nm of None \<Rightarrow> (\<lambda>_ _. None) | Some e \<Rightarrow> e) (tr - 1))
                         ((if fam = AF_INET6 then 1 else 0) := Some c))) \<and>
                 isc_tlsctx_cache_find cache' (Some nm) tr fam (Some None) =
                   Inr (ISC_R_SUCCESS, Some c)) \<and>
              isc_tlsctx_cache_find cache (Some nm) tr fam (Some None) = Inr (ISC_R_NOTFOUND, None))"
proof (cases "cache_slot cache nm tr fam")
  case None
  from cache_add_vacant[OF ok None, of c pfound] obtain cache' where
    a: "isc_tlsctx_cache_add cache (Some nm) tr fam (Some c) pfound =
             Inr (ISC_R_SUCCESS, cache', pfound)"
    and ok': "cache_args_ok cache' nm tr fam"
    and sl: "cache_slot cache' nm tr fam = Some c"
    and d: "data cache' nm = Some
             ((case data cache nm of None \<Rightarrow> (\<lambda>_ _. None) | Some e \<Rightarrow> e)
                (tr - 1 := ((case data cache nm of None \<Rightarrow> (\<lambda>_ _. None) | Some e \<Rightarrow> e) (tr - 1))
                   ((if fam = AF_INET6 then 1 else 0) := Some c)))"
    by blast
  have f': "isc_tlsctx_cache_find cache' (Some nm) tr fam (Some None) = Inr (ISC_R_SUCCESS, Some c)"
    using cache_find_slot[OF ok'] sl by simp
  have f: "isc_tlsctx_cache_find cache (Some nm) tr fam (Some None) = Inr (ISC_R_NOTFOUND, None)"
    using cache_find_slot[OF ok] None by simp
  show ?thesis using None a d f f' by auto
next
  case (Some c0)
  then show ?thesis
    using cache_add_occupied[OF ok Some, of c] cache_find_slot[OF ok] by simp
qed

theorem isc_tlsctx_cache_add_find_witness:
  "cache_args_ok (isc_tlsctx_cache_new :: nat isc_tlsctx_cache) ''ns1'' 1 AF_INET \<and>
   isc_tlsctx_cache_find (isc_tlsctx_cache_new :: nat isc_tlsctx_cache) (Some ''ns1'') 1 AF_INET (Some None) =
     Inr (ISC_R_NOTFOUND, None) \<and>
   isc_tlsctx_cache_add isc_tlsctx_cache_new (Some ''ns1'') 1 AF_INET (Some 7) (Some None) =
     Inr (ISC_R_SUCCESS, cache_ns1, Some None) \<and>
   cache_args_ok cache_ns1 ''ns1'' 1 AF_INET \<and>
   isc_tlsctx_cache_find cache_ns1 (Some ''ns1'') 1 AF_INET (Some None) = Inr (ISC_R_SUCCESS, Some 7) \<and>
   isc_tlsctx_cache_add cache_ns1 (Some ''ns1'') 1 AF_INET (Some 9) (Some None) =
     Inr (ISC_R_EXISTS, cache_ns1, Some (Some 7)) \<and>
   isc_tlsctx_cache_add cache_ns1 (Some ''ns1'') 1 AF_INET (Some 9) None =
     Inr (ISC_R_EXISTS, cache_ns1, None) \<and>
   cache_args_ok cache_ns1 ''ns1'' 1 AF_INET6 \<and>
   isc_tlsctx_cache_find cache_ns1 (Some ''ns1'') 1 AF_INET6 (Some None) = Inr (ISC_R_NOTFOUND, None) \<and>
   isc_tlsctx_cache_add cache_ns1 (Some ''ns1'') 1 AF_INET6 (Some 8) (Some None) =
     Inr (ISC_R_SUCCESS, cache_ns1_v6, Some None) \<and>
   isc_tlsctx_cache_find cache_ns1_v6 (Some ''ns1'') 1 AF_INET6 (Some None) = Inr (ISC_R_SUCCESS, Some 8) \<and>
   isc_tlsctx_cache_find cache_ns1_v6 (Some ''ns1'') 1 AF_INET (Some None) = Inr (ISC_R_SUCCESS, Some 7)"
proof -
  let ?new = "isc_tlsctx_cache_new :: nat isc_tlsctx_cache"
  have ok0: "cache_args_ok ?new ''ns1'' 1 AF_INET"
    by (simp add: cache_args_ok_def isc_tlsctx_cache_new_def VALID_TLSCTX_CACHE_def
        isc_tlsctx_cache_none_def isc_tlsctx_cache_count_def)
  have slot0: "cache_slot ?new ''ns1'' 1 AF_INET = None"
    by (simp add: cache_slot_def isc_tlsctx_cache_new_def)
  have ok1: "cache_args_ok cache_ns1 ''ns1'' 1 AF_INET" "cache_args_ok cache_ns1 ''ns1'' 1 AF_INET6"
    by (simp_all add: cache_args_ok_def cache_ns1_def VALID_TLSCTX_CACHE_def
        isc_tlsctx_cache_none_def isc_tlsctx_cache_count_def)
  have slot1: "cache_slot cache_ns1 ''ns1'' 1 AF_INET = Some 7"
    "cache_slot cache_ns1 ''ns1'' 1 AF_INET6 = None"
    using AF_INET_neq_AF_INET6 by (simp_all add: cache_slot_def cache_ns1_def)
  have ok2: "cache_args_ok cache_ns1_v6 ''ns1'' 1 AF_INET"
    by (simp add: cache_args_ok_def cache_ns1_v6_def VALID_TLSCTX_CACHE_def
        isc_tlsctx_cache_none_def isc_tlsctx_cache_count_def)
  have slot2: "cache_slot cache_ns1_v6 ''ns1'' 1 AF_INET = Some 7"
    using AF_INET_neq_AF_INET6 by (simp add: cache_slot_def cache_ns1_v6_def)
  have a0: "isc_tlsctx_cache_add ?new (Some ''ns1'') 1 AF_INET (Some 7) (Some None) =
      Inr (ISC_R_SUCCESS, cache_ns1, Some None)"
    using AF_INET_neq_AF_INET6
    by (simp add: isc_tlsctx_cache_add_def isc_tlsctx_cache_new_def cache_ns1_def
        VALID_TLSCTX_CACHE_def isc_tlsctx_cache_none_def isc_tlsctx_cache_count_def
        isc_ht_find_def isc_ht_add_def AF_INET_def)
  have a1: "isc_tlsctx_cache_add cache_ns1 (Some ''ns1'') 1 AF_INET6 (Some 8) (Some None) =
      Inr (ISC_R_SUCCESS, cache_ns1_v6, Some None)"
    by (simp add: isc_tlsctx_cache_add_def cache_ns1_v6_def cache_ns1_def
        VALID_TLSCTX_CACHE_def isc_tlsctx_cache_none_def isc_tlsctx_cache_count_def
        isc_ht_find_def isc_ht_add_def AF_INET6_def fun_upd_twist)
  show ?thesis
    using isc_tlsctx_cache_add_find[OF ok0, where c = 7 and pfound = "Some None"]
      isc_tlsctx_cache_add_find[OF ok1(1), where c = 9 and pfound = None]
      isc_tlsctx_cache_add_find[OF ok1(2), where c = 8 and pfound = "Some None"]
      isc_tlsctx_cache_add_find[OF ok2, where c = 9 and pfound = None]
      ok0 slot0 ok1 slot1 ok2 slot2 a0 a1
    by simp
qed

section \<open>Hash map: proofs\<close>

subsection \<open>Words and masks\<close>

lemma le_mask_and:
  fixes p :: "'a::len word"
  assumes "p \<le> mask b"
  shows "p AND mask b = p"
proof -
  from assms have "uint p \<le> uint (mask b :: 'a word)" by (simp add: word_le_def)
  also have "\<dots> = mask (min LENGTH('a) b)" by (rule uint_mask_eq)
  also have "\<dots> = 2 ^ (min LENGTH('a) b) - 1" by (rule mask_eq_exp_minus_1)
  finally have "uint p \<le> 2 ^ (min LENGTH('a) b) - 1" .
  moreover have "(2::int) ^ min LENGTH('a) b \<le> 2 ^ b" by (intro power_increasing) simp_all
  ultimately have "uint p < 2 ^ b" by linarith
  then show ?thesis by (simp add: mask_eq_iff)
qed

lemma and_mask_1:
  "0 < b \<Longrightarrow> (1 :: 'a::len word) AND mask b = 1"
  by (simp add: and_mask_bintr)

lemma succ_mask_neq:
  fixes p :: "'a::len word"
  assumes "0 < b"
  shows "(p + 1) AND mask b \<noteq> p AND mask b"
proof
  assume "(p + 1) AND mask b = p AND mask b"
  then have "((p + 1) AND mask b) - p AND mask b = (p AND mask b) - p AND mask b" by simp
  then have "(p + 1 - p) AND mask b = (p - p) AND mask b" by (simp only: mask_eqs)
  then show False using and_mask_1[OF assms, where 'a='a] by simp
qed

lemma dec_le:
  fixes y :: "'a::len word"
  assumes "y \<noteq> 0"
  shows "y - 1 \<le> y"
  using assms less_eq_dec_self_iff_eq by fastforce

lemma dec_mask:
  fixes x :: "'a::len word"
  assumes "x AND mask b \<noteq> 0"
  shows "(x - 1) AND mask b = (x AND mask b) - 1"
proof -
  let ?y = "x AND mask b"
  have "?y - 1 \<le> ?y" using assms by (rule dec_le)
  also have "?y \<le> mask b" by (rule word_and_le1)
  finally have "(?y - 1) AND mask b = ?y - 1" by (rule le_mask_and)
  then show ?thesis by (simp only: mask_eqs)
qed

lemma unat_inc:
  fixes x y :: "'a::len word"
  shows "x < y \<Longrightarrow> unat (x + 1) = unat x + 1"
  by (metis (no_types, lifting) add.commute add_0 inc_i inc_le unat_plus_simple unsigned_0 unsigned_1 word_gt_0)

lemma unat_mask_le: "b \<le> LENGTH('a) \<Longrightarrow> unat (mask b :: 'a::len word) = 2 ^ b - 1"
proof -
  assume b: "b \<le> LENGTH('a)"
  have "uint (mask b :: 'a word) = mask (min LENGTH('a) b)" by (rule uint_mask_eq)
  also have "\<dots> = 2 ^ b - 1" using b by (simp add: mask_eq_exp_minus_1 min_def)
  finally have "nat (uint (mask b :: 'a word)) = nat (2 ^ b - 1)" by simp
  then show ?thesis
    by (metis mask_eq_exp_minus_1 nat_mask_eq unat_eq_nat_uint)
qed

lemma word_le_image:
  fixes m :: "'a::len word"
  shows "{p. p \<le> m} = of_nat ` {0..unat m}"
proof (rule set_eqI, rule iffI)
  fix p :: "'a word"
  assume "p \<in> {p. p \<le> m}"
  then have "unat p \<le> unat m" by (simp add: word_le_nat_alt)
  then have "unat p \<in> {0..unat m}" by simp
  then have "of_nat (unat p) \<in> (of_nat ` {0..unat m} :: 'a word set)" by (rule imageI)
  then show "p \<in> of_nat ` {0..unat m}" by simp
next
  fix p :: "'a word"
  assume "p \<in> of_nat ` {0..unat m}"
  then obtain n where n: "n \<le> unat m" "p = of_nat n" by auto
  then have "unat p = n" by (simp add: le_unat_uoi)
  with n show "p \<in> {p. p \<le> m}" by (simp add: word_le_nat_alt)
qed

lemma card_le_word:
  fixes m :: "'a::len word"
  shows "card {p. p \<le> m} = unat m + 1"
proof -
  have "inj_on (of_nat :: nat \<Rightarrow> 'a word) {0..unat m}"
    by (rule inj_onI) (metis atLeastAtMost_iff le_unat_uoi)
  then have "card (of_nat ` {0..unat m} :: 'a word set) = card {0..unat m}" by (rule card_image)
  then show ?thesis by (simp add: word_le_image)
qed

lemma ucast_hashsize: "b \<le> 32 \<Longrightarrow> (ucast ((push_bit b 1 :: 64 word) - 1) :: 32 word) = mask b"
proof -
  assume b: "b \<le> 32"
  have "(push_bit b 1 :: 64 word) - 1 = mask b" by (simp add: mask_eq_exp_minus_1)
  then have "(ucast ((push_bit b 1 :: 64 word) - 1) :: 32 word) = ucast (mask b :: 64 word)" by simp
  also have "\<dots> = mask (min LENGTH(64) b)" by (rule ucast_mask_eq)
  finally show ?thesis using b by (simp add: min_def)
qed

lemma unat_hashsize: "b \<le> 32 \<Longrightarrow> unat (push_bit b 1 :: 64 word) = 2 ^ b"
proof -
  assume b: "b \<le> 32"
  have "(2::nat) ^ b \<le> 2 ^ 32" using b by (intro power_increasing) simp_all
  then have lt: "(2::nat) ^ b < 2 ^ 64" by simp
  have "(push_bit b 1 :: 64 word) = of_nat (2 ^ b)" by simp
  then have "unat (push_bit b 1 :: 64 word) = 2 ^ b mod 2 ^ LENGTH(64)" by (simp only: unat_of_nat)
  with lt show ?thesis by simp
qed

lemma unat_approx:
  assumes b: "b \<le> 32" and c: "c < 1024"
  shows "unat (drop_bit 10 ((push_bit b 1 :: 64 word) * of_nat c)) = (2 ^ b * c) div 1024"
proof -
  have "(2::nat) ^ b \<le> 2 ^ 32" using b by (intro power_increasing) simp_all
  then have "(2::nat) ^ b * c \<le> 2 ^ 32 * 1024" using c by (intro mult_mono) simp_all
  then have lt: "(2::nat) ^ b * c < 2 ^ 64" by simp
  have "(push_bit b 1 :: 64 word) * of_nat c = of_nat (2 ^ b * c)" by simp
  then have "unat ((push_bit b 1 :: 64 word) * of_nat c) = (2 ^ b * c) mod 2 ^ LENGTH(64)"
    by (simp only: unat_of_nat)
  with lt have u: "unat ((push_bit b 1 :: 64 word) * of_nat c) = 2 ^ b * c" by simp
  have "unat (drop_bit 10 ((push_bit b 1 :: 64 word) * of_nat c)) =
        drop_bit 10 (unat ((push_bit b 1 :: 64 word) * of_nat c))"
    by (rule unat_drop_bit_eq)
  also have "\<dots> = (2 ^ b * c) div 2 ^ 10" by (simp only: u drop_bit_eq_div)
  finally show ?thesis by simp
qed

subsection \<open>One step of each loop\<close>

lemma find_loop_stop:
  "n_key (tbl ((hash + psl) AND hashmask)) = None \<or> psl > n_psl (tbl ((hash + psl) AND hashmask)) \<Longrightarrow>
   hashmap_find_loop tbl hashmask cs hashval key hash psl = Some None"
  by (subst hashmap_find_loop.simps) (auto simp: Let_def)

lemma find_loop_found:
  "n_key (tbl ((hash + psl) AND hashmask)) \<noteq> None \<Longrightarrow>
   \<not> psl > n_psl (tbl ((hash + psl) AND hashmask)) \<Longrightarrow>
   hashmap_match (tbl ((hash + psl) AND hashmask)) hashval key cs \<Longrightarrow>
   hashmap_find_loop tbl hashmask cs hashval key hash psl = Some (Some ((hash + psl) AND hashmask, psl))"
  by (subst hashmap_find_loop.simps) (auto simp: Let_def)

lemma find_loop_next:
  "n_key (tbl ((hash + psl) AND hashmask)) \<noteq> None \<Longrightarrow>
   \<not> psl > n_psl (tbl ((hash + psl) AND hashmask)) \<Longrightarrow>
   \<not> hashmap_match (tbl ((hash + psl) AND hashmask)) hashval key cs \<Longrightarrow>
   hashmap_find_loop tbl hashmask cs hashval key hash psl =
   hashmap_find_loop tbl hashmask cs hashval key hash (psl + 1)"
  by (subst hashmap_find_loop.simps) (auto simp: Let_def)

lemma hashmap_find_found:
  "t_table (hm_tables hashmap idx) = Some tbl \<Longrightarrow>
   hashmap_find_loop tbl (t_hashmask (hm_tables hashmap idx)) (hm_case_sensitive hashmap)
      hashval key (isc_hash_bits32 hashval (t_hashbits (hm_tables hashmap idx))) 0 = Some (Some (pos, psl)) \<Longrightarrow>
   hashmap_find hashmap hashval key idx = Some (Inr (Some (idx, pos, psl)))"
  by (subst hashmap_find.simps) simp

lemma hashmap_find_last:
  "t_table (hm_tables hashmap idx) = Some tbl \<Longrightarrow>
   hashmap_find_loop tbl (t_hashmask (hm_tables hashmap idx)) (hm_case_sensitive hashmap)
      hashval key (isc_hash_bits32 hashval (t_hashbits (hm_tables hashmap idx))) 0 = Some None \<Longrightarrow>
   \<not> try_nexttable hashmap idx \<Longrightarrow>
   hashmap_find hashmap hashval key idx = Some (Inr None)"
  by (subst hashmap_find.simps) simp

lemma hashmap_find_nexttable:
  "t_table (hm_tables hashmap idx) = Some tbl \<Longrightarrow>
   hashmap_find_loop tbl (t_hashmask (hm_tables hashmap idx)) (hm_case_sensitive hashmap)
      hashval key (isc_hash_bits32 hashval (t_hashbits (hm_tables hashmap idx))) 0 = Some None \<Longrightarrow>
   try_nexttable hashmap idx \<Longrightarrow>
   hashmap_find hashmap hashval key idx = hashmap_find hashmap hashval key (hashmap_nexttable idx)"
  by (subst hashmap_find.simps) simp

lemma add_loop_place:
  "n_key (tbl ((hash + psl) AND hashmask)) = None \<Longrightarrow>
   hashmap_add_loop tbl hashmask cs hashval key hash node psl =
     Some (ISC_R_SUCCESS, tbl((hash + psl) AND hashmask := node))"
  by (subst hashmap_add_loop.simps) (auto simp: Let_def)

lemma add_loop_exists:
  "n_key (tbl ((hash + psl) AND hashmask)) \<noteq> None \<Longrightarrow>
   hashmap_match (tbl ((hash + psl) AND hashmask)) hashval key cs \<Longrightarrow>
   hashmap_add_loop tbl hashmask cs hashval key hash node psl = Some (ISC_R_EXISTS, tbl)"
  by (subst hashmap_add_loop.simps) (auto simp: Let_def)

lemma add_loop_swap:
  "n_key (tbl ((hash + psl) AND hashmask)) \<noteq> None \<Longrightarrow>
   \<not> hashmap_match (tbl ((hash + psl) AND hashmask)) hashval key cs \<Longrightarrow>
   n_psl node > n_psl (tbl ((hash + psl) AND hashmask)) \<Longrightarrow>
   hashmap_add_loop tbl hashmask cs hashval key hash node psl =
   hashmap_add_loop (tbl((hash + psl) AND hashmask := node)) hashmask cs hashval key hash
     ((tbl ((hash + psl) AND hashmask))\<lparr>n_psl := n_psl (tbl ((hash + psl) AND hashmask)) + 1\<rparr>) (psl + 1)"
  by (subst hashmap_add_loop.simps) (auto simp: Let_def)

lemma add_loop_keep:
  "n_key (tbl ((hash + psl) AND hashmask)) \<noteq> None \<Longrightarrow>
   \<not> hashmap_match (tbl ((hash + psl) AND hashmask)) hashval key cs \<Longrightarrow>
   \<not> n_psl node > n_psl (tbl ((hash + psl) AND hashmask)) \<Longrightarrow>
   hashmap_add_loop tbl hashmask cs hashval key hash node psl =
   hashmap_add_loop tbl hashmask cs hashval key hash (node\<lparr>n_psl := n_psl node + 1\<rparr>) (psl + 1)"
  by (subst hashmap_add_loop.simps) (auto simp: Let_def)

lemma delete_loop_insist:
  "\<not> ucast ((pos0 + 1) AND hashmask) < sz \<Longrightarrow>
   hashmap_delete_node_loop tbl hashmask sz entry pos0 = Some (Inl INSIST_failed)"
  by (subst hashmap_delete_node_loop.simps) (auto simp: Let_def)

lemma delete_loop_stop:
  "ucast ((pos0 + 1) AND hashmask) < sz \<Longrightarrow>
   n_key (tbl ((pos0 + 1) AND hashmask)) = None \<or> n_psl (tbl ((pos0 + 1) AND hashmask)) = 0 \<Longrightarrow>
   hashmap_delete_node_loop tbl hashmask sz entry pos0 = Some (Inr (tbl(entry := zero_node)))"
  by (subst hashmap_delete_node_loop.simps) (auto simp: Let_def)

lemma delete_loop_shift:
  "ucast ((pos0 + 1) AND hashmask) < sz \<Longrightarrow>
   n_key (tbl ((pos0 + 1) AND hashmask)) \<noteq> None \<Longrightarrow> n_psl (tbl ((pos0 + 1) AND hashmask)) \<noteq> 0 \<Longrightarrow>
   hashmap_delete_node_loop tbl hashmask sz entry pos0 =
   hashmap_delete_node_loop
     (tbl((pos0 + 1) AND hashmask := (tbl ((pos0 + 1) AND hashmask))\<lparr>n_psl := n_psl (tbl ((pos0 + 1) AND hashmask)) - 1\<rparr>,
          entry := (tbl ((pos0 + 1) AND hashmask))\<lparr>n_psl := n_psl (tbl ((pos0 + 1) AND hashmask)) - 1\<rparr>))
     hashmask sz ((pos0 + 1) AND hashmask) ((pos0 + 1) AND hashmask)"
  by (subst hashmap_delete_node_loop.simps) (auto simp: Let_def)

lemma iter_next_found:
  "t_table (hm_tables hashmap (it_hindex iter)) = Some tbl \<Longrightarrow>
   it_i iter < t_size (hm_tables hashmap (it_hindex iter)) \<Longrightarrow>
   hashmap_iter_skip tbl (t_size (hm_tables hashmap (it_hindex iter))) (it_i iter) = i \<Longrightarrow>
   i < t_size (hm_tables hashmap (it_hindex iter)) \<Longrightarrow>
   isc__hashmap_iter_next hashmap iter =
     Some (Inr (ISC_R_SUCCESS, iter\<lparr>it_i := i, it_cur := Some (it_hindex iter, i)\<rparr>))"
  by (subst isc__hashmap_iter_next.simps) (simp add: Let_def)

lemma iter_next_nomore:
  "t_table (hm_tables hashmap (it_hindex iter)) = Some tbl \<Longrightarrow>
   it_i iter < t_size (hm_tables hashmap (it_hindex iter)) \<Longrightarrow>
   hashmap_iter_skip tbl (t_size (hm_tables hashmap (it_hindex iter))) (it_i iter) = i \<Longrightarrow>
   \<not> i < t_size (hm_tables hashmap (it_hindex iter)) \<Longrightarrow>
   \<not> try_nexttable hashmap (it_hindex iter) \<Longrightarrow>
   isc__hashmap_iter_next hashmap iter = Some (Inr (ISC_R_NOMORE, iter\<lparr>it_i := i\<rparr>))"
  by (subst isc__hashmap_iter_next.simps) (simp add: Let_def)

subsection \<open>The loops of find and add on a table\<close>

lemma unat_dec: fixes j :: "'a::len word" shows "j \<noteq> 0 \<Longrightarrow> unat (j - 1) = unat j - 1"
  by (rule unat_minus_one)

lemma one_le_word: fixes x :: "'a::len word" shows "x \<noteq> 0 \<Longrightarrow> 1 \<le> x"
proof -
  assume "x \<noteq> 0"
  then have "0 < unat x" by (simp add: unat_gt_0)
  then have "unat (1 :: 'a word) \<le> unat x" by simp
  then show ?thesis by (simp only: word_le_nat_alt)
qed

lemma rh_chain:
  assumes rh: "rh_ok tbl (mask b)" and p: "p \<le> mask b" "n_key (tbl p) \<noteq> None"
  shows "unat j \<le> unat (n_psl (tbl p)) \<Longrightarrow>
         n_key (tbl ((p - j) AND mask b)) \<noteq> None \<and>
         n_psl (tbl p) - j \<le> n_psl (tbl ((p - j) AND mask b))"
proof (induction "unat j" arbitrary: j)
  case 0
  then have "j = 0" by (simp add: unat_0_iff)
  with p show ?case by (simp add: le_mask_and)
next
  case (Suc n)
  let ?s = "n_psl (tbl p)"
  let ?j' = "j - 1"
  let ?q = "(p - ?j') AND mask b"
  from Suc.hyps(2) have j0: "j \<noteq> 0" by (auto simp: unat_0_iff)
  then have uj': "unat ?j' = n" using Suc.hyps(2) by (simp add: unat_minus_one)
  with Suc.prems Suc.hyps(2) have le': "unat ?j' \<le> unat ?s" by simp
  from Suc.hyps(1)[OF uj'[symmetric] le']
  have occ: "n_key (tbl ?q) \<noteq> None" and ge: "?s - ?j' \<le> n_psl (tbl ?q)" by simp_all
  have lt: "unat ?j' < unat ?s" using Suc.prems Suc.hyps(2) uj' by simp
  then have j's: "?j' \<le> ?s" "?j' \<noteq> ?s" by (auto simp: word_le_nat_alt)
  then have d0: "?s - ?j' \<noteq> 0" by simp
  have one_le: "1 \<le> ?s - ?j'" using d0 by (rule one_le_word)
  from ge d0 have q0: "n_psl (tbl ?q) \<noteq> 0" by (metis word_le_0_iff)
  have qm: "?q \<le> mask b" by (rule word_and_le1)
  from rh qm occ q0 have
    occ': "n_key (tbl ((?q - 1) AND mask b)) \<noteq> None" and
    ge': "n_psl (tbl ?q) - 1 \<le> n_psl (tbl ((?q - 1) AND mask b))"
    by (simp_all add: rh_ok_def)
  have qeq: "(?q - 1) AND mask b = (p - j) AND mask b"
    by (simp add: mask_eqs algebra_simps)
  have "?s - j = (?s - ?j') - 1" by simp
  also have "\<dots> \<le> n_psl (tbl ?q) - 1" using ge one_le by (rule word_le_minus_mono_left)
  also note ge'
  finally show ?case using occ' by (simp add: qeq)
qed

lemma node_ok_keysize:
  assumes "node_ok x" "n_key x = Some k"
  shows "unat (n_keysize x) = length k" "length k \<le> 65535"
proof -
  from assms have len: "length k \<le> 65535" and ks: "n_keysize x = of_nat (length k)"
    by (simp_all add: node_ok_def UINT16_MAX_def)
  from len have "length k < 2 ^ LENGTH(16)" by simp
  then have "unat (of_nat (length k) :: 16 word) = length k" by (simp add: unat_of_nat)
  with ks show "unat (n_keysize x) = length k" by simp
  from len show "length k \<le> 65535" .
qed

lemma match_key_eq:
  assumes "node_ok x" "n_key x = Some kx" "hashmap_match x hv k cs"
  shows "length kx = length k" "if cs then kx = k else map isc_ascii_tolower kx = map isc_ascii_tolower k"
proof -
  from assms(3) have ks: "unat (n_keysize x) = length k"
    and cmp: "if cs then memcmp kx k (length k) else isc_ascii_lowerequal kx k (length k)"
    using assms(2) by (simp_all add: hashmap_match_def)
  from node_ok_keysize(1)[OF assms(1,2)] ks show len: "length kx = length k" by simp
  from cmp len show "if cs then kx = k else map isc_ascii_tolower kx = map isc_ascii_tolower k"
    by (simp add: memcmp_def isc_ascii_lowerequal_def split: if_splits)
qed

lemma match_same_key:
  assumes x: "node_ok x" "n_key x \<noteq> None" and y: "node_ok y" "n_key y \<noteq> None"
    and mx: "hashmap_match x hv k cs" and my: "hashmap_match y hv k cs"
  shows "same_key cs x y"
proof -
  from x(2) obtain kx where kx: "n_key x = Some kx" by auto
  from y(2) obtain ky where ky: "n_key y = Some ky" by auto
  note ex = match_key_eq[OF x(1) kx mx] and ey = match_key_eq[OF y(1) ky my]
  have hv: "n_hashval x = hv" "n_hashval y = hv" using mx my by (simp_all add: hashmap_match_def)
  have ksx: "unat (n_keysize x) = length ky" using node_ok_keysize(1)[OF x(1) kx] ex(1) ey(1) by simp
  show ?thesis
    using ex ey hv ksx kx ky
    by (auto simp: same_key_def hashmap_match_def memcmp_def isc_ascii_lowerequal_def split: if_splits)
qed

lemma same_key_sym:
  assumes "node_ok x" "node_ok y" "n_key x \<noteq> None" "same_key cs x y"
  shows "same_key cs y x"
proof -
  from assms(3) obtain kx where kx: "n_key x = Some kx" by auto
  from assms(4) obtain ky where ky: "n_key y = Some ky" and m: "hashmap_match x (n_hashval y) ky cs"
    by (auto simp: same_key_def split: option.splits)
  note e = match_key_eq[OF assms(1) kx m]
  have "unat (n_keysize y) = length kx" using node_ok_keysize(1)[OF assms(2) ky] e(1) by simp
  moreover have "n_hashval x = n_hashval y" using m by (simp add: hashmap_match_def)
  ultimately show ?thesis using e kx ky
    by (auto simp: same_key_def hashmap_match_def memcmp_def isc_ascii_lowerequal_def split: if_splits)
qed

lemma same_key_match:
  assumes "node_ok x" "node_ok y" "n_key x \<noteq> None" "same_key cs x y" "hashmap_match y hv k cs"
  shows "hashmap_match x hv k cs"
proof -
  from assms(3) obtain kx where kx: "n_key x = Some kx" by auto
  from assms(4) obtain ky where ky: "n_key y = Some ky" and m: "hashmap_match x (n_hashval y) ky cs"
    by (auto simp: same_key_def split: option.splits)
  note e = match_key_eq[OF assms(1) kx m] and e' = match_key_eq[OF assms(2) ky assms(5)]
  have "unat (n_keysize x) = length k" using node_ok_keysize(1)[OF assms(1) kx] e(1) e'(1) by simp
  moreover have "n_hashval x = hv" using m assms(5) by (simp add: hashmap_match_def)
  ultimately show ?thesis using e e' kx ky
    by (auto simp: hashmap_match_def memcmp_def isc_ascii_lowerequal_def split: if_splits)
qed

lemma psl_ok_le:
  assumes "psl_ok tbl bits (mask b)" "p \<le> mask b" "n_key (tbl p) \<noteq> None"
  shows "n_psl (tbl p) \<le> mask b"
  using assms by (simp add: psl_ok_def word_and_le1)

lemma psl_ok_pos:
  assumes "psl_ok tbl bits (mask b)" "p \<le> mask b" "n_key (tbl p) \<noteq> None"
  shows "(isc_hash_bits32 (n_hashval (tbl p)) bits + n_psl (tbl p)) AND mask b = p"
proof -
  let ?h = "isc_hash_bits32 (n_hashval (tbl p)) bits"
  from assms have "n_psl (tbl p) = (p - ?h) AND mask b" by (simp add: psl_ok_def)
  then have "(?h + n_psl (tbl p)) AND mask b = (?h + ((p - ?h) AND mask b)) AND mask b" by simp
  also have "\<dots> = (?h + (p - ?h)) AND mask b" by (simp only: mask_eqs)
  also have "\<dots> = p" using assms(2) by (simp add: le_mask_and)
  finally show ?thesis .
qed

lemma sub_mask_neq:
  fixes p j :: "'a::len word"
  assumes "j \<le> mask b" "j \<noteq> 0"
  shows "(p - j) AND mask b \<noteq> p AND mask b"
proof
  assume "(p - j) AND mask b = p AND mask b"
  then have "(p - ((p - j) AND mask b)) AND mask b = (p - (p AND mask b)) AND mask b" by simp
  then have "(p - (p - j)) AND mask b = (p - p) AND mask b" by (simp only: mask_eqs)
  then have "j AND mask b = 0" by simp
  with assms show False by (simp add: le_mask_and)
qed

lemma find_loop_hit:
  assumes ok: "table_ok cs tbl bits (mask b)"
    and p: "p \<le> mask b" "n_key (tbl p) \<noteq> None" "hashmap_match (tbl p) hashval key cs"
  shows "unat d \<le> unat (n_psl (tbl p)) \<Longrightarrow>
         hashmap_find_loop tbl (mask b) cs hashval key (isc_hash_bits32 hashval bits) d =
           Some (Some (p, n_psl (tbl p)))"
proof (induction "unat (n_psl (tbl p)) - unat d" arbitrary: d)
  case 0
  then have d: "d = n_psl (tbl p)" by (simp add: word_unat_eq_iff)
  have hv: "n_hashval (tbl p) = hashval" using p(3) by (simp add: hashmap_match_def)
  have pos: "(isc_hash_bits32 hashval bits + n_psl (tbl p)) AND mask b = p"
    using psl_ok_pos[of tbl bits b p] ok p hv by (simp add: table_ok_def)
  show ?case unfolding d
    by (subst hashmap_find_loop.simps) (simp add: pos Let_def p)
next
  case (Suc n)
  let ?s = "n_psl (tbl p)"
  let ?h = "isc_hash_bits32 hashval bits"
  have hv: "n_hashval (tbl p) = hashval" using p(3) by (simp add: hashmap_match_def)
  from ok have pslok: "psl_ok tbl bits (mask b)" and rh: "rh_ok tbl (mask b)"
    and kok: "keys_ok tbl (mask b)" and dk: "distinct_keys cs tbl (mask b)"
    by (simp_all add: table_ok_def)
  from Suc.hyps(2) have lt: "unat d < unat ?s" by simp
  then have dle: "d \<le> ?s" and dne: "d \<noteq> ?s" by (auto simp: word_le_nat_alt)
  let ?j = "?s - d"
  have uj: "unat ?j = unat ?s - unat d" using dle by (rule unat_sub)
  then have jle: "unat ?j \<le> unat ?s" by simp
  have j0: "?j \<noteq> 0" using dne by simp
  have sm: "?s \<le> mask b" using pslok p(1,2) by (rule psl_ok_le)
  have jm: "?j \<le> mask b" using jle sm by (simp add: word_le_nat_alt)
  let ?pos = "(?h + d) AND mask b"
  have "(?h + ?s) AND mask b = p" using psl_ok_pos[OF pslok p(1,2)] hv by simp
  then have "(((?h + ?s) AND mask b) - ?j) AND mask b = (p - ?j) AND mask b" by simp
  then have poseq: "?pos = (p - ?j) AND mask b" by (simp add: mask_eqs)
  from rh_chain[OF rh p(1,2) jle]
  have occ: "n_key (tbl ?pos) \<noteq> None" and ge: "?s - ?j \<le> n_psl (tbl ?pos)"
    by (simp_all add: poseq)
  then have ge': "\<not> n_psl (tbl ?pos) < d" by (simp add: not_less)
  have posne: "?pos \<noteq> p" using sub_mask_neq[OF jm j0, of p] p(1) by (simp add: poseq le_mask_and)
  have posm: "?pos \<le> mask b" by (rule word_and_le1)
  have nomatch: "\<not> hashmap_match (tbl ?pos) hashval key cs"
  proof
    assume m: "hashmap_match (tbl ?pos) hashval key cs"
    have "same_key cs (tbl ?pos) (tbl p)"
      using match_same_key[OF _ occ _ p(2) m p(3)] kok posm p(1) by (simp add: keys_ok_def)
    with dk posm p(1) occ p(2) have "?pos = p" by (simp add: distinct_keys_def)
    with posne show False by simp
  qed
  have ud1: "unat (d + 1) = unat d + 1" using unat_inc[of d ?s] lt by (simp add: word_less_nat_alt)
  have IH: "hashmap_find_loop tbl (mask b) cs hashval key ?h (d + 1) = Some (Some (p, ?s))"
    using Suc.hyps(1)[of "d + 1"] Suc.hyps(2) ud1 lt by simp
  show ?case
    by (subst hashmap_find_loop.simps) (simp add: Let_def occ ge' nomatch IH)
qed

lemma find_loop_miss_aux:
  assumes nomatch: "\<not> in_table cs tbl (mask b) hashval key"
    and D: "D < 2 ^ 32"
    and stop: "n_key (tbl ((hash + of_nat D) AND mask b)) = None \<or>
               n_psl (tbl ((hash + of_nat D) AND mask b)) < of_nat D"
  shows "unat d \<le> D \<Longrightarrow> hashmap_find_loop tbl (mask b) cs hashval key hash d = Some None"
proof (induction "D - unat d" arbitrary: d)
  case 0
  then have "unat d = D" by simp
  then have "of_nat D = d" by auto
  with stop show ?case by (subst hashmap_find_loop.simps) (auto simp: Let_def)
next
  case (Suc n)
  then have lt: "unat d < D" by simp
  with D have "unat d + unat (1 :: 32 word) < 2 ^ LENGTH(32)" by simp
  then have ud1: "unat (d + 1) = unat d + 1" by (simp add: unat_add_lem [THEN iffD1])
  have IH: "hashmap_find_loop tbl (mask b) cs hashval key hash (d + 1) = Some None"
    using Suc.hyps(1)[of "d + 1"] Suc.hyps(2) ud1 lt by simp
  let ?pos = "(hash + d) AND mask b"
  have "n_key (tbl ?pos) \<noteq> None \<Longrightarrow> \<not> hashmap_match (tbl ?pos) hashval key cs"
    using nomatch word_and_le1[of "hash + d" "mask b"] by (auto simp: in_table_def)
  then show ?case
    by (subst hashmap_find_loop.simps) (auto simp: Let_def IH)
qed

lemma find_loop_miss_room:
  assumes nomatch: "\<not> in_table cs tbl (mask b) hashval key"
    and room: "has_room tbl (mask b)"
  shows "hashmap_find_loop tbl (mask b) cs hashval key hash 0 = Some None"
proof -
  from room obtain e where e: "e \<le> mask b" "n_key (tbl e) = None" by (auto simp: has_room_def)
  let ?D = "unat ((e - hash) AND mask b)"
  have D: "?D < 2 ^ 32" using unsigned_less[of "(e - hash) AND mask b"] by simp
  have "(hash + ((e - hash) AND mask b)) AND mask b = (hash + (e - hash)) AND mask b"
    by (simp only: mask_eqs)
  also have "\<dots> = e" using e(1) by (simp add: le_mask_and)
  finally have "(hash + of_nat ?D) AND mask b = e" by simp
  with e(2) have "n_key (tbl ((hash + of_nat ?D) AND mask b)) = None \<or>
               n_psl (tbl ((hash + of_nat ?D) AND mask b)) < of_nat ?D" by simp
  from find_loop_miss_aux[OF nomatch D this, of 0] show ?thesis by simp
qed

lemma mask_lt_2p: "b < 32 \<Longrightarrow> (mask b :: 32 word) < 2 ^ b"
proof -
  assume b: "b < 32"
  have "unat (mask b :: 32 word) = 2 ^ b - 1" using b by (simp add: unat_mask_le)
  moreover have "(2::nat) ^ b < 2 ^ 32" using b by (intro power_strict_increasing) simp_all
  then have lt: "(2::nat) ^ b < 2 ^ LENGTH(32)" by simp
  have "(2 ^ b :: 32 word) = of_nat (2 ^ b)" by simp
  then have "unat (2 ^ b :: 32 word) = 2 ^ b mod 2 ^ LENGTH(32)" by (simp only: unat_of_nat)
  with lt have "unat (2 ^ b :: 32 word) = 2 ^ b" by simp
  ultimately show ?thesis by (simp add: word_less_nat_alt)
qed

lemma succ_pred_mask:
  fixes p :: "'a::len word"
  shows "(((p + 1) AND mask b) - 1) AND mask b = p AND mask b"
proof -
  have "(((p + 1) AND mask b) - 1) AND mask b = (p + 1 - 1) AND mask b" by (simp only: mask_eqs)
  then show ?thesis by simp
qed

lemma succ_neq_self:
  fixes p :: "'a::len word"
  assumes "0 < b" "p \<le> mask b"
  shows "(p + 1) AND mask b \<noteq> p" "(p - 1) AND mask b \<noteq> p"
proof -
  show "(p + 1) AND mask b \<noteq> p" using succ_mask_neq[OF assms(1), of p] assms(2) by (simp add: le_mask_and)
  show "(p - 1) AND mask b \<noteq> p"
  proof
    assume "(p - 1) AND mask b = p"
    then have "(((p - 1) AND mask b) + 1) AND mask b = (p + 1) AND mask b" by simp
    then have "(p - 1 + 1) AND mask b = (p + 1) AND mask b" by (simp only: mask_eqs)
    then have "p AND mask b = (p + 1) AND mask b" by simp
    with succ_mask_neq[OF assms(1), of p] show False by simp
  qed
qed

lemma dist_zero_iff:
  fixes p e :: "'a::len word"
  assumes "p \<le> mask b" "e \<le> mask b"
  shows "(e - p) AND mask b = 0 \<longleftrightarrow> e = p"
proof
  assume "(e - p) AND mask b = 0"
  then have "(p + ((e - p) AND mask b)) AND mask b = p AND mask b" by simp
  then have "(p + (e - p)) AND mask b = p AND mask b" by (simp only: mask_eqs)
  with assms show "e = p" by (simp add: le_mask_and)
qed simp

lemma dist_succ:
  fixes p e :: "'a::len word"
  assumes "p \<le> mask b" "e \<le> mask b" "e \<noteq> p"
  shows "unat ((e - ((p + 1) AND mask b)) AND mask b) = unat ((e - p) AND mask b) - 1"
    and "0 < unat ((e - p) AND mask b)"
proof -
  have nz: "(e - p) AND mask b \<noteq> 0" using dist_zero_iff[OF assms(1,2)] assms(3) by simp
  have "(e - ((p + 1) AND mask b)) AND mask b = (e - (p + 1)) AND mask b"
    by (simp only: mask_eqs)
  also have "\<dots> = (e - p - 1) AND mask b" by (simp add: algebra_simps)
  also have "\<dots> = ((e - p) AND mask b) - 1" using nz by (rule dec_mask)
  finally show "unat ((e - ((p + 1) AND mask b)) AND mask b) = unat ((e - p) AND mask b) - 1"
    using nz by (simp add: unat_minus_one)
  show "0 < unat ((e - p) AND mask b)" using nz by (simp add: unat_gt_0)
qed

lemma ahead_succ:
  fixes p e q :: "'a::len word"
  assumes b: "0 < b" and le: "p \<le> mask b" "e \<le> mask b" "q \<le> mask b" and ne: "e \<noteq> p"
    and ah: "unat ((q - ((p + 1) AND mask b)) AND mask b) \<le> unat ((e - ((p + 1) AND mask b)) AND mask b)"
  shows "q \<noteq> p \<and> unat ((q - p) AND mask b) \<le> unat ((e - p) AND mask b)"
proof (cases "q = p")
  case True
  have "(q - ((p + 1) AND mask b)) AND mask b = (q - (p + 1)) AND mask b"
    by (simp only: mask_eqs)
  with True have "(q - ((p + 1) AND mask b)) AND mask b = (- 1) AND mask b" by simp
  then have "(q - ((p + 1) AND mask b)) AND mask b = mask b" by simp
  with ah dist_succ[OF le(1,2) ne] have "unat (mask b :: 'a word) \<le> unat ((e - p) AND mask b) - 1" by simp
  moreover have "unat ((e - p) AND mask b) \<le> unat (mask b :: 'a word)"
    using word_and_le1[of "e - p" "mask b"] by (simp add: word_le_nat_alt)
  moreover note dist_succ(2)[OF le(1,2) ne]
  ultimately show ?thesis by simp
next
  case False
  from dist_succ[OF le(1,3) False] dist_succ[OF le(1,2) ne] ah
  show ?thesis using False by simp
qed

lemma same_key_psl [simp]:
  "same_key cs (x\<lparr>n_psl := a\<rparr>) y = same_key cs x y"
  "same_key cs x (y\<lparr>n_psl := a\<rparr>) = same_key cs x y"
  by (simp_all add: same_key_def hashmap_match_def split: option.splits)

lemma node_ok_psl [simp]: "node_ok (x\<lparr>n_psl := a\<rparr>) = node_ok x"
  by (simp add: node_ok_def split: option.splits)

lemma strip_psl [simp]: "strip (x\<lparr>n_psl := a\<rparr>) = strip x"
  by (simp add: strip_def)

lemma inc_mask:
  fixes x :: "'a::len word"
  assumes "x AND mask b \<noteq> mask b"
  shows "(x + 1) AND mask b = (x AND mask b) + 1"
proof -
  let ?y = "x AND mask b"
  have ym: "?y \<le> mask b" by (rule word_and_le1)
  with assms have lt: "?y < mask b" by simp
  then have "?y + 1 \<le> mask b" by (metis inc_le)
  then have "(?y + 1) AND mask b = ?y + 1" by (rule le_mask_and)
  moreover have "(?y + 1) AND mask b = (x + 1) AND mask b" by (simp only: mask_eqs)
  ultimately show ?thesis by simp
qed

lemma entries_upd:
  "p \<le> m \<Longrightarrow> n_key x \<noteq> None \<Longrightarrow>
   entries (tbl(p := x)) m = insert (strip x) {strip (tbl q) | q. q \<le> m \<and> q \<noteq> p \<and> n_key (tbl q) \<noteq> None}"
  by (auto simp: entries_def)

lemma entries_split:
  "p \<le> m \<Longrightarrow> n_key (tbl p) \<noteq> None \<Longrightarrow>
   entries tbl m = insert (strip (tbl p)) {strip (tbl q) | q. q \<le> m \<and> q \<noteq> p \<and> n_key (tbl q) \<noteq> None}"
  by (auto simp: entries_def)

lemma entries_empty_at:
  "n_key (tbl p) = None \<Longrightarrow>
   entries tbl m = {strip (tbl q) | q. q \<le> m \<and> q \<noteq> p \<and> n_key (tbl q) \<noteq> None}"
  by (auto simp: entries_def)

lemma add_invD:
  assumes "add_inv cs bits m e hashval key tbl node pos"
  shows "table_ok cs tbl bits m" "e \<le> m" "n_key (tbl e) = None" "node_ok node" "n_key node \<noteq> None"
    "n_psl node = (pos - isc_hash_bits32 (n_hashval node) bits) AND m"
    "n_psl node \<noteq> 0 \<Longrightarrow> n_key (tbl ((pos - 1) AND m)) \<noteq> None"
    "n_psl node \<noteq> 0 \<Longrightarrow> n_psl node - 1 \<le> n_psl (tbl ((pos - 1) AND m))"
    "\<And>q. q \<le> m \<Longrightarrow> n_key (tbl q) \<noteq> None \<Longrightarrow> \<not> same_key cs (tbl q) node"
    "\<And>q. q \<le> m \<Longrightarrow> unat ((q - pos) AND m) \<le> unat ((e - pos) AND m) \<Longrightarrow>
           n_key (tbl q) \<noteq> None \<Longrightarrow> \<not> hashmap_match (tbl q) hashval key cs"
    "unat (n_psl node) + unat ((e - pos) AND m) \<le> unat m"
  using assms unfolding add_inv_def by blast+

lemma add_invI:
  assumes "table_ok cs tbl bits m" "e \<le> m" "n_key (tbl e) = None" "node_ok node" "n_key node \<noteq> None"
    "n_psl node = (pos - isc_hash_bits32 (n_hashval node) bits) AND m"
    "n_psl node \<noteq> 0 \<Longrightarrow> n_key (tbl ((pos - 1) AND m)) \<noteq> None"
    "n_psl node \<noteq> 0 \<Longrightarrow> n_psl node - 1 \<le> n_psl (tbl ((pos - 1) AND m))"
    "\<And>q. q \<le> m \<Longrightarrow> n_key (tbl q) \<noteq> None \<Longrightarrow> \<not> same_key cs (tbl q) node"
    "\<And>q. q \<le> m \<Longrightarrow> unat ((q - pos) AND m) \<le> unat ((e - pos) AND m) \<Longrightarrow>
           n_key (tbl q) \<noteq> None \<Longrightarrow> \<not> hashmap_match (tbl q) hashval key cs"
    "unat (n_psl node) + unat ((e - pos) AND m) \<le> unat m"
  shows "add_inv cs bits m e hashval key tbl node pos"
  using assms unfolding add_inv_def by blast

lemma table_okD:
  assumes "table_ok cs tbl bits m"
  shows "psl_ok tbl bits m" "rh_ok tbl m" "keys_ok tbl m" "distinct_keys cs tbl m"
  using assms unfolding table_ok_def by blast+

lemma add_inv_place:
  assumes inv: "add_inv cs bits (mask b) e hashval key tbl node pos"
    and b: "0 < b" and pos: "pos \<le> mask b" and empty: "n_key (tbl pos) = None"
  shows "table_ok cs (tbl(pos := node)) bits (mask b)"
    and "entries (tbl(pos := node)) (mask b) = insert (strip node) (entries tbl (mask b))"
    and "occ (tbl(pos := node)) (mask b) = insert pos (occ tbl (mask b))"
proof -
  let ?m = "mask b :: 32 word"
  let ?t = "tbl(pos := node)"
  note ok = add_invD(1)[OF inv] and nok = add_invD(4)[OF inv] and nk = add_invD(5)[OF inv]
    and npsl = add_invD(6)[OF inv] and nrh = add_invD(7,8)[OF inv] and ndist = add_invD(9)[OF inv]
  note pslok = table_okD(1)[OF ok] and rh = table_okD(2)[OF ok]
    and kok = table_okD(3)[OF ok] and dk = table_okD(4)[OF ok]
  have predne: "(pos - 1) AND ?m \<noteq> pos" using succ_neq_self(2)[OF b pos] .
  have p1: "psl_ok ?t bits ?m" using pslok npsl by (simp add: psl_ok_def)
  have p2: "rh_ok ?t ?m"
    unfolding rh_ok_def
  proof (intro allI impI)
    fix q assume q: "q \<le> ?m" "n_key (?t q) \<noteq> None" "n_psl (?t q) \<noteq> 0"
    show "n_key (?t ((q - 1) AND ?m)) \<noteq> None \<and> n_psl (?t q) - 1 \<le> n_psl (?t ((q - 1) AND ?m))"
    proof (cases "q = pos")
      case True
      with q nrh predne show ?thesis by simp
    next
      case False
      with q have occq: "n_key (tbl q) \<noteq> None" "n_psl (tbl q) \<noteq> 0" by simp_all
      with rh q(1) have r: "n_key (tbl ((q - 1) AND ?m)) \<noteq> None"
        "n_psl (tbl q) - 1 \<le> n_psl (tbl ((q - 1) AND ?m))" by (simp_all add: rh_ok_def)
      with empty have "(q - 1) AND ?m \<noteq> pos" by auto
      with r False show ?thesis by simp
    qed
  qed
  have p3: "keys_ok ?t ?m" using kok nok by (simp add: keys_ok_def)
  have p4: "distinct_keys cs ?t ?m"
    unfolding distinct_keys_def
  proof (intro allI impI)
    fix p q assume h: "p \<le> ?m" "q \<le> ?m" "n_key (?t p) \<noteq> None" "n_key (?t q) \<noteq> None"
      "same_key cs (?t p) (?t q)"
    show "p = q"
    proof (cases "p = pos"; cases "q = pos")
      assume "p = pos" "q \<noteq> pos"
      with h have "same_key cs node (tbl q)" "n_key (tbl q) \<noteq> None" by simp_all
      then have "same_key cs (tbl q) node"
        using same_key_sym[OF nok _ nk] kok h(2) by (simp add: keys_ok_def)
      with ndist h(2) \<open>n_key (tbl q) \<noteq> None\<close> show ?thesis by simp
    next
      assume "p \<noteq> pos" "q = pos"
      with h ndist show ?thesis by simp
    next
      assume "p \<noteq> pos" "q \<noteq> pos"
      with h dk show ?thesis by (simp add: distinct_keys_def)
    qed simp
  qed
  from p1 p2 p3 p4 show "table_ok cs ?t bits ?m" by (simp add: table_ok_def)
  show "entries ?t ?m = insert (strip node) (entries tbl ?m)"
    using entries_upd[OF pos nk, of tbl] entries_empty_at[of tbl pos ?m, OF empty] by simp
  show "occ ?t ?m = insert pos (occ tbl ?m)" using pos nk by (auto simp: occ_def)
qed

lemma add_inv_occupied_facts:
  assumes inv: "add_inv cs bits (mask b) e hashval key tbl node pos"
    and b: "0 < b" and pos: "pos \<le> mask b" and occp: "n_key (tbl pos) \<noteq> None"
  shows "e \<noteq> pos" "0 < unat ((e - pos) AND mask b)"
    "unat ((e - ((pos + 1) AND mask b)) AND mask b) = unat ((e - pos) AND mask b) - 1"
    "n_psl node < mask b"
    "\<not> hashmap_match (tbl pos) hashval key cs"
    "(((pos + 1) AND mask b) - 1) AND mask b = pos"
proof -
  let ?m = "mask b :: 32 word"
  show ne: "e \<noteq> pos" using add_invD(3)[OF inv] occp by auto
  note d = dist_succ[OF pos add_invD(2)[OF inv] ne]
  show "0 < unat ((e - pos) AND ?m)" by (rule d(2))
  show "unat ((e - ((pos + 1) AND ?m)) AND ?m) = unat ((e - pos) AND ?m) - 1" by (rule d(1))
  from add_invD(11)[OF inv] d(2) have "unat (n_psl node) < unat ?m" by simp
  then show "n_psl node < ?m" by (simp add: word_less_nat_alt)
  show "\<not> hashmap_match (tbl pos) hashval key cs"
    using add_invD(10)[OF inv pos _ occp] by simp
  show "(((pos + 1) AND ?m) - 1) AND ?m = pos"
    using succ_pred_mask[of pos b] pos by (simp add: le_mask_and)
qed

lemma psl_succ:
  fixes pos h :: "32 word"
  assumes "s = (pos - h) AND mask b" "s < mask b"
  shows "s + 1 = (((pos + 1) AND mask b) - h) AND mask b" "unat (s + 1) = unat s + 1"
proof -
  have "(((pos + 1) AND mask b) - h) AND mask b = ((pos + 1) - h) AND mask b" by (simp only: mask_eqs)
  also have "\<dots> = ((pos - h) + 1) AND mask b" by (simp add: algebra_simps)
  also have "\<dots> = ((pos - h) AND mask b) + 1" using assms by (intro inc_mask) simp
  finally show "s + 1 = (((pos + 1) AND mask b) - h) AND mask b" using assms(1) by simp
  show "unat (s + 1) = unat s + 1" using assms(2) by (rule unat_inc)
qed

lemma add_inv_keep:
  assumes inv: "add_inv cs bits (mask b) e hashval key tbl node pos"
    and b: "0 < b" and pos: "pos \<le> mask b" and occp: "n_key (tbl pos) \<noteq> None"
    and keep: "\<not> n_psl (tbl pos) < n_psl node"
  shows "add_inv cs bits (mask b) e hashval key tbl (node\<lparr>n_psl := n_psl node + 1\<rparr>) ((pos + 1) AND mask b)"
proof -
  let ?m = "mask b :: 32 word"
  let ?pos' = "(pos + 1) AND ?m"
  note f = add_inv_occupied_facts[OF inv b pos occp]
  note ps = psl_succ[OF add_invD(6)[OF inv] f(4)]
  have le: "n_psl node \<le> n_psl (tbl pos)" using keep by simp
  have ah: "\<And>q. q \<le> ?m \<Longrightarrow> unat ((q - ?pos') AND ?m) \<le> unat ((e - ?pos') AND ?m) \<Longrightarrow>
           n_key (tbl q) \<noteq> None \<Longrightarrow> \<not> hashmap_match (tbl q) hashval key cs"
    using ahead_succ[OF b pos add_invD(2)[OF inv] _ f(1)] add_invD(10)[OF inv] by blast
  show ?thesis
  proof (rule add_invI)
    show "table_ok cs tbl bits ?m" "e \<le> ?m" "n_key (tbl e) = None"
      using add_invD(1,2,3)[OF inv] by simp_all
    show "node_ok (node\<lparr>n_psl := n_psl node + 1\<rparr>)" using add_invD(4)[OF inv] by simp
    show "n_key (node\<lparr>n_psl := n_psl node + 1\<rparr>) \<noteq> None" using add_invD(5)[OF inv] by simp
    show "n_psl (node\<lparr>n_psl := n_psl node + 1\<rparr>) =
          (?pos' - isc_hash_bits32 (n_hashval (node\<lparr>n_psl := n_psl node + 1\<rparr>)) bits) AND ?m"
      using ps(1) by simp
    show "n_key (tbl ((?pos' - 1) AND ?m)) \<noteq> None" using f(6) occp by simp
    show "n_psl (node\<lparr>n_psl := n_psl node + 1\<rparr>) - 1 \<le> n_psl (tbl ((?pos' - 1) AND ?m))"
      using f(6) le by simp
    show "\<And>q. q \<le> ?m \<Longrightarrow> n_key (tbl q) \<noteq> None \<Longrightarrow>
           \<not> same_key cs (tbl q) (node\<lparr>n_psl := n_psl node + 1\<rparr>)"
      using add_invD(9)[OF inv] by simp
    show "\<And>q. q \<le> ?m \<Longrightarrow> unat ((q - ?pos') AND ?m) \<le> unat ((e - ?pos') AND ?m) \<Longrightarrow>
           n_key (tbl q) \<noteq> None \<Longrightarrow> \<not> hashmap_match (tbl q) hashval key cs"
      by (rule ah)
    show "unat (n_psl (node\<lparr>n_psl := n_psl node + 1\<rparr>)) + unat ((e - ?pos') AND ?m) \<le> unat ?m"
      using ps(2) f(2,3) add_invD(11)[OF inv] by simp
  qed
qed

lemma add_inv_swap:
  assumes inv: "add_inv cs bits (mask b) e hashval key tbl node pos"
    and b: "0 < b" and pos: "pos \<le> mask b" and occp: "n_key (tbl pos) \<noteq> None"
    and swap: "n_psl (tbl pos) < n_psl node"
  shows "add_inv cs bits (mask b) e hashval key (tbl(pos := node))
           ((tbl pos)\<lparr>n_psl := n_psl (tbl pos) + 1\<rparr>) ((pos + 1) AND mask b)"
    and "insert (strip (tbl pos)) (entries (tbl(pos := node)) (mask b)) =
         insert (strip node) (entries tbl (mask b))"
    and "occ (tbl(pos := node)) (mask b) = occ tbl (mask b)"
proof -
  let ?m = "mask b :: 32 word"
  let ?pos' = "(pos + 1) AND ?m"
  let ?t = "tbl(pos := node)"
  let ?cur = "tbl pos"
  note f = add_inv_occupied_facts[OF inv b pos occp]
  note ok = add_invD(1)[OF inv] and nok = add_invD(4)[OF inv] and nk = add_invD(5)[OF inv]
    and npsl = add_invD(6)[OF inv] and nrh = add_invD(7,8)[OF inv] and ndist = add_invD(9)[OF inv]
  note pslok = table_okD(1)[OF ok] and rh = table_okD(2)[OF ok]
    and kok = table_okD(3)[OF ok] and dk = table_okD(4)[OF ok]
  have cok: "node_ok ?cur" using kok pos by (simp add: keys_ok_def)
  have predne: "(pos - 1) AND ?m \<noteq> pos" using succ_neq_self(2)[OF b pos] .
  have n0: "n_psl node \<noteq> 0" using swap by (metis word_not_simps(1))
  have p1: "psl_ok ?t bits ?m" using pslok npsl by (simp add: psl_ok_def)
  have p2: "rh_ok ?t ?m"
    unfolding rh_ok_def
  proof (intro allI impI)
    fix q assume q: "q \<le> ?m" "n_key (?t q) \<noteq> None" "n_psl (?t q) \<noteq> 0"
    show "n_key (?t ((q - 1) AND ?m)) \<noteq> None \<and> n_psl (?t q) - 1 \<le> n_psl (?t ((q - 1) AND ?m))"
    proof (cases "q = pos")
      case True
      with q nrh[OF n0] predne show ?thesis by simp
    next
      case False
      with q have occq: "n_key (tbl q) \<noteq> None" "n_psl (tbl q) \<noteq> 0" by simp_all
      with rh q(1) have r: "n_key (tbl ((q - 1) AND ?m)) \<noteq> None"
        "n_psl (tbl q) - 1 \<le> n_psl (tbl ((q - 1) AND ?m))" by (simp_all add: rh_ok_def)
      show ?thesis
      proof (cases "(q - 1) AND ?m = pos")
        case True
        with r(2) swap have "n_psl (tbl q) - 1 \<le> n_psl node" by simp
        with True False nk show ?thesis by simp
      next
        case False
        with r \<open>q \<noteq> pos\<close> show ?thesis by simp
      qed
    qed
  qed
  have p3: "keys_ok ?t ?m" using kok nok by (simp add: keys_ok_def)
  have nsym: "\<not> same_key cs node x" if "x = tbl q" "q \<le> ?m" "n_key (tbl q) \<noteq> None" for x q
    using same_key_sym[OF nok _ nk, of x cs] kok that ndist[of q] by (auto simp: keys_ok_def)
  have p4: "distinct_keys cs ?t ?m"
    unfolding distinct_keys_def
  proof (intro allI impI)
    fix p q assume h: "p \<le> ?m" "q \<le> ?m" "n_key (?t p) \<noteq> None" "n_key (?t q) \<noteq> None"
      "same_key cs (?t p) (?t q)"
    show "p = q"
    proof (cases "p = pos"; cases "q = pos")
      assume "p = pos" "q \<noteq> pos"
      with h nsym[of "tbl q" q] show ?thesis by simp
    next
      assume "p \<noteq> pos" "q = pos"
      with h ndist show ?thesis by simp
    next
      assume "p \<noteq> pos" "q \<noteq> pos"
      with h dk show ?thesis by (simp add: distinct_keys_def)
    qed simp
  qed
  have tok: "table_ok cs ?t bits ?m" using p1 p2 p3 p4 by (simp add: table_ok_def)
  have cpsl: "n_psl ?cur = (pos - isc_hash_bits32 (n_hashval ?cur) bits) AND ?m"
    using pslok pos occp by (simp add: psl_ok_def)
  have clt: "n_psl ?cur < ?m" using swap f(4) by simp
  note ps = psl_succ[OF cpsl clt]
  have cdist: "\<And>q. q \<le> ?m \<Longrightarrow> n_key (?t q) \<noteq> None \<Longrightarrow> \<not> same_key cs (?t q) ?cur"
  proof -
    fix q assume q: "q \<le> ?m" "n_key (?t q) \<noteq> None"
    show "\<not> same_key cs (?t q) ?cur"
    proof (cases "q = pos")
      case True
      then show ?thesis using nsym[of ?cur pos] pos occp by simp
    next
      case False
      with q dk pos occp show ?thesis by (auto simp: distinct_keys_def)
    qed
  qed
  have ah: "\<And>q. q \<le> ?m \<Longrightarrow> unat ((q - ?pos') AND ?m) \<le> unat ((e - ?pos') AND ?m) \<Longrightarrow>
           n_key (?t q) \<noteq> None \<Longrightarrow> \<not> hashmap_match (?t q) hashval key cs"
  proof -
    fix q assume q: "q \<le> ?m" "unat ((q - ?pos') AND ?m) \<le> unat ((e - ?pos') AND ?m)" "n_key (?t q) \<noteq> None"
    from ahead_succ[OF b pos add_invD(2)[OF inv] q(1) f(1) q(2)]
    have "q \<noteq> pos" "unat ((q - pos) AND ?m) \<le> unat ((e - pos) AND ?m)" by simp_all
    with add_invD(10)[OF inv q(1)] q(3) show "\<not> hashmap_match (?t q) hashval key cs" by simp
  qed
  have bound: "unat (n_psl ?cur + 1) + unat ((e - ?pos') AND ?m) \<le> unat ?m"
    using ps(2) f(2,3) add_invD(11)[OF inv] swap by (simp add: word_less_nat_alt)
  have rhc: "n_psl ?cur + 1 - 1 \<le> n_psl node" using swap by simp
  show "add_inv cs bits ?m e hashval key ?t (?cur\<lparr>n_psl := n_psl ?cur + 1\<rparr>) ?pos'"
  proof (rule add_invI)
    show "table_ok cs ?t bits ?m" by (rule tok)
    show "e \<le> ?m" by (rule add_invD(2)[OF inv])
    show "n_key (?t e) = None" using add_invD(3)[OF inv] f(1) by simp
    show "node_ok (?cur\<lparr>n_psl := n_psl ?cur + 1\<rparr>)" using cok by simp
    show "n_key (?cur\<lparr>n_psl := n_psl ?cur + 1\<rparr>) \<noteq> None" using occp by simp
    show "n_psl (?cur\<lparr>n_psl := n_psl ?cur + 1\<rparr>) =
          (?pos' - isc_hash_bits32 (n_hashval (?cur\<lparr>n_psl := n_psl ?cur + 1\<rparr>)) bits) AND ?m"
      using ps(1) by simp
    show "n_key (?t ((?pos' - 1) AND ?m)) \<noteq> None" using f(6) nk by simp
    show "n_psl (?cur\<lparr>n_psl := n_psl ?cur + 1\<rparr>) - 1 \<le> n_psl (?t ((?pos' - 1) AND ?m))"
      using f(6) rhc by simp
    show "\<And>q. q \<le> ?m \<Longrightarrow> n_key (?t q) \<noteq> None \<Longrightarrow>
           \<not> same_key cs (?t q) (?cur\<lparr>n_psl := n_psl ?cur + 1\<rparr>)"
      using cdist by simp
    show "\<And>q. q \<le> ?m \<Longrightarrow> unat ((q - ?pos') AND ?m) \<le> unat ((e - ?pos') AND ?m) \<Longrightarrow>
           n_key (?t q) \<noteq> None \<Longrightarrow> \<not> hashmap_match (?t q) hashval key cs"
      by (rule ah)
    show "unat (n_psl (?cur\<lparr>n_psl := n_psl ?cur + 1\<rparr>)) + unat ((e - ?pos') AND ?m) \<le> unat ?m"
      using bound by simp
  qed
  show "insert (strip ?cur) (entries ?t ?m) = insert (strip node) (entries tbl ?m)"
    using entries_upd[OF pos nk, of tbl] entries_split[of pos ?m tbl, OF pos occp] by auto
  show "occ ?t ?m = occ tbl ?m" using pos nk occp by (auto simp: occ_def)
qed

lemma add_loop_inv:
  assumes b: "0 < b"
  shows "add_inv cs bits (mask b) e hashval key tbl node ((hash + d) AND mask b) \<Longrightarrow>
    \<exists>tbl' q. hashmap_add_loop tbl (mask b) cs hashval key hash node d = Some (ISC_R_SUCCESS, tbl') \<and>
       table_ok cs tbl' bits (mask b) \<and>
       entries tbl' (mask b) = insert (strip node) (entries tbl (mask b)) \<and>
       q \<le> mask b \<and> n_key (tbl q) = None \<and> occ tbl' (mask b) = insert q (occ tbl (mask b))"
proof (induction "unat ((e - ((hash + d) AND mask b)) AND mask b)" arbitrary: tbl node d rule: less_induct)
  case less
  let ?m = "mask b :: 32 word"
  let ?pos = "(hash + d) AND ?m"
  let ?pos' = "(hash + (d + 1)) AND ?m"
  note inv = less.prems
  have pos: "?pos \<le> ?m" by (rule word_and_le1)
  have pos': "(?pos + 1) AND ?m = ?pos'"
  proof -
    have "(?pos + 1) AND ?m = ((hash + d) + 1) AND ?m" by (simp only: mask_eqs)
    then show ?thesis by (simp add: algebra_simps)
  qed
  show ?case
  proof (cases "n_key (tbl ?pos) = None")
    case True
    note pl = add_inv_place[OF inv b pos True]
    have "hashmap_add_loop tbl ?m cs hashval key hash node d = Some (ISC_R_SUCCESS, tbl(?pos := node))"
      by (subst hashmap_add_loop.simps) (simp add: Let_def True)
    with pl pos True show ?thesis by blast
  next
    case False
    note f = add_inv_occupied_facts[OF inv b pos False]
    have dec: "unat ((e - ?pos') AND ?m) < unat ((e - ?pos) AND ?m)"
      using f(2,3) by (simp add: pos')
    show ?thesis
    proof (cases "n_psl (tbl ?pos) < n_psl node")
      case True
      note sw = add_inv_swap[OF inv b pos False True]
      let ?t = "tbl(?pos := node)"
      let ?c = "(tbl ?pos)\<lparr>n_psl := n_psl (tbl ?pos) + 1\<rparr>"
      from less.hyps[OF dec, of ?t ?c] sw(1)
      obtain tbl' q where r: "hashmap_add_loop ?t ?m cs hashval key hash ?c (d + 1) = Some (ISC_R_SUCCESS, tbl')"
        "table_ok cs tbl' bits ?m" "entries tbl' ?m = insert (strip ?c) (entries ?t ?m)"
        "q \<le> ?m" "n_key (?t q) = None" "occ tbl' ?m = insert q (occ ?t ?m)"
        by (auto simp: pos')
      have step: "hashmap_add_loop tbl ?m cs hashval key hash node d =
                  hashmap_add_loop ?t ?m cs hashval key hash ?c (d + 1)"
        by (subst hashmap_add_loop.simps) (simp add: Let_def False f(5) True)
      have qn: "n_key (tbl q) = None" using r(5) add_invD(5)[OF inv] by (cases "q = ?pos") auto
      have "entries tbl' ?m = insert (strip node) (entries tbl ?m)" using r(3) sw(2) by simp
      moreover have "occ tbl' ?m = insert q (occ tbl ?m)" using r(6) sw(3) by simp
      ultimately show ?thesis using step r(1,2,4) qn by auto
    next
      case False
      note kp = add_inv_keep[OF inv b pos \<open>n_key (tbl ?pos) \<noteq> None\<close> False]
      let ?c = "node\<lparr>n_psl := n_psl node + 1\<rparr>"
      from less.hyps[OF dec, of tbl ?c] kp
      obtain tbl' q where r: "hashmap_add_loop tbl ?m cs hashval key hash ?c (d + 1) = Some (ISC_R_SUCCESS, tbl')"
        "table_ok cs tbl' bits ?m" "entries tbl' ?m = insert (strip ?c) (entries tbl ?m)"
        "q \<le> ?m" "n_key (tbl q) = None" "occ tbl' ?m = insert q (occ tbl ?m)"
        by (auto simp: pos')
      have step: "hashmap_add_loop tbl ?m cs hashval key hash node d =
                  hashmap_add_loop tbl ?m cs hashval key hash ?c (d + 1)"
        by (subst hashmap_add_loop.simps) (simp add: Let_def \<open>n_key (tbl ?pos) \<noteq> None\<close> f(5) False)
      show ?thesis using step r by auto
    qed
  qed
qed

lemma add_loop_new:
  assumes b: "0 < b" and ok: "table_ok cs tbl bits (mask b)" and room: "has_room tbl (mask b)"
    and nomatch: "\<not> in_table cs tbl (mask b) hashval key"
    and node: "node_ok node" "n_key node = Some key" "n_hashval node = hashval" "n_psl node = 0"
  shows "\<exists>tbl' q. hashmap_add_loop tbl (mask b) cs hashval key (isc_hash_bits32 hashval bits) node 0 =
           Some (ISC_R_SUCCESS, tbl') \<and>
       table_ok cs tbl' bits (mask b) \<and>
       entries tbl' (mask b) = insert (strip node) (entries tbl (mask b)) \<and>
       q \<le> mask b \<and> n_key (tbl q) = None \<and> occ tbl' (mask b) = insert q (occ tbl (mask b))"
proof -
  let ?m = "mask b :: 32 word"
  let ?h = "isc_hash_bits32 hashval bits"
  from room obtain e where e: "e \<le> ?m" "n_key (tbl e) = None" by (auto simp: has_room_def)
  have "add_inv cs bits ?m e hashval key tbl node ((?h + 0) AND ?m)"
  proof (rule add_invI)
    show "table_ok cs tbl bits ?m" by (rule ok)
    show "e \<le> ?m" "n_key (tbl e) = None" by (rule e)+
    show "node_ok node" by (rule node(1))
    show "n_key node \<noteq> None" using node(2) by simp
    have "((?h AND ?m) - ?h) AND ?m = (?h - ?h) AND ?m" by (simp only: mask_eqs)
    then show "n_psl node = (((?h + 0) AND ?m) - isc_hash_bits32 (n_hashval node) bits) AND ?m"
      using node(3,4) by simp
    show "n_psl node \<noteq> 0 \<Longrightarrow> n_key (tbl ((((?h + 0) AND ?m) - 1) AND ?m)) \<noteq> None"
      using node(4) by simp
    show "n_psl node \<noteq> 0 \<Longrightarrow> n_psl node - 1 \<le> n_psl (tbl ((((?h + 0) AND ?m) - 1) AND ?m))"
      using node(4) by simp
    show "\<And>q. q \<le> ?m \<Longrightarrow> n_key (tbl q) \<noteq> None \<Longrightarrow> \<not> same_key cs (tbl q) node"
      using nomatch node(2,3) by (auto simp: in_table_def same_key_def)
    show "\<And>q. q \<le> ?m \<Longrightarrow> unat ((q - ((?h + 0) AND ?m)) AND ?m) \<le> unat ((e - ((?h + 0) AND ?m)) AND ?m) \<Longrightarrow>
           n_key (tbl q) \<noteq> None \<Longrightarrow> \<not> hashmap_match (tbl q) hashval key cs"
      using nomatch by (auto simp: in_table_def)
    have "(e - ((?h + 0) AND ?m)) AND ?m \<le> ?m" by (rule word_and_le1)
    then show "unat (n_psl node) + unat ((e - ((?h + 0) AND ?m)) AND ?m) \<le> unat ?m"
      using node(4) by (simp add: word_le_nat_alt)
  qed
  from add_loop_inv[OF b this] show ?thesis by simp
qed

lemma add_loop_hit:
  assumes ok: "table_ok cs tbl bits (mask b)"
    and p: "p \<le> mask b" "n_key (tbl p) \<noteq> None" "hashmap_match (tbl p) hashval key cs"
  shows "unat d \<le> unat (n_psl (tbl p)) \<Longrightarrow> n_psl node = d \<Longrightarrow>
         hashmap_add_loop tbl (mask b) cs hashval key (isc_hash_bits32 hashval bits) node d =
           Some (ISC_R_EXISTS, tbl)"
proof (induction "unat (n_psl (tbl p)) - unat d" arbitrary: d node)
  case 0
  then have d: "d = n_psl (tbl p)" by (simp add: word_unat_eq_iff)
  have hv: "n_hashval (tbl p) = hashval" using p(3) by (simp add: hashmap_match_def)
  have pos: "(isc_hash_bits32 hashval bits + n_psl (tbl p)) AND mask b = p"
    using psl_ok_pos[of tbl bits b p] ok p hv by (simp add: table_ok_def)
  show ?case unfolding d
    by (subst hashmap_add_loop.simps) (simp add: pos Let_def p)
next
  case (Suc n)
  let ?s = "n_psl (tbl p)"
  let ?h = "isc_hash_bits32 hashval bits"
  have hv: "n_hashval (tbl p) = hashval" using p(3) by (simp add: hashmap_match_def)
  note pslok = table_okD(1)[OF ok] and rh = table_okD(2)[OF ok]
    and kok = table_okD(3)[OF ok] and dk = table_okD(4)[OF ok]
  from Suc.hyps(2) have lt: "unat d < unat ?s" by simp
  then have dle: "d \<le> ?s" and dne: "d \<noteq> ?s" by (auto simp: word_le_nat_alt)
  let ?j = "?s - d"
  have uj: "unat ?j = unat ?s - unat d" using dle by (rule unat_sub)
  then have jle: "unat ?j \<le> unat ?s" by simp
  have j0: "?j \<noteq> 0" using dne by simp
  have sm: "?s \<le> mask b" using pslok p(1,2) by (rule psl_ok_le)
  have jm: "?j \<le> mask b" using jle sm by (simp add: word_le_nat_alt)
  let ?pos = "(?h + d) AND mask b"
  have "(?h + ?s) AND mask b = p" using psl_ok_pos[OF pslok p(1,2)] hv by simp
  then have "(((?h + ?s) AND mask b) - ?j) AND mask b = (p - ?j) AND mask b" by simp
  then have poseq: "?pos = (p - ?j) AND mask b" by (simp add: mask_eqs)
  from rh_chain[OF rh p(1,2) jle]
  have occ: "n_key (tbl ?pos) \<noteq> None" and ge: "?s - ?j \<le> n_psl (tbl ?pos)"
    by (simp_all add: poseq)
  then have ge': "\<not> n_psl (tbl ?pos) < n_psl node" using Suc.prems(2) by (simp add: not_less)
  have posne: "?pos \<noteq> p" using sub_mask_neq[OF jm j0, of p] p(1) by (simp add: poseq le_mask_and)
  have posm: "?pos \<le> mask b" by (rule word_and_le1)
  have nomatch: "\<not> hashmap_match (tbl ?pos) hashval key cs"
  proof
    assume m: "hashmap_match (tbl ?pos) hashval key cs"
    have "same_key cs (tbl ?pos) (tbl p)"
      using match_same_key[OF _ occ _ p(2) m p(3)] kok posm p(1) by (simp add: keys_ok_def)
    with dk posm p(1) occ p(2) have "?pos = p" by (simp add: distinct_keys_def)
    with posne show False by simp
  qed
  have ud1: "unat (d + 1) = unat d + 1" using unat_inc[of d ?s] lt by (simp add: word_less_nat_alt)
  have IH: "hashmap_add_loop tbl (mask b) cs hashval key ?h (node\<lparr>n_psl := n_psl node + 1\<rparr>) (d + 1) =
            Some (ISC_R_EXISTS, tbl)"
    using Suc.hyps(1)[of "d + 1" "node\<lparr>n_psl := n_psl node + 1\<rparr>"] Suc.hyps(2) Suc.prems(2) ud1 lt by simp
  show ?case
    by (subst hashmap_add_loop.simps) (simp add: Let_def occ ge' nomatch IH)
qed

subsection \<open>The backward shift of delete on a table\<close>

lemma rh_ok_at: "rh_ok tbl m = (\<forall>p. p \<le> m \<longrightarrow> rh_at tbl m p)"
  unfolding rh_ok_def rh_at_def by blast

lemma del_invD:
  assumes "del_inv cs bits m tbl e"
  shows "e \<le> m" "n_key (tbl e) = None" "psl_ok tbl bits m" "keys_ok tbl m" "distinct_keys cs tbl m"
    "\<And>p. p \<le> m \<Longrightarrow> p \<noteq> (e + 1) AND m \<Longrightarrow> rh_at tbl m p"
    "n_key (tbl ((e + 1) AND m)) \<noteq> None \<Longrightarrow> 2 \<le> n_psl (tbl ((e + 1) AND m)) \<Longrightarrow>
       n_key (tbl ((e - 1) AND m)) \<noteq> None"
    "n_key (tbl ((e + 1) AND m)) \<noteq> None \<Longrightarrow> 2 \<le> n_psl (tbl ((e + 1) AND m)) \<Longrightarrow>
       n_psl (tbl ((e + 1) AND m)) - 2 \<le> n_psl (tbl ((e - 1) AND m))"
  using assms unfolding del_inv_def by blast+

lemma del_invI:
  assumes "e \<le> m" "n_key (tbl e) = None" "psl_ok tbl bits m" "keys_ok tbl m" "distinct_keys cs tbl m"
    "\<And>p. p \<le> m \<Longrightarrow> p \<noteq> (e + 1) AND m \<Longrightarrow> rh_at tbl m p"
    "n_key (tbl ((e + 1) AND m)) \<noteq> None \<Longrightarrow> 2 \<le> n_psl (tbl ((e + 1) AND m)) \<Longrightarrow>
       n_key (tbl ((e - 1) AND m)) \<noteq> None"
    "n_key (tbl ((e + 1) AND m)) \<noteq> None \<Longrightarrow> 2 \<le> n_psl (tbl ((e + 1) AND m)) \<Longrightarrow>
       n_psl (tbl ((e + 1) AND m)) - 2 \<le> n_psl (tbl ((e - 1) AND m))"
  shows "del_inv cs bits m tbl e"
  using assms unfolding del_inv_def by blast

lemma rh_atD:
  assumes "rh_at tbl m p" "n_key (tbl p) \<noteq> None" "n_psl (tbl p) \<noteq> 0"
  shows "n_key (tbl ((p - 1) AND m)) \<noteq> None" "n_psl (tbl p) - 1 \<le> n_psl (tbl ((p - 1) AND m))"
  using assms unfolding rh_at_def by blast+

lemma pred_succ_mask:
  fixes p :: "'a::len word"
  shows "(((p - 1) AND mask b) + 1) AND mask b = p AND mask b"
proof -
  have "(((p - 1) AND mask b) + 1) AND mask b = (p - 1 + 1) AND mask b" by (simp only: mask_eqs)
  then show ?thesis by simp
qed

lemma two_le_word:
  fixes t :: "32 word"
  assumes "2 \<le> t"
  shows "t \<noteq> 0" "t - 1 \<noteq> 0" "2 \<le> unat t" "unat (t - 1) = unat t - 1" "unat (t - 2) = unat t - 2"
proof -
  from assms have u: "unat (2 :: 32 word) \<le> unat t" by (simp only: word_le_nat_alt)
  then show u2: "2 \<le> unat t" by simp
  then show t0: "t \<noteq> 0" by (auto simp: unat_eq_zero)
  show u1: "unat (t - 1) = unat t - 1" using t0 by (rule unat_dec)
  then show "t - 1 \<noteq> 0" using u2 by (auto simp: unat_eq_zero)
  show "unat (t - 2) = unat t - 2" using unat_sub[OF assms] by simp
qed

lemma zero_node_simps [simp]:
  "n_key zero_node = None" "n_psl zero_node = 0" "node_ok zero_node"
  by (simp_all add: zero_node_def node_ok_def)

lemma succ_succ_neq:
  fixes e :: "32 word"
  assumes "2 \<le> (mask b :: 32 word)" "e \<le> mask b"
  shows "(((e + 1) AND mask b) + 1) AND mask b \<noteq> e"
proof
  assume eq: "(((e + 1) AND mask b) + 1) AND mask b = e"
  have "(((e + 1) AND mask b) + 1) AND mask b = (e + 2) AND mask b"
    by (simp only: mask_eqs) (simp add: algebra_simps)
  with eq have "(e + 2) AND mask b = e AND mask b" using assms(2) by (simp add: le_mask_and)
  then have "((e + 2) AND mask b) - e AND mask b = (e AND mask b) - e AND mask b" by simp
  then have "(e + 2 - e) AND mask b = (e - e) AND mask b" by (simp only: mask_eqs)
  then have "(2 :: 32 word) AND mask b = 0" by simp
  with assms(1) show False by (simp add: le_mask_and)
qed

lemma del_inv_shift:
  assumes inv: "del_inv cs bits (mask b) U e" and b: "0 < b"
    and e': "e' = (e + 1) AND mask b"
    and occ': "n_key (U e') \<noteq> None" and t0: "n_psl (U e') \<noteq> 0"
    and n': "n' = (U e')\<lparr>n_psl := n_psl (U e') - 1\<rparr>"
    and U': "U' = U(e := n', e' := zero_node)"
  shows "del_inv cs bits (mask b) U' e'"
proof -
  let ?m = "mask b :: 32 word"
  note le = del_invD(1)[OF inv] and emp = del_invD(2)[OF inv] and pslok = del_invD(3)[OF inv]
    and kok = del_invD(4)[OF inv] and dk = del_invD(5)[OF inv]
  have e'm: "e' \<le> ?m" unfolding e' by (rule word_and_le1)
  have ne: "e' \<noteq> e" unfolding e' by (rule succ_neq_self(1)[OF b le])
  have pe: "(e' - 1) AND ?m = e" unfolding e' using succ_pred_mask[of e b] le by (simp add: le_mask_and)
  have kn': "n_key n' \<noteq> None" using occ' by (simp add: n')
  have tm: "n_psl (U e') \<le> ?m" using pslok e'm occ' by (rule psl_ok_le)
  have U'e: "U' e = n'" using ne by (simp add: U')
  have U'e': "U' e' = zero_node" by (simp add: U')
  have U'o: "\<And>p. p \<noteq> e \<Longrightarrow> p \<noteq> e' \<Longrightarrow> U' p = U p" by (simp add: U')
  have occ_U': "\<And>p. n_key (U' p) \<noteq> None \<Longrightarrow> p \<noteq> e'" using U'e' by auto
  show ?thesis
  proof (rule del_invI)
    show "e' \<le> ?m" by (rule e'm)
    show "n_key (U' e') = None" by (simp add: U'e')
    show "psl_ok U' bits ?m"
      unfolding psl_ok_def
    proof (intro allI impI)
      fix p assume p: "p \<le> ?m" "n_key (U' p) \<noteq> None"
      then have pne: "p \<noteq> e'" using occ_U' by blast
      show "n_psl (U' p) = (p - isc_hash_bits32 (n_hashval (U' p)) bits) AND ?m"
      proof (cases "p = e")
        case True
        let ?h = "isc_hash_bits32 (n_hashval (U e')) bits"
        have t: "n_psl (U e') = (e' - ?h) AND ?m" using pslok e'm occ' by (simp add: psl_ok_def)
        have "(e' - ?h - 1) AND ?m = ((e' - ?h) AND ?m) - 1" using t0 t by (intro dec_mask) simp
        moreover have "(e' - ?h - 1) AND ?m = (e - ?h) AND ?m"
        proof -
          have "(e' - ?h - 1) AND ?m = ((e' - 1) - ?h) AND ?m" by (simp add: algebra_simps)
          also have "\<dots> = (((e' - 1) AND ?m) - ?h) AND ?m" by (simp only: mask_eqs)
          finally show ?thesis by (simp only: pe)
        qed
        ultimately have "n_psl (U e') - 1 = (e - ?h) AND ?m" using t by simp
        then show ?thesis using True U'e by (simp add: n')
      next
        case False
        then show ?thesis using p pne pslok by (simp add: U'o psl_ok_def)
      qed
    qed
    show "keys_ok U' ?m"
      unfolding keys_ok_def
    proof (intro allI impI)
      fix p assume p: "p \<le> ?m"
      have "node_ok (U e')" using kok e'm by (simp add: keys_ok_def)
      then have "node_ok n'" by (simp add: n')
      then show "node_ok (U' p)" using kok p by (cases "p = e"; cases "p = e'") (simp_all add: U'e U'e' U'o keys_ok_def)
    qed
    show "distinct_keys cs U' ?m"
      unfolding distinct_keys_def
    proof (intro allI impI)
      fix p q assume pq: "p \<le> ?m" "q \<le> ?m" "n_key (U' p) \<noteq> None" "n_key (U' q) \<noteq> None"
        and sk: "same_key cs (U' p) (U' q)"
      let ?f = "\<lambda>p. if p = e then e' else p"
      have pe': "p \<noteq> e'" "q \<noteq> e'" using pq occ_U' by blast+
      have fm: "?f p \<le> ?m" "?f q \<le> ?m" using pq e'm by auto
      have up: "n_key (U (?f p)) \<noteq> None \<and> same_key cs (U' p) = same_key cs (U (?f p))"
        using pq(3) pe'(1) occ' by (cases "p = e") (simp_all add: U'e U'o n' fun_eq_iff)
      have uq: "n_key (U (?f q)) \<noteq> None \<and> (\<forall>x. same_key cs x (U' q) = same_key cs x (U (?f q)))"
        using pq(4) pe'(2) occ' by (cases "q = e") (simp_all add: U'e U'o n')
      from sk up uq have "same_key cs (U (?f p)) (U (?f q))" by simp
      with dk fm up uq have "?f p = ?f q" unfolding distinct_keys_def by blast
      then show "p = q" using pe' by (auto split: if_splits)
    qed
  next
    fix p assume p: "p \<le> ?m" "p \<noteq> (e' + 1) AND ?m"
    show "rh_at U' ?m p"
    proof (cases "p = e'")
      case True
      then show ?thesis by (simp add: rh_at_def U'e')
    next
      case pne': False
      show ?thesis
      proof (cases "p = e")
        case True
        show ?thesis unfolding rh_at_def True U'e
        proof (intro impI)
          assume nz: "n_psl n' \<noteq> 0"
          then have t1: "n_psl (U e') - 1 \<noteq> 0" by (simp add: n')
          have one: "1 \<le> n_psl (U e')" using t0 by (rule one_le_word)
          have "n_psl (U e') \<noteq> 1" using t1 by auto
          then have "unat (n_psl (U e')) \<noteq> 1" by (simp add: word_unat_eq_iff)
          moreover have "unat (n_psl (U e')) \<noteq> 0" using t0 by (simp add: unat_eq_zero)
          ultimately have "unat (2 :: 32 word) \<le> unat (n_psl (U e'))" by simp
          then have two: "2 \<le> n_psl (U e')" by (simp only: word_le_nat_alt)
          have two': "2 \<le> n_psl (U ((e + 1) AND ?m))" and occ'': "n_key (U ((e + 1) AND ?m)) \<noteq> None"
            using two occ' by (simp_all add: e')
          note d = del_invD(7,8)[OF inv occ'' two']
          have m2: "2 \<le> ?m" using two tm by simp
          have "((e - 1) AND ?m) \<noteq> e'"
          proof
            assume "(e - 1) AND ?m = e'"
            then have "(((e - 1) AND ?m) + 1) AND ?m = (e' + 1) AND ?m" by simp
            moreover have "(((e - 1) AND ?m) + 1) AND ?m = e" using pred_succ_mask[of e b] le by (simp add: le_mask_and)
            ultimately have "(e' + 1) AND ?m = e" by simp
            then have "(((e + 1) AND ?m) + 1) AND ?m = e" unfolding e' .
            with succ_succ_neq[OF m2 le] show False by blast
          qed
          moreover have "((e - 1) AND ?m) \<noteq> e" by (rule succ_neq_self(2)[OF b le])
          ultimately have same: "U' ((e - 1) AND ?m) = U ((e - 1) AND ?m)" by (simp add: U'o)
          have eq: "n_psl n' - 1 = n_psl (U ((e + 1) AND ?m)) - 2" by (simp add: n' e')
          show "n_key (U' ((e - 1) AND ?m)) \<noteq> None \<and> n_psl n' - 1 \<le> n_psl (U' ((e - 1) AND ?m))"
            using d unfolding same eq by blast
        qed
      next
        case False
        have pne: "p \<noteq> (e + 1) AND ?m" using pne' by (simp add: e')
        note r = del_invD(6)[OF inv p(1) pne]
        show ?thesis unfolding rh_at_def
        proof (intro impI)
          assume o: "n_key (U' p) \<noteq> None" and z: "n_psl (U' p) \<noteq> 0"
          then have o': "n_key (U p) \<noteq> None" and z': "n_psl (U p) \<noteq> 0" using False pne' by (simp_all add: U'o)
          note rr = rh_atD[OF r o' z']
          have "(p - 1) AND ?m \<noteq> e" using rr(1) emp by auto
          moreover have "(p - 1) AND ?m \<noteq> e'"
          proof
            assume "(p - 1) AND ?m = e'"
            then have "(((p - 1) AND ?m) + 1) AND ?m = (e' + 1) AND ?m" by simp
            moreover have "(((p - 1) AND ?m) + 1) AND ?m = p" using pred_succ_mask[of p b] p(1) by (simp add: le_mask_and)
            ultimately have "p = (e' + 1) AND ?m" by simp
            with p(2) show False by blast
          qed
          ultimately have "U' ((p - 1) AND ?m) = U ((p - 1) AND ?m)" by (simp add: U'o)
          then show "n_key (U' ((p - 1) AND ?m)) \<noteq> None \<and> n_psl (U' p) - 1 \<le> n_psl (U' ((p - 1) AND ?m))"
            using rr False pne' by (simp add: U'o)
        qed
      qed
    qed
  next
    let ?s = "(e' + 1) AND ?m"
    assume o: "n_key (U' ?s) \<noteq> None" and two: "2 \<le> n_psl (U' ?s)"
    have sm: "?s \<le> ?m" by (rule word_and_le1)
    have sne': "?s \<noteq> e'" by (rule succ_neq_self(1)[OF b e'm])
    have goal: "n_psl (U' ?s) - 2 \<le> n_psl n'"
    proof (cases "?s = e")
      case True
      then have "U' ?s = n'" by (simp add: U'e)
      moreover have "n_psl n' - 2 \<le> n_psl n'"
        using two_le_word(3,5)[OF two] by (simp add: word_le_nat_alt \<open>U' ?s = n'\<close>)
      ultimately show ?thesis by simp
    next
      case False
      then have same: "U' ?s = U ?s" using sne' by (simp add: U'o)
      have sne: "?s \<noteq> (e + 1) AND ?m" using sne' by (simp add: e')
      note r = del_invD(6)[OF inv sm sne]
      have o': "n_key (U ?s) \<noteq> None" and z': "n_psl (U ?s) \<noteq> 0"
        using o two two_le_word(1)[OF two] by (simp_all add: same)
      have ps: "(?s - 1) AND ?m = e'" using succ_pred_mask[of e' b] e'm by (simp add: le_mask_and)
      from rh_atD(2)[OF r o' z'] have c: "n_psl (U ?s) - 1 \<le> n_psl (U e')" by (simp add: ps)
      have two'': "2 \<le> n_psl (U ?s)" using two by (simp add: same)
      have "unat (n_psl (U ?s)) - 1 \<le> unat (n_psl (U e'))"
        using c two_le_word(4)[OF two''] by (simp add: word_le_nat_alt)
      then have "unat (n_psl (U ?s)) - 2 \<le> unat (n_psl (U e')) - 1" by simp
      then have "unat (n_psl (U ?s) - 2) \<le> unat (n_psl (U e') - 1)"
        using two_le_word(5)[OF two''] unat_dec[OF t0] by simp
      then show ?thesis by (simp add: word_le_nat_alt same n')
    qed
    show "n_key (U' ((e' - 1) AND ?m)) \<noteq> None" using kn' by (simp add: pe U'e)
    show "n_psl (U' ?s) - 2 \<le> n_psl (U' ((e' - 1) AND ?m))" using goal by (simp add: pe U'e)
  qed
qed

lemma del_inv_init:
  assumes ok: "table_ok cs T bits (mask b)" and b: "0 < b"
    and e: "e \<le> mask b" "n_key (T e) \<noteq> None"
  shows "del_inv cs bits (mask b) (T(e := zero_node)) e"
proof -
  let ?m = "mask b :: 32 word"
  let ?U = "T(e := zero_node)"
  note pslok = table_okD(1)[OF ok] and rh = table_okD(2)[OF ok]
    and kok = table_okD(3)[OF ok] and dk = table_okD(4)[OF ok]
  have rhat: "\<And>p. p \<le> ?m \<Longrightarrow> rh_at T ?m p" using rh by (simp add: rh_ok_at)
  have pe: "(e - 1) AND ?m \<noteq> e" and se: "(e + 1) AND ?m \<noteq> e" using succ_neq_self[OF b e(1)] by blast+
  show ?thesis
  proof (rule del_invI)
    show "e \<le> ?m" by (rule e)
    show "n_key (?U e) = None" by simp
    show "psl_ok ?U bits ?m" using pslok unfolding psl_ok_def by simp
    show "keys_ok ?U ?m" using kok unfolding keys_ok_def by simp
    show "distinct_keys cs ?U ?m" using dk unfolding distinct_keys_def by simp
  next
    fix p assume p: "p \<le> ?m" "p \<noteq> (e + 1) AND ?m"
    show "rh_at ?U ?m p"
    proof (cases "p = e")
      case True then show ?thesis by (simp add: rh_at_def)
    next
      case False
      have "(p - 1) AND ?m \<noteq> e"
      proof
        assume "(p - 1) AND ?m = e"
        then have "(((p - 1) AND ?m) + 1) AND ?m = (e + 1) AND ?m" by simp
        moreover have "(((p - 1) AND ?m) + 1) AND ?m = p" using pred_succ_mask[of p b] p(1) by (simp add: le_mask_and)
        ultimately have "p = (e + 1) AND ?m" by simp
        with p(2) show False by blast
      qed
      then show ?thesis using rhat[OF p(1)] False by (simp add: rh_at_def)
    qed
  next
    let ?s = "(e + 1) AND ?m"
    assume o: "n_key (?U ?s) \<noteq> None" and two: "2 \<le> n_psl (?U ?s)"
    have sm: "?s \<le> ?m" by (rule word_and_le1)
    have o': "n_key (T ?s) \<noteq> None" and two': "2 \<le> n_psl (T ?s)" using o two se by simp_all
    have ps: "(?s - 1) AND ?m = e" using succ_pred_mask[of e b] e(1) by (simp add: le_mask_and)
    from rh_atD(2)[OF rhat[OF sm] o' two_le_word(1)[OF two']]
    have c: "n_psl (T ?s) - 1 \<le> n_psl (T e)" by (simp add: ps)
    then have c': "unat (n_psl (T ?s)) - 1 \<le> unat (n_psl (T e))"
      using two_le_word(4)[OF two'] by (simp add: word_le_nat_alt)
    then have "unat (n_psl (T e)) \<noteq> 0" using two_le_word(3)[OF two'] by simp
    then have z: "n_psl (T e) \<noteq> 0" by (simp add: unat_eq_zero)
    note r = rh_atD[OF rhat[OF e(1)] e(2) z]
    have "unat (n_psl (T e)) - 1 \<le> unat (n_psl (T ((e - 1) AND ?m)))"
      using r(2) unat_dec[OF z] by (simp add: word_le_nat_alt)
    with c' have "unat (n_psl (T ?s)) - 2 \<le> unat (n_psl (T ((e - 1) AND ?m)))" by simp
    then have g: "n_psl (T ?s) - 2 \<le> n_psl (T ((e - 1) AND ?m))"
      using two_le_word(5)[OF two'] by (simp add: word_le_nat_alt)
    show "n_key (?U ((e - 1) AND ?m)) \<noteq> None" using r(1) pe by simp
    show "n_psl (?U ?s) - 2 \<le> n_psl (?U ((e - 1) AND ?m))" using g pe se by simp
  qed
qed

lemma del_inv_stop:
  assumes inv: "del_inv cs bits (mask b) U e"
    and stop: "n_key (U ((e + 1) AND mask b)) = None \<or> n_psl (U ((e + 1) AND mask b)) = 0"
  shows "table_ok cs U bits (mask b)"
proof -
  have "\<And>p. p \<le> mask b \<Longrightarrow> rh_at U (mask b) p"
  proof -
    fix p :: "32 word" assume p: "p \<le> mask b"
    show "rh_at U (mask b) p"
    proof (cases "p = (e + 1) AND mask b")
      case True then show ?thesis using stop by (auto simp: rh_at_def)
    next
      case False then show ?thesis using del_invD(6)[OF inv p] by blast
    qed
  qed
  then have "rh_ok U (mask b)" by (simp add: rh_ok_at)
  then show ?thesis using del_invD(3,4,5)[OF inv] by (simp add: table_ok_def)
qed

lemma finite_le_word [simp]: "finite {p :: 'a::len word. P p}"
  by simp

lemma psl_sum_upd:
  assumes "p \<le> m"
  shows "psl_sum (tbl(p := x)) m + wt (tbl p) = psl_sum tbl m + wt x"
proof -
  let ?S = "{q. q \<le> m}"
  have fin: "finite ?S" by simp
  have pin: "p \<in> ?S" using assms by simp
  have a: "psl_sum (tbl(p := x)) m = wt x + sum (\<lambda>q. wt ((tbl(p := x)) q)) (?S - {p})"
    unfolding psl_sum_def using sum.remove[OF fin pin, of "\<lambda>q. wt ((tbl(p := x)) q)"] by simp
  have b: "psl_sum tbl m = wt (tbl p) + sum (\<lambda>q. wt (tbl q)) (?S - {p})"
    unfolding psl_sum_def using sum.remove[OF fin pin, of "\<lambda>q. wt (tbl q)"] by simp
  have "sum (\<lambda>q. wt ((tbl(p := x)) q)) (?S - {p}) = sum (\<lambda>q. wt (tbl q)) (?S - {p})"
    by (rule sum.cong) auto
  with a b show ?thesis by simp
qed

lemma shift_measure:
  assumes le: "e \<le> m" "e' \<le> m" and ne: "e' \<noteq> e"
    and emp: "n_key (U e) = None" and occ': "n_key (U e') \<noteq> None" and t0: "n_psl (U e') \<noteq> 0"
  shows "psl_sum (U(e := (U e')\<lparr>n_psl := n_psl (U e') - 1\<rparr>, e' := zero_node)) m < psl_sum U m"
proof -
  let ?n' = "(U e')\<lparr>n_psl := n_psl (U e') - 1\<rparr>"
  let ?U1 = "U(e := ?n')"
  have w0: "wt (U e) = 0" using emp by (simp add: wt_def)
  have w1: "wt ?n' = unat (n_psl (U e')) - 1" using occ' unat_dec[OF t0] by (auto simp: wt_def)
  have w2: "wt (U e') = unat (n_psl (U e'))" using occ' by (auto simp: wt_def)
  have pos: "0 < unat (n_psl (U e'))" using t0 by (simp add: unat_gt_0)
  have "psl_sum ?U1 m + wt (U e) = psl_sum U m + wt ?n'" by (rule psl_sum_upd[OF le(1)])
  moreover have "psl_sum (?U1(e' := zero_node)) m + wt (?U1 e') = psl_sum ?U1 m + wt (zero_node :: 'a hashmap_node)"
    by (rule psl_sum_upd[OF le(2)])
  moreover have "wt (?U1 e') = wt (U e')" using ne by simp
  moreover have "wt (zero_node :: 'a hashmap_node) = 0" by (simp add: wt_def)
  ultimately show ?thesis using w0 w1 w2 pos by simp
qed

lemma shift_entries:
  assumes le: "e \<le> m" "e' \<le> m" and ne: "e' \<noteq> e"
    and emp: "n_key (U e) = None" and occ': "n_key (U e') \<noteq> None"
  shows "entries (U(e := (U e')\<lparr>n_psl := a\<rparr>, e' := zero_node)) m = entries U m"
    and "card (occ (U(e := (U e')\<lparr>n_psl := a\<rparr>, e' := zero_node)) m) = card (occ U m)"
    and "insert e' (occ (U(e := (U e')\<lparr>n_psl := a\<rparr>, e' := zero_node)) m) = insert e (occ U m)"
proof -
  let ?n' = "(U e')\<lparr>n_psl := a\<rparr>"
  let ?U' = "U(e := ?n', e' := zero_node)"
  have kn: "n_key ?n' \<noteq> None" using occ' by simp
  show "entries ?U' m = entries U m"
  proof (rule set_eqI, rule iffI)
    fix x assume "x \<in> entries ?U' m"
    then obtain p where p: "p \<le> m" "n_key (?U' p) \<noteq> None" "x = strip (?U' p)"
      by (auto simp: entries_def)
    then have pne: "p \<noteq> e'" by auto
    show "x \<in> entries U m"
    proof (cases "p = e")
      case True
      then have "x = strip (U e')" using p(3) ne by simp
      then show ?thesis using le(2) occ' by (auto simp: entries_def)
    next
      case False
      then have "x = strip (U p)" "n_key (U p) \<noteq> None" using p pne by simp_all
      then show ?thesis using p(1) by (auto simp: entries_def)
    qed
  next
    fix x assume "x \<in> entries U m"
    then obtain p where p: "p \<le> m" "n_key (U p) \<noteq> None" "x = strip (U p)"
      by (auto simp: entries_def)
    then have pne: "p \<noteq> e" using emp by auto
    show "x \<in> entries ?U' m"
    proof (cases "p = e'")
      case True
      then have "x = strip (?U' e)" "n_key (?U' e) \<noteq> None" using p ne by simp_all
      then show ?thesis using le(1) unfolding entries_def by blast
    next
      case False
      then have "x = strip (?U' p)" "n_key (?U' p) \<noteq> None" using p pne by simp_all
      then show ?thesis using p(1) unfolding entries_def by blast
    qed
  qed
  have o: "occ ?U' m = insert e (occ U m - {e'})"
    using le ne kn by (auto simp: occ_def)
  have fin: "finite (occ U m)" by (simp add: occ_def)
  have en: "e \<notin> occ U m - {e'}" using emp by (simp add: occ_def)
  have e'in: "e' \<in> occ U m" using le(2) occ' by (simp add: occ_def)
  have "card (insert e (occ U m - {e'})) = Suc (card (occ U m - {e'}))"
    using fin en by (intro card_insert_disjoint) simp_all
  also have "card (occ U m - {e'}) = card (occ U m) - 1" using e'in by (rule card_Diff_singleton)
  also have "Suc (card (occ U m) - 1) = card (occ U m)"
    using e'in fin card_gt_0_iff[of "occ U m"] by auto
  finally show "card (occ ?U' m) = card (occ U m)" unfolding o .
  show "insert e' (occ ?U' m) = insert e (occ U m)" unfolding o using e'in by auto
qed

lemma unat_ucast_32_64: "unat (ucast (p :: 32 word) :: 64 word) = unat p"
proof -
  have "unat p < 2 ^ 32" using unsigned_less[of p] by simp
  then have "unat p < 2 ^ 64" by simp
  then show ?thesis by (simp add: unsigned_ucast_eq take_bit_nat_eq_self_iff)
qed

lemma ucast_lt_hashsize:
  assumes "b \<le> 32" "p \<le> (mask b :: 32 word)"
  shows "(ucast p :: 64 word) < push_bit b 1"
proof -
  have "unat p \<le> unat (mask b :: 32 word)" using assms(2) by (simp add: word_le_nat_alt)
  also have "\<dots> = 2 ^ b - 1" using assms(1) by (simp add: unat_mask_le)
  finally have "unat p < 2 ^ b" by (simp add: less_eq_Suc_le[symmetric] le_diff_conv2 Suc_le_eq) 
  moreover have "unat (ucast p :: 64 word) = unat p" by (rule unat_ucast_32_64)
  ultimately show ?thesis using unat_hashsize[OF assms(1)] by (simp add: word_less_nat_alt)
qed

lemma delete_loop_ok:
  assumes b: "0 < b" "b \<le> 32"
  shows "del_inv cs bits (mask b) U e \<Longrightarrow> U = T(e := zero_node) \<Longrightarrow>
     (pos0 + 1) AND mask b = (e + 1) AND mask b \<Longrightarrow>
     \<exists>F. hashmap_delete_node_loop T (mask b) (push_bit b 1) e pos0 = Some (Inr F) \<and>
         table_ok cs F bits (mask b) \<and> entries F (mask b) = entries U (mask b) \<and>
         card (occ F (mask b)) = card (occ U (mask b)) \<and> occ F (mask b) \<subseteq> insert e (occ U (mask b))"
proof (induction "psl_sum U (mask b)" arbitrary: U T e pos0 rule: less_induct)
  case less
  let ?m = "mask b :: 32 word"
  let ?e' = "(pos0 + 1) AND ?m"
  note inv = less.prems(1) and U = less.prems(2) and p0 = less.prems(3)
  note le = del_invD(1)[OF inv] and emp = del_invD(2)[OF inv]
  have e': "?e' = (e + 1) AND ?m" by (rule p0)
  have e'm: "?e' \<le> ?m" by (rule word_and_le1)
  have ne: "?e' \<noteq> e" unfolding e' by (rule succ_neq_self(1)[OF b(1) le])
  have ins: "ucast ?e' < (push_bit b 1 :: 64 word)" by (rule ucast_lt_hashsize[OF b(2) e'm])
  have TU: "T ?e' = U ?e'" using ne by (simp add: U)
  show ?case
  proof (cases "n_key (T ?e') = None \<or> n_psl (T ?e') = 0")
    case True
    have "hashmap_delete_node_loop T ?m (push_bit b 1) e pos0 = Some (Inr U)"
      unfolding U using ins True by (rule delete_loop_stop)
    moreover have "table_ok cs U bits ?m" using True by (intro del_inv_stop[OF inv]) (simp add: TU e'[symmetric])
    ultimately show ?thesis by auto
  next
    case False
    then have occ': "n_key (U ?e') \<noteq> None" and t0: "n_psl (U ?e') \<noteq> 0" by (simp_all add: TU)
    let ?n' = "(U ?e')\<lparr>n_psl := n_psl (U ?e') - 1\<rparr>"
    let ?T' = "T(?e' := ?n', e := ?n')"
    let ?U' = "U(e := ?n', ?e' := zero_node)"
    have step: "hashmap_delete_node_loop T ?m (push_bit b 1) e pos0 =
                hashmap_delete_node_loop ?T' ?m (push_bit b 1) ?e' ?e'"
      using delete_loop_shift[of pos0 ?m "push_bit b 1" T e] ins False by (simp add: TU)
    have inv': "del_inv cs bits ?m ?U' ?e'"
      by (rule del_inv_shift[OF inv b(1) e' occ' t0 refl refl])
    have U': "?U' = ?T'(?e' := zero_node)" using ne by (auto simp: U fun_eq_iff)
    have dec: "psl_sum ?U' ?m < psl_sum U ?m" by (rule shift_measure[OF le e'm ne emp occ' t0])
    from less.hyps[OF dec inv' U' refl]
    obtain F where F: "hashmap_delete_node_loop ?T' ?m (push_bit b 1) ?e' ?e' = Some (Inr F)"
      "table_ok cs F bits ?m" "entries F ?m = entries ?U' ?m" "card (occ F ?m) = card (occ ?U' ?m)"
      "occ F ?m \<subseteq> insert ?e' (occ ?U' ?m)"
      by blast
    note se = shift_entries[OF le e'm ne emp occ', of "n_psl (U ?e') - 1"]
    have "occ F ?m \<subseteq> insert e (occ U ?m)" using F(5) unfolding se(3) .
    then show ?thesis using step F(1-4) se(1,2) by simp
  qed
qed

text \<open>Deleting the node of slot \<open>e\<close> from a well-formed table.\<close>

lemma entries_remove:
  assumes ok: "table_ok cs T bits m" and e: "e \<le> m" "n_key (T e) \<noteq> None"
  shows "entries (T(e := zero_node)) m = entries T m - {strip (T e)}"
    and "occ (T(e := zero_node)) m = occ T m - {e}"
proof -
  note kok = table_okD(3)[OF ok] and dk = table_okD(4)[OF ok]
  have notin: "\<And>q. q \<le> m \<Longrightarrow> q \<noteq> e \<Longrightarrow> n_key (T q) \<noteq> None \<Longrightarrow> strip (T q) \<noteq> strip (T e)"
  proof
    fix q assume q: "q \<le> m" "q \<noteq> e" "n_key (T q) \<noteq> None" and eq: "strip (T q) = strip (T e)"
    from e(2) obtain k where k: "n_key (T e) = Some k" by auto
    have nok: "node_ok (T e)" using kok e(1) by (simp add: keys_ok_def)
    have "hashmap_match (T e) (n_hashval (T e)) k cs"
      using node_ok_keysize[OF nok k] k
      by (simp add: hashmap_match_def memcmp_def isc_ascii_lowerequal_def)
    then have "same_key cs (strip (T e)) (T e)" by (simp add: same_key_def k strip_def hashmap_match_def)
    then have "same_key cs (strip (T q)) (T e)" by (simp add: eq)
    then have "same_key cs (T q) (T e)" by (simp add: strip_def)
    with dk q e show False unfolding distinct_keys_def by blast
  qed
  show "entries (T(e := zero_node)) m = entries T m - {strip (T e)}"
  proof (rule set_eqI, rule iffI)
    fix x assume "x \<in> entries (T(e := zero_node)) m"
    then obtain p where p: "p \<le> m" "n_key ((T(e := zero_node)) p) \<noteq> None" "x = strip ((T(e := zero_node)) p)"
      by (auto simp: entries_def)
    then have pne: "p \<noteq> e" by auto
    then have "x = strip (T p)" "n_key (T p) \<noteq> None" using p by simp_all
    then show "x \<in> entries T m - {strip (T e)}" using p(1) pne notin[of p] by (auto simp: entries_def)
  next
    fix x assume "x \<in> entries T m - {strip (T e)}"
    then obtain p where p: "p \<le> m" "n_key (T p) \<noteq> None" "x = strip (T p)" "x \<noteq> strip (T e)"
      by (auto simp: entries_def)
    then have "p \<noteq> e" by auto
    then have "x = strip ((T(e := zero_node)) p)" "n_key ((T(e := zero_node)) p) \<noteq> None" using p by simp_all
    then show "x \<in> entries (T(e := zero_node)) m" using p(1) unfolding entries_def by blast
  qed
  show "occ (T(e := zero_node)) m = occ T m - {e}" by (auto simp: occ_def)
qed

lemma delete_node_loop_table:
  assumes b: "0 < b" "b \<le> 32" and ok: "table_ok cs T bits (mask b)"
    and e: "e \<le> mask b" "n_key (T e) \<noteq> None"
    and p0: "(pos0 + 1) AND mask b = (e + 1) AND mask b"
  shows "\<exists>F. hashmap_delete_node_loop T (mask b) (push_bit b 1) e pos0 = Some (Inr F) \<and>
         table_ok cs F bits (mask b) \<and> entries F (mask b) = entries T (mask b) - {strip (T e)} \<and>
         Suc (card (occ F (mask b))) = card (occ T (mask b)) \<and> occ F (mask b) \<subseteq> occ T (mask b)"
proof -
  let ?m = "mask b :: 32 word"
  from delete_loop_ok[OF b del_inv_init[OF ok b(1) e] refl p0]
  obtain F where F: "hashmap_delete_node_loop T ?m (push_bit b 1) e pos0 = Some (Inr F)"
    "table_ok cs F bits ?m" "entries F ?m = entries (T(e := zero_node)) ?m"
    "card (occ F ?m) = card (occ (T(e := zero_node)) ?m)"
    "occ F ?m \<subseteq> insert e (occ (T(e := zero_node)) ?m)" by blast
  note r = entries_remove[OF ok e]
  have ein: "e \<in> occ T ?m" using e by (simp add: occ_def)
  have fin: "finite (occ T ?m)" by (simp add: occ_def)
  have "card (occ T ?m - {e}) = card (occ T ?m) - 1" using ein by (rule card_Diff_singleton)
  moreover have "0 < card (occ T ?m)" using ein fin card_gt_0_iff[of "occ T ?m"] by auto
  ultimately have "Suc (card (occ F ?m)) = card (occ T ?m)" using F(4) r(2) by simp
  moreover have "occ F ?m \<subseteq> occ T ?m" using F(5) ein unfolding r(2) by auto
  ultimately show ?thesis using F(1-3) r(1) by simp
qed

subsection \<open>Find, and the contents of a table\<close>

lemma find_loop_miss_small:
  assumes pslok: "psl_ok tbl bits (mask b)" and b: "b < 32"
    and nomatch: "\<not> in_table cs tbl (mask b) hashval key"
  shows "hashmap_find_loop tbl (mask b) cs hashval key hash 0 = Some None"
proof -
  let ?D = "(2::nat) ^ b"
  let ?q = "(hash + of_nat ?D) AND mask b"
  have "(2::nat) ^ b < 2 ^ 32" using b by (intro power_strict_increasing) simp_all
  then have D: "?D < 2 ^ 32" .
  have qm: "?q \<le> mask b" by (rule word_and_le1)
  have "n_key (tbl ?q) = None \<or> n_psl (tbl ?q) < of_nat ?D"
  proof (cases "n_key (tbl ?q) = None")
    case False
    have "n_psl (tbl ?q) \<le> mask b" using pslok qm False by (rule psl_ok_le)
    also have "(mask b :: 32 word) < 2 ^ b" using b by (rule mask_lt_2p)
    finally show ?thesis by simp
  qed simp
  from find_loop_miss_aux[OF nomatch D this, of 0] show ?thesis by simp
qed

lemma find_loop_miss:
  assumes "psl_ok tbl bits (mask b)" "b < 32 \<or> has_room tbl (mask b)"
    and "\<not> in_table cs tbl (mask b) hashval key"
  shows "hashmap_find_loop tbl (mask b) cs hashval key hash 0 = Some None"
  using assms find_loop_miss_small find_loop_miss_room by blast

lemma hashmap_match_strip [simp]: "hashmap_match (strip x) hv k cs = hashmap_match x hv k cs"
  by (simp add: hashmap_match_def strip_def)

lemma strip_simps [simp]:
  "n_key (strip x) = n_key x" "n_value (strip x) = n_value x" "n_hashval (strip x) = n_hashval x"
  "n_keysize (strip x) = n_keysize x" "n_psl (strip x) = 0" "strip (strip x) = strip x"
  by (simp_all add: strip_def)

lemma same_key_strip [simp]:
  "same_key cs (strip x) y = same_key cs x y" "same_key cs x (strip y) = same_key cs x y"
  by (simp_all add: strip_def)

lemma node_ok_strip [simp]: "node_ok (strip x) = node_ok x"
  by (simp add: strip_def)

lemma in_table_entries:
  "in_table cs tbl m hv k = (\<exists>x\<in>entries tbl m. hashmap_match x hv k cs)"
proof
  assume "in_table cs tbl m hv k"
  then obtain p where p: "p \<le> m" "n_key (tbl p) \<noteq> None" "hashmap_match (tbl p) hv k cs"
    by (auto simp: in_table_def)
  then have "strip (tbl p) \<in> entries tbl m" unfolding entries_def by blast
  moreover have "hashmap_match (strip (tbl p)) hv k cs" using p(3) by simp
  ultimately show "\<exists>x\<in>entries tbl m. hashmap_match x hv k cs" by blast
next
  assume "\<exists>x\<in>entries tbl m. hashmap_match x hv k cs"
  then show "in_table cs tbl m hv k" unfolding in_table_def entries_def by auto
qed

lemma entries_node:
  assumes "keys_ok tbl m" "x \<in> entries tbl m"
  shows "n_key x \<noteq> None" "node_ok x" "n_psl x = 0"
  using assms unfolding entries_def keys_ok_def by auto

lemma entries_distinct:
  assumes "distinct_keys cs tbl m" "x \<in> entries tbl m" "y \<in> entries tbl m" "same_key cs x y"
  shows "x = y"
proof -
  from assms(2) obtain p where p: "p \<le> m" "n_key (tbl p) \<noteq> None" "x = strip (tbl p)"
    by (auto simp: entries_def)
  from assms(3) obtain q where q: "q \<le> m" "n_key (tbl q) \<noteq> None" "y = strip (tbl q)"
    by (auto simp: entries_def)
  from assms(4) have "same_key cs (tbl p) (tbl q)" by (simp add: p q)
  with assms(1) p q have "p = q" unfolding distinct_keys_def by blast
  then show ?thesis by (simp add: p q)
qed

text \<open>A search for a key of the table ends at the slot that holds it.\<close>

lemma find_loop_entry:
  assumes ok: "table_ok cs tbl bits (mask b)"
    and x: "x \<in> entries tbl (mask b)" "hashmap_match x hashval key cs"
  shows "\<exists>p psl. hashmap_find_loop tbl (mask b) cs hashval key (isc_hash_bits32 hashval bits) 0 =
            Some (Some (p, psl)) \<and> p \<le> mask b \<and> n_key (tbl p) \<noteq> None \<and> strip (tbl p) = x \<and>
            psl = n_psl (tbl p)"
proof -
  from x(1) obtain p where p: "p \<le> mask b" "n_key (tbl p) \<noteq> None" "x = strip (tbl p)"
    by (auto simp: entries_def)
  have m: "hashmap_match (tbl p) hashval key cs" using x(2) by (simp add: p)
  from find_loop_hit[OF ok p(1,2) m, of 0] show ?thesis using p by simp
qed

lemma card_occ_le: "b \<le> 32 \<Longrightarrow> card (occ tbl (mask b :: 32 word)) \<le> 2 ^ b"
proof -
  assume b: "b \<le> 32"
  have "occ tbl (mask b) \<subseteq> {p. p \<le> mask b}" by (auto simp: occ_def)
  then have "card (occ tbl (mask b)) \<le> card {p :: 32 word. p \<le> mask b}" by (intro card_mono) simp_all
  also have "\<dots> = unat (mask b :: 32 word) + 1" by (rule card_le_word)
  also have "\<dots> = 2 ^ b" using b by (simp add: unat_mask_le)
  finally show ?thesis .
qed

lemma has_room_card:
  assumes b: "b \<le> 32" and c: "card (occ tbl (mask b :: 32 word)) < 2 ^ b"
  shows "has_room tbl (mask b)"
proof (rule ccontr)
  assume "\<not> has_room tbl (mask b)"
  then have "occ tbl (mask b) = {p. p \<le> mask b}" by (auto simp: has_room_def occ_def)
  then have "card (occ tbl (mask b)) = unat (mask b :: 32 word) + 1" by (simp add: card_le_word)
  also have "\<dots> = 2 ^ b" using b by (simp add: unat_mask_le)
  finally show False using c by simp
qed

lemma occ_empty_entries: "occ tbl m = {} \<longleftrightarrow> entries tbl m = {}"
  by (auto simp: occ_def entries_def)

subsection \<open>The invariant of a map\<close>

lemma nexttable_simps [simp]:
  "hashmap_nexttable 0 = 1" "hashmap_nexttable 1 = 0"
  "hashmap_nexttable idx \<noteq> idx"
  by (auto simp: hashmap_nexttable_def)

lemma nexttable_twice: "idx = 0 \<or> idx = 1 \<Longrightarrow> hashmap_nexttable (hashmap_nexttable idx) = idx"
  by auto

lemma tbl_wfD:
  assumes "tbl_wf cs t"
  obtains tbl where "t_table t = Some tbl" "1 \<le> unat (t_hashbits t)" "unat (t_hashbits t) \<le> 32"
    "t_hashmask t = mask (unat (t_hashbits t))" "t_size t = push_bit (unat (t_hashbits t)) 1"
    "table_ok cs tbl (t_hashbits t) (mask (unat (t_hashbits t)))"
    "tab_entries t = entries tbl (mask (unat (t_hashbits t)))"
    "tab_count t = card (occ tbl (mask (unat (t_hashbits t))))"
  using assms unfolding tbl_wf_def tab_entries_def tab_count_def HASHSIZE_def
  by (cases "t_table t") auto

lemma tbl_wfI:
  assumes "t_table t = Some tbl" "1 \<le> unat (t_hashbits t)" "unat (t_hashbits t) \<le> 32"
    "t_hashmask t = mask (unat (t_hashbits t))" "t_size t = push_bit (unat (t_hashbits t)) 1"
    "table_ok cs tbl (t_hashbits t) (mask (unat (t_hashbits t)))"
  shows "tbl_wf cs t"
  using assms unfolding tbl_wf_def HASHSIZE_def by simp

lemma hashmap_invD:
  assumes "hashmap_inv hm"
  shows "ISC_HASHMAP_VALID hm" "hm_hindex hm = 0 \<or> hm_hindex hm = 1"
    "tbl_wf (hm_case_sensitive hm) (active hm)"
    "unat (hm_count hm) = tab_count (active hm) + tab_count (source hm)"
    "t_table (source hm) = None \<Longrightarrow> source hm = zero_table"
    "t_table (source hm) = None \<Longrightarrow> hm_hiter hm = 0"
    "t_table (source hm) \<noteq> None \<Longrightarrow> tbl_wf (hm_case_sensitive hm) (source hm)"
    "t_table (source hm) \<noteq> None \<Longrightarrow> unat (t_hashbits (source hm)) \<le> 31"
    "\<And>x y. t_table (source hm) \<noteq> None \<Longrightarrow> x \<in> tab_entries (active hm) \<Longrightarrow> y \<in> tab_entries (source hm) \<Longrightarrow>
        \<not> same_key (hm_case_sensitive hm) x y"
    "\<And>stbl p. t_table (source hm) = Some stbl \<Longrightarrow> p < hm_hiter hm \<Longrightarrow> n_key (stbl p) = None"
    "t_table (source hm) \<noteq> None \<Longrightarrow> unat (hm_hiter hm) \<le> 2 ^ unat (t_hashbits (source hm))"
  using assms unfolding hashmap_inv_def by (auto split: option.splits)

lemma hashmap_invI:
  assumes "ISC_HASHMAP_VALID hm" "hm_hindex hm = 0 \<or> hm_hindex hm = 1"
    "tbl_wf (hm_case_sensitive hm) (active hm)"
    "unat (hm_count hm) = tab_count (active hm) + tab_count (source hm)"
    "t_table (source hm) = None \<Longrightarrow> source hm = zero_table \<and> hm_hiter hm = 0"
    "\<And>stbl. t_table (source hm) = Some stbl \<Longrightarrow>
       tbl_wf (hm_case_sensitive hm) (source hm) \<and> unat (t_hashbits (source hm)) \<le> 31 \<and>
       (\<forall>x\<in>tab_entries (active hm). \<forall>y\<in>tab_entries (source hm). \<not> same_key (hm_case_sensitive hm) x y) \<and>
       (\<forall>p. p < hm_hiter hm \<longrightarrow> n_key (stbl p) = None) \<and>
       unat (hm_hiter hm) \<le> 2 ^ unat (t_hashbits (source hm))"
  shows "hashmap_inv hm"
  using assms unfolding hashmap_inv_def by (auto split: option.splits)

lemma rehashing_source: "rehashing_in_progress hm = (t_table (source hm) \<noteq> None)"
  by (simp add: rehashing_in_progress_def source_def)

lemma tab_entries_none [simp]: "t_table t = None \<Longrightarrow> tab_entries t = {}" "t_table t = None \<Longrightarrow> tab_count t = 0"
  by (simp_all add: tab_entries_def tab_count_def)

lemma hashval_of_valid:
  "ISC_HASHMAP_VALID hm \<Longrightarrow> hashval_of H hm hvp k = Inr (the_hashval H hm hvp k)"
  by (simp add: hashval_of_def the_hashval_def isc_hashmap_hash_def split: option.splits)

lemma find_in_table:
  assumes wf: "tbl_wf cs t" and tt: "t_table t = Some tbl"
    and x: "x \<in> tab_entries t" "hashmap_match x hv k cs"
  shows "\<exists>pos. hashmap_find_loop tbl (t_hashmask t) cs hv k (isc_hash_bits32 hv (t_hashbits t)) 0 =
            Some (Some (pos, n_psl (tbl pos))) \<and> pos \<le> t_hashmask t \<and> n_key (tbl pos) \<noteq> None \<and>
            strip (tbl pos) = x"
proof -
  from wf obtain tbl' where w: "t_table t = Some tbl'" "t_hashmask t = mask (unat (t_hashbits t))"
    "table_ok cs tbl' (t_hashbits t) (mask (unat (t_hashbits t)))"
    "tab_entries t = entries tbl' (mask (unat (t_hashbits t)))" by (rule tbl_wfD)
  have eq: "tbl' = tbl" using w(1) tt by simp
  from find_loop_entry[OF w(3)[unfolded eq] x(1)[unfolded w(4) eq] x(2)]
  show ?thesis unfolding w(2) by blast
qed

lemma find_not_in_table:
  assumes wf: "tbl_wf cs t" and tt: "t_table t = Some tbl"
    and small: "unat (t_hashbits t) < 32 \<or> tab_count t < 2 ^ unat (t_hashbits t)"
    and none: "\<forall>x\<in>tab_entries t. \<not> hashmap_match x hv k cs"
  shows "hashmap_find_loop tbl (t_hashmask t) cs hv k (isc_hash_bits32 hv (t_hashbits t)) 0 = Some None"
proof -
  from wf obtain tbl' where w: "t_table t = Some tbl'" "unat (t_hashbits t) \<le> 32"
    "t_hashmask t = mask (unat (t_hashbits t))"
    "table_ok cs tbl' (t_hashbits t) (mask (unat (t_hashbits t)))"
    "tab_entries t = entries tbl' (mask (unat (t_hashbits t)))"
    "tab_count t = card (occ tbl' (mask (unat (t_hashbits t))))" by (rule tbl_wfD)
  have eq: "tbl' = tbl" using w(1) tt by simp
  let ?b = "unat (t_hashbits t)"
  have "?b < 32 \<or> has_room tbl (mask ?b)"
    using small has_room_card[OF w(2), of tbl] by (auto simp: w(6) eq)
  moreover have "\<not> in_table cs tbl (mask ?b) hv k" using none by (simp add: in_table_entries w(5) eq)
  ultimately show ?thesis unfolding w(3)
    using find_loop_miss[OF table_okD(1)[OF w(4)[unfolded eq]]] by blast
qed

lemma active_source_neq: "hashmap_nexttable (hm_hindex hm) \<noteq> hm_hindex hm"
  by simp

lemma try_nexttable_active: "try_nexttable hm (hm_hindex hm) = (t_table (source hm) \<noteq> None)"
  by (simp add: try_nexttable_def rehashing_source)

lemma try_nexttable_source: "\<not> try_nexttable hm (hashmap_nexttable (hm_hindex hm))"
  by (simp add: try_nexttable_def)

lemma room_active:
  assumes inv: "hashmap_inv hm" and room: "room_ok hm"
  shows "unat (t_hashbits (active hm)) < 32 \<or> tab_count (active hm) < 2 ^ unat (t_hashbits (active hm))"
proof (cases "unat (t_hashbits (active hm)) = 32")
  case True
  then have "unat (hm_count hm) < 2 ^ unat (t_hashbits (active hm))" using room by (simp add: room_ok_def)
  then show ?thesis using hashmap_invD(4)[OF inv] by simp
next
  case False
  from hashmap_invD(3)[OF inv] have "unat (t_hashbits (active hm)) \<le> 32" by (rule tbl_wfD)
  with False show ?thesis by simp
qed

text \<open>\<^verbatim>\<open>hashmap_find\<close> from the active table.\<close>

lemma hashmap_find_active_hit:
  assumes inv: "hashmap_inv hm"
    and x: "x \<in> tab_entries (active hm)" "hashmap_match x hv k (hm_case_sensitive hm)"
  shows "\<exists>pos tbl. hashmap_find hm hv k (hm_hindex hm) =
            Some (Inr (Some (hm_hindex hm, pos, n_psl (tbl pos)))) \<and>
          t_table (active hm) = Some tbl \<and> pos \<le> t_hashmask (active hm) \<and> n_key (tbl pos) \<noteq> None \<and>
          strip (tbl pos) = x"
proof -
  note wf = hashmap_invD(3)[OF inv]
  from wf obtain tbl where tt: "t_table (active hm) = Some tbl" by (rule tbl_wfD)
  from find_in_table[OF wf tt x] obtain pos where
    p: "hashmap_find_loop tbl (t_hashmask (active hm)) (hm_case_sensitive hm) hv k
          (isc_hash_bits32 hv (t_hashbits (active hm))) 0 = Some (Some (pos, n_psl (tbl pos)))"
       "pos \<le> t_hashmask (active hm)" "n_key (tbl pos) \<noteq> None" "strip (tbl pos) = x" by blast
  have "hashmap_find hm hv k (hm_hindex hm) = Some (Inr (Some (hm_hindex hm, pos, n_psl (tbl pos))))"
    using tt p(1) unfolding active_def by (rule hashmap_find_found)
  then show ?thesis using tt p by blast
qed

lemma hashmap_find_source_hit:
  assumes inv: "hashmap_inv hm"
    and x: "x \<in> tab_entries (source hm)" "hashmap_match x hv k (hm_case_sensitive hm)"
  shows "\<exists>pos tbl. hashmap_find hm hv k (hashmap_nexttable (hm_hindex hm)) =
            Some (Inr (Some (hashmap_nexttable (hm_hindex hm), pos, n_psl (tbl pos)))) \<and>
          t_table (source hm) = Some tbl \<and> pos \<le> t_hashmask (source hm) \<and> n_key (tbl pos) \<noteq> None \<and>
          strip (tbl pos) = x"
proof -
  have ne: "t_table (source hm) \<noteq> None" using x(1) by (cases "t_table (source hm)") simp_all
  note wf = hashmap_invD(7)[OF inv ne]
  from wf obtain tbl where tt: "t_table (source hm) = Some tbl" by (rule tbl_wfD)
  from find_in_table[OF wf tt x] obtain pos where
    p: "hashmap_find_loop tbl (t_hashmask (source hm)) (hm_case_sensitive hm) hv k
          (isc_hash_bits32 hv (t_hashbits (source hm))) 0 = Some (Some (pos, n_psl (tbl pos)))"
       "pos \<le> t_hashmask (source hm)" "n_key (tbl pos) \<noteq> None" "strip (tbl pos) = x" by blast
  have "hashmap_find hm hv k (hashmap_nexttable (hm_hindex hm)) =
          Some (Inr (Some (hashmap_nexttable (hm_hindex hm), pos, n_psl (tbl pos))))"
    using tt p(1) unfolding source_def by (rule hashmap_find_found)
  then show ?thesis using tt p by blast
qed

lemma hashmap_find_source_miss:
  assumes inv: "hashmap_inv hm" and ne: "t_table (source hm) \<noteq> None"
    and none: "\<forall>x\<in>tab_entries (source hm). \<not> hashmap_match x hv k (hm_case_sensitive hm)"
  shows "hashmap_find hm hv k (hashmap_nexttable (hm_hindex hm)) = Some (Inr None)"
proof -
  note wf = hashmap_invD(7)[OF inv ne]
  from wf obtain tbl where tt: "t_table (source hm) = Some tbl" by (rule tbl_wfD)
  have small: "unat (t_hashbits (source hm)) < 32 \<or> tab_count (source hm) < 2 ^ unat (t_hashbits (source hm))"
    using hashmap_invD(8)[OF inv ne] by simp
  note l = find_not_in_table[OF wf tt small none]
  show ?thesis using tt l try_nexttable_source unfolding source_def by (rule hashmap_find_last)
qed

lemma hashmap_find_miss_to_source:
  assumes inv: "hashmap_inv hm"
    and small: "unat (t_hashbits (active hm)) < 32 \<or> tab_count (active hm) < 2 ^ unat (t_hashbits (active hm))"
    and none: "\<forall>x\<in>tab_entries (active hm). \<not> hashmap_match x hv k (hm_case_sensitive hm)"
  shows "hashmap_find hm hv k (hm_hindex hm) =
           (if t_table (source hm) \<noteq> None then hashmap_find hm hv k (hashmap_nexttable (hm_hindex hm))
            else Some (Inr None))"
proof -
  note wf = hashmap_invD(3)[OF inv]
  from wf obtain tbl where tt: "t_table (active hm) = Some tbl" by (rule tbl_wfD)
  note l = find_not_in_table[OF wf tt small none]
  show ?thesis
  proof (cases "t_table (source hm) \<noteq> None")
    case True
    then have "try_nexttable hm (hm_hindex hm)" by (simp add: try_nexttable_active)
    with tt l have "hashmap_find hm hv k (hm_hindex hm) = hashmap_find hm hv k (hashmap_nexttable (hm_hindex hm))"
      unfolding active_def by (rule hashmap_find_nexttable)
    then show ?thesis using True by simp
  next
    case False
    then have "\<not> try_nexttable hm (hm_hindex hm)" by (simp add: try_nexttable_active)
    with tt l have "hashmap_find hm hv k (hm_hindex hm) = Some (Inr None)"
      unfolding active_def by (rule hashmap_find_last)
    then show ?thesis using False by simp
  qed
qed

lemma hashmap_find_miss:
  assumes inv: "hashmap_inv hm" and room: "room_ok hm"
    and none: "\<forall>x\<in>contents hm. \<not> hashmap_match x hv k (hm_case_sensitive hm)"
  shows "hashmap_find hm hv k (hm_hindex hm) = Some (Inr None)"
proof -
  have a: "\<forall>x\<in>tab_entries (active hm). \<not> hashmap_match x hv k (hm_case_sensitive hm)"
    and s: "\<forall>x\<in>tab_entries (source hm). \<not> hashmap_match x hv k (hm_case_sensitive hm)"
    using none by (simp_all add: contents_def)
  show ?thesis
    using hashmap_find_miss_to_source[OF inv room_active[OF inv room] a] hashmap_find_source_miss[OF inv _ s] by auto
qed

lemma tbl_wf_upd:
  assumes "tbl_wf cs t" "table_ok cs T' (t_hashbits t) (mask (unat (t_hashbits t)))"
  shows "tbl_wf cs (t\<lparr>t_table := Some T'\<rparr>)"
    "tab_entries (t\<lparr>t_table := Some T'\<rparr>) = entries T' (mask (unat (t_hashbits t)))"
    "tab_count (t\<lparr>t_table := Some T'\<rparr>) = card (occ T' (mask (unat (t_hashbits t))))"
proof -
  from assms(1) obtain tbl where w: "1 \<le> unat (t_hashbits t)" "unat (t_hashbits t) \<le> 32"
    "t_hashmask t = mask (unat (t_hashbits t))" "t_size t = push_bit (unat (t_hashbits t)) 1"
    by (rule tbl_wfD)
  show "tbl_wf cs (t\<lparr>t_table := Some T'\<rparr>)" using w assms(2) by (intro tbl_wfI[of _ T']) simp_all
  show "tab_entries (t\<lparr>t_table := Some T'\<rparr>) = entries T' (mask (unat (t_hashbits t)))"
    by (simp add: tab_entries_def w(3))
  show "tab_count (t\<lparr>t_table := Some T'\<rparr>) = card (occ T' (mask (unat (t_hashbits t))))"
    by (simp add: tab_count_def w(3))
qed

lemma hashmap_add_new:
  assumes wf: "tbl_wf (hm_case_sensitive hm) (hm_tables hm idx)"
    and room: "tab_count (hm_tables hm idx) < 2 ^ unat (t_hashbits (hm_tables hm idx))"
    and none: "\<forall>x\<in>tab_entries (hm_tables hm idx). \<not> hashmap_match x hv k (hm_case_sensitive hm)"
    and k: "length k \<le> 65535"
  shows "\<exists>T'. hashmap_add hm hv (Some k) v idx =
           Some (Inr (ISC_R_SUCCESS,
             hm\<lparr>hm_count := hm_count hm + 1,
                hm_tables := (hm_tables hm)(idx := (hm_tables hm idx)\<lparr>t_table := Some T'\<rparr>)\<rparr>)) \<and>
         tbl_wf (hm_case_sensitive hm) ((hm_tables hm idx)\<lparr>t_table := Some T'\<rparr>) \<and>
         tab_entries ((hm_tables hm idx)\<lparr>t_table := Some T'\<rparr>) =
           insert \<lparr>n_key = Some k, n_value = v, n_hashval = hv, n_psl = 0, n_keysize = of_nat (length k)\<rparr>
             (tab_entries (hm_tables hm idx)) \<and>
         tab_count ((hm_tables hm idx)\<lparr>t_table := Some T'\<rparr>) = Suc (tab_count (hm_tables hm idx))"
proof -
  let ?t = "hm_tables hm idx" and ?cs = "hm_case_sensitive hm"
  let ?b = "unat (t_hashbits ?t)"
  let ?node = "\<lparr>n_key = Some k, n_value = v, n_hashval = hv, n_psl = 0, n_keysize = of_nat (length k)\<rparr>"
  from wf obtain T where w: "t_table ?t = Some T" "1 \<le> ?b" "?b \<le> 32"
    "t_hashmask ?t = mask ?b" "table_ok ?cs T (t_hashbits ?t) (mask ?b)"
    "tab_entries ?t = entries T (mask ?b)" "tab_count ?t = card (occ T (mask ?b))"
    by (rule tbl_wfD)
  have b0: "0 < ?b" using w(2) by simp
  have hr: "has_room T (mask ?b)" using room has_room_card[OF w(3), of T] by (simp add: w(7))
  have nm: "\<not> in_table ?cs T (mask ?b) hv k" using none by (simp add: in_table_entries w(6))
  have nok: "node_ok ?node" using k by (simp add: node_ok_def UINT16_MAX_def)
  have "\<exists>T' q. hashmap_add_loop T (mask ?b) ?cs hv k (isc_hash_bits32 hv (t_hashbits ?t)) ?node 0 =
           Some (ISC_R_SUCCESS, T') \<and>
       table_ok ?cs T' (t_hashbits ?t) (mask ?b) \<and>
       entries T' (mask ?b) = insert (strip ?node) (entries T (mask ?b)) \<and>
       q \<le> mask ?b \<and> n_key (T q) = None \<and> occ T' (mask ?b) = insert q (occ T (mask ?b))"
    by (rule add_loop_new[OF b0 w(5) hr nm nok]) simp_all
  then obtain T' q where
    r: "hashmap_add_loop T (mask ?b) ?cs hv k (isc_hash_bits32 hv (t_hashbits ?t)) ?node 0 =
          Some (ISC_R_SUCCESS, T')"
       "table_ok ?cs T' (t_hashbits ?t) (mask ?b)"
       "entries T' (mask ?b) = insert (strip ?node) (entries T (mask ?b))"
       "q \<le> mask ?b" "n_key (T q) = None" "occ T' (mask ?b) = insert q (occ T (mask ?b))"
    by blast
  note u = tbl_wf_upd[OF wf r(2)]
  have "hashmap_add hm hv (Some k) v idx =
           Some (Inr (ISC_R_SUCCESS,
             hm\<lparr>hm_count := hm_count hm + 1,
                hm_tables := (hm_tables hm)(idx := (hm_tables hm idx)\<lparr>t_table := Some T'\<rparr>)\<rparr>))"
    using k r(1) by (simp add: hashmap_add_def hashmap_node_init_def res_bind_def UINT16_MAX_def w(1,4))
  moreover have "strip ?node = ?node" by (simp add: strip_def)
  moreover have "card (insert q (occ T (mask ?b))) = Suc (card (occ T (mask ?b)))"
    using r(5) by (intro card_insert_disjoint) (simp_all add: occ_def)
  ultimately show ?thesis using u r(3,6) w(6,7) by auto
qed

lemma hashmap_add_exists:
  assumes wf: "tbl_wf (hm_case_sensitive hm) (hm_tables hm idx)"
    and x: "x \<in> tab_entries (hm_tables hm idx)" "hashmap_match x hv k (hm_case_sensitive hm)"
    and k: "length k \<le> 65535"
  shows "hashmap_add hm hv (Some k) v idx = Some (Inr (ISC_R_EXISTS, hm))"
proof -
  let ?t = "hm_tables hm idx" and ?cs = "hm_case_sensitive hm"
  let ?b = "unat (t_hashbits ?t)"
  let ?node = "\<lparr>n_key = Some k, n_value = v, n_hashval = hv, n_psl = 0, n_keysize = of_nat (length k)\<rparr>"
  from wf obtain T where w: "t_table ?t = Some T"
    "t_hashmask ?t = mask ?b" "table_ok ?cs T (t_hashbits ?t) (mask ?b)"
    "tab_entries ?t = entries T (mask ?b)"
    by (rule tbl_wfD)
  from x(1) obtain p where p: "p \<le> mask ?b" "n_key (T p) \<noteq> None" "x = strip (T p)"
    by (auto simp: w(4) entries_def)
  have m: "hashmap_match (T p) hv k ?cs" using x(2) by (simp add: p)
  have l: "hashmap_add_loop T (mask ?b) ?cs hv k (isc_hash_bits32 hv (t_hashbits ?t)) ?node 0 =
          Some (ISC_R_EXISTS, T)"
    by (rule add_loop_hit[OF w(3) p(1,2) m]) simp_all
  have "(hm_tables hm idx)\<lparr>t_table := Some T\<rparr> = hm_tables hm idx" using w(1) by (simp add: w(1)[symmetric])
  then have "hm\<lparr>hm_count := hm_count hm,
       hm_tables := (hm_tables hm)(idx := (hm_tables hm idx)\<lparr>t_table := Some T\<rparr>)\<rparr> = hm" by simp
  then show ?thesis
    using k l by (simp add: hashmap_add_def hashmap_node_init_def res_bind_def UINT16_MAX_def w(1,2))
qed

lemma hashmap_delete_node_ok:
  assumes wf: "tbl_wf (hm_case_sensitive hm) (hm_tables hm idx)"
    and tt: "t_table (hm_tables hm idx) = Some T"
    and e: "entry \<le> t_hashmask (hm_tables hm idx)" "n_key (T entry) \<noteq> None"
  shows "\<exists>F. hashmap_delete_node hm entry (n_hashval (T entry)) (n_psl (T entry)) idx =
           Some (Inr (hm\<lparr>hm_count := hm_count hm - 1,
                hm_tables := (hm_tables hm)(idx := (hm_tables hm idx)\<lparr>t_table := Some F\<rparr>)\<rparr>)) \<and>
         tbl_wf (hm_case_sensitive hm) ((hm_tables hm idx)\<lparr>t_table := Some F\<rparr>) \<and>
         tab_entries ((hm_tables hm idx)\<lparr>t_table := Some F\<rparr>) =
           tab_entries (hm_tables hm idx) - {strip (T entry)} \<and>
         Suc (tab_count ((hm_tables hm idx)\<lparr>t_table := Some F\<rparr>)) = tab_count (hm_tables hm idx) \<and>
         (\<forall>p. p \<le> t_hashmask (hm_tables hm idx) \<longrightarrow> n_key (T p) = None \<longrightarrow> n_key (F p) = None)"
proof -
  let ?t = "hm_tables hm idx" and ?cs = "hm_case_sensitive hm"
  let ?b = "unat (t_hashbits ?t)"
  from wf obtain T0 where w: "t_table ?t = Some T0" "1 \<le> ?b" "?b \<le> 32"
    "t_hashmask ?t = mask ?b" "t_size ?t = push_bit ?b 1" "table_ok ?cs T0 (t_hashbits ?t) (mask ?b)"
    "tab_entries ?t = entries T0 (mask ?b)" "tab_count ?t = card (occ T0 (mask ?b))"
    by (rule tbl_wfD)
  have eq: "T0 = T" using w(1) tt by simp
  note ok = w(6)[unfolded eq]
  have b0: "0 < ?b" using w(2) by simp
  have em: "entry \<le> mask ?b" using e(1) by (simp add: w(4))
  let ?h = "isc_hash_bits32 (n_hashval (T entry)) (t_hashbits ?t)"
  have "(?h + n_psl (T entry)) AND mask ?b = entry" by (rule psl_ok_pos[OF table_okD(1)[OF ok] em e(2)])
  then have "(((?h + n_psl (T entry)) AND mask ?b) + 1) AND mask ?b = (entry + 1) AND mask ?b" by simp
  then have p0: "((?h + n_psl (T entry)) + 1) AND mask ?b = (entry + 1) AND mask ?b" by (simp only: mask_eqs)
  from delete_node_loop_table[OF b0 w(3) ok em e(2) p0] obtain F where
    F: "hashmap_delete_node_loop T (mask ?b) (push_bit ?b 1) entry (?h + n_psl (T entry)) = Some (Inr F)"
       "table_ok ?cs F (t_hashbits ?t) (mask ?b)"
       "entries F (mask ?b) = entries T (mask ?b) - {strip (T entry)}"
       "Suc (card (occ F (mask ?b))) = card (occ T (mask ?b))" "occ F (mask ?b) \<subseteq> occ T (mask ?b)"
    by blast
  note u = tbl_wf_upd[OF wf F(2)]
  have "hashmap_delete_node hm entry (n_hashval (T entry)) (n_psl (T entry)) idx =
           Some (Inr (hm\<lparr>hm_count := hm_count hm - 1,
                hm_tables := (hm_tables hm)(idx := (hm_tables hm idx)\<lparr>t_table := Some F\<rparr>)\<rparr>))"
    using F(1) by (simp add: hashmap_delete_node_def res_bind_def tt w(4,5) Let_def)
  moreover have "\<forall>p. p \<le> t_hashmask ?t \<longrightarrow> n_key (T p) = None \<longrightarrow> n_key (F p) = None"
    using F(5) by (auto simp: occ_def w(4))
  ultimately show ?thesis using u F(3,4) w(7,8) eq by auto
qed

subsection \<open>One step of a rehash\<close>

lemma rehash_skip_spec:
  "hiter \<le> oldsize \<Longrightarrow>
   hiter \<le> hashmap_rehash_skip oldtable oldsize hiter \<and>
   hashmap_rehash_skip oldtable oldsize hiter \<le> oldsize \<and>
   (\<forall>p. hiter \<le> p \<and> p < hashmap_rehash_skip oldtable oldsize hiter \<longrightarrow> n_key (oldtable p) = None) \<and>
   (hashmap_rehash_skip oldtable oldsize hiter < oldsize \<longrightarrow>
      n_key (oldtable (hashmap_rehash_skip oldtable oldsize hiter)) \<noteq> None)"
proof (induction oldtable oldsize hiter rule: hashmap_rehash_skip.induct)
  case (1 oldtable oldsize hiter)
  show ?case
  proof (cases "hiter < oldsize \<and> n_key (oldtable hiter) = None")
    case True
    then have lt: "hiter < oldsize" and emp: "n_key (oldtable hiter) = None" by simp_all
    have u: "unat (hiter + 1) = unat hiter + 1" using lt by (rule unat_inc)
    have le1: "hiter + 1 \<le> oldsize" using lt u by (simp add: word_le_nat_alt word_less_nat_alt)
    have hl: "hiter \<le> hiter + 1" using u by (simp add: word_le_nat_alt)
    note IH = "1.IH"[OF True le1]
    have eq: "hashmap_rehash_skip oldtable oldsize hiter = hashmap_rehash_skip oldtable oldsize (hiter + 1)"
      using True by (subst hashmap_rehash_skip.simps) simp
    have emp_all: "\<And>p. hiter \<le> p \<Longrightarrow> p < hashmap_rehash_skip oldtable oldsize (hiter + 1) \<Longrightarrow>
            n_key (oldtable p) = None"
    proof -
      fix p assume p: "hiter \<le> p" "p < hashmap_rehash_skip oldtable oldsize (hiter + 1)"
      show "n_key (oldtable p) = None"
      proof (cases "p = hiter")
        case True then show ?thesis using emp by simp
      next
        case False
        then have "unat hiter < unat p" using p(1) by (simp add: word_le_nat_alt word_unat_eq_iff)
        then have "hiter + 1 \<le> p" using u by (simp add: word_le_nat_alt)
        then show ?thesis using IH p(2) by blast
      qed
    qed
    have "hiter \<le> hashmap_rehash_skip oldtable oldsize (hiter + 1)" using hl IH by (meson order_trans)
    then show ?thesis unfolding eq using IH emp_all by blast
  next
    case False
    then have eq: "hashmap_rehash_skip oldtable oldsize hiter = hiter"
      by (subst hashmap_rehash_skip.simps) (simp only: if_False)
    show ?thesis unfolding eq using False "1.prems" by auto
  qed
qed

lemma oldsize_31:
  assumes "b \<le> 31"
  shows "(ucast (push_bit b 1 :: 64 word) :: 32 word) = 2 ^ b" "unat (2 ^ b :: 32 word) = 2 ^ b"
    "\<And>p :: 32 word. p < 2 ^ b \<longleftrightarrow> p \<le> mask b"
proof -
  have lt: "(2::nat) ^ b < 2 ^ 32" using assms by (intro power_strict_increasing) simp_all
  have "(2 ^ b :: 32 word) = of_nat (2 ^ b)" by simp
  then have "unat (2 ^ b :: 32 word) = 2 ^ b mod 2 ^ LENGTH(32)" by (simp only: unat_of_nat)
  with lt show u: "unat (2 ^ b :: 32 word) = 2 ^ b" by simp
  have b32: "b \<le> 32" using assms by simp
  have "unat (ucast (push_bit b 1 :: 64 word) :: 32 word) = take_bit 32 (unat (push_bit b 1 :: 64 word))"
    by (simp add: unsigned_ucast_eq)
  also have "\<dots> = take_bit 32 ((2::nat) ^ b)" by (simp only: unat_hashsize[OF b32])
  also have "\<dots> = 2 ^ b" using lt by (simp only: take_bit_nat_eq_self_iff)
  finally show "(ucast (push_bit b 1 :: 64 word) :: 32 word) = 2 ^ b" using u by (simp only: word_unat_eq_iff)
  fix p :: "32 word"
  have "unat (mask b :: 32 word) = 2 ^ b - 1" using assms by (simp add: unat_mask_le)
  moreover have "0 < (2::nat) ^ b" by simp
  ultimately have "unat p < 2 ^ b \<longleftrightarrow> unat p \<le> unat (mask b :: 32 word)" by linarith
  then show "p < 2 ^ b \<longleftrightarrow> p \<le> mask b" using u by (simp add: word_less_nat_alt word_le_nat_alt)
qed

lemma active_simps [simp]:
  "active (hm\<lparr>hm_hiter := h\<rparr>) = active hm"
  "active (hm\<lparr>hm_count := c\<rparr>) = active hm"
  "source (hm\<lparr>hm_hiter := h\<rparr>) = source hm"
  "source (hm\<lparr>hm_count := c\<rparr>) = source hm"
  by (simp_all add: active_def source_def)

lemma nexttable_neq [simp]: "idx \<noteq> hashmap_nexttable idx"
  by (auto simp: hashmap_nexttable_def)

lemma active_tables_upd:
  "active (hm\<lparr>hm_tables := (hm_tables hm)(hm_hindex hm := t)\<rparr>) = t"
  "source (hm\<lparr>hm_tables := (hm_tables hm)(hm_hindex hm := t)\<rparr>) = source hm"
  "active (hm\<lparr>hm_tables := (hm_tables hm)(hashmap_nexttable (hm_hindex hm) := t)\<rparr>) = active hm"
  "source (hm\<lparr>hm_tables := (hm_tables hm)(hashmap_nexttable (hm_hindex hm) := t)\<rparr>) = t"
  by (simp_all add: active_def source_def)

lemma contents_simps [simp]:
  "contents (hm\<lparr>hm_hiter := h\<rparr>) = contents hm"
  "contents (hm\<lparr>hm_count := c\<rparr>) = contents hm"
  by (simp_all add: contents_def)

lemma tab_zero [simp]: "t_table zero_table = None" "tab_entries zero_table = {}" "tab_count zero_table = 0"
  by (simp_all add: zero_table_def tab_entries_def tab_count_def)

lemma tab_count_zero_iff:
  "t_table t = Some tbl \<Longrightarrow> tab_count t = 0 \<longleftrightarrow> (\<forall>p. p \<le> t_hashmask t \<longrightarrow> n_key (tbl p) = None)"
  by (auto simp: tab_count_def occ_def)

lemma tab_count_zero_entries:
  "tab_count t = 0 \<Longrightarrow> tab_entries t = {}"
  by (cases "t_table t") (auto simp: tab_count_def tab_entries_def occ_def entries_def)

text \<open>The end of a rehash: the source table is empty and is freed.\<close>

lemma rehash_one_free:
  assumes inv: "hashmap_inv hm" and reh: "t_table (source hm) \<noteq> None"
    and emp: "tab_count (source hm) = 0"
  shows "\<exists>hm'. hashmap_rehash_one hm = Some (Inr hm') \<and> hashmap_inv hm' \<and> contents hm' = contents hm \<and>
      hm_count hm' = hm_count hm \<and> hm_hindex hm' = hm_hindex hm \<and>
      hm_case_sensitive hm' = hm_case_sensitive hm \<and> hm_hash_key hm' = hm_hash_key hm \<and>
      active hm' = active hm \<and> t_table (source hm') = None"
proof -
  let ?oi = "hashmap_nexttable (hm_hindex hm)"
  let ?bs = "unat (t_hashbits (source hm))"
  note wfs = hashmap_invD(7)[OF inv reh] and b31 = hashmap_invD(8)[OF inv reh]
  from wfs obtain S where S: "t_table (source hm) = Some S" "t_hashmask (source hm) = mask ?bs"
    "t_size (source hm) = push_bit ?bs 1" by (rule tbl_wfD)
  note os = oldsize_31[OF b31]
  have os1: "(ucast (2 ^ ?bs :: 64 word) :: 32 word) = 2 ^ ?bs" using os(1) by simp
  have hle: "hm_hiter hm \<le> 2 ^ ?bs" using hashmap_invD(11)[OF inv reh] by (simp add: word_le_nat_alt os(2))
  note sk = rehash_skip_spec[OF hle, of S]
  let ?h = "hashmap_rehash_skip S (2 ^ ?bs) (hm_hiter hm)"
  have allemp: "\<And>p. p \<le> mask ?bs \<Longrightarrow> n_key (S p) = None"
    using emp tab_count_zero_iff[OF S(1)] by (simp add: S(2))
  have "\<not> ?h < 2 ^ ?bs"
  proof
    assume lt: "?h < 2 ^ ?bs"
    then have "?h \<le> mask ?bs" by (simp add: os(3))
    then have "n_key (S ?h) = None" by (rule allemp)
    with sk lt show False by blast
  qed
  with sk have heq: "?h = 2 ^ ?bs" by (simp add: word_le_less_eq)
  let ?hm' = "hm\<lparr>hm_hiter := 0, hm_tables := (hm_tables hm)(?oi := zero_table)\<rparr>"
  have S': "t_table (hm_tables hm ?oi) = Some S" "t_size (hm_tables hm ?oi) = push_bit ?bs 1"
    using S by (simp_all add: source_def)
  have run: "hashmap_rehash_one hm = Some (Inr ?hm')"
    unfolding hashmap_rehash_one_def Let_def
    by (simp add: S' os1 heq hashmap_free_table_def res_bind_def)
  have a: "active ?hm' = active hm" and s: "source ?hm' = zero_table"
    by (simp_all add: active_def source_def)
  have inv': "hashmap_inv ?hm'"
  proof (rule hashmap_invI)
    show "ISC_HASHMAP_VALID ?hm'" using hashmap_invD(1)[OF inv] by (simp add: ISC_HASHMAP_VALID_def)
    show "hm_hindex ?hm' = 0 \<or> hm_hindex ?hm' = 1" using hashmap_invD(2)[OF inv] by simp
    show "tbl_wf (hm_case_sensitive ?hm') (active ?hm')" using hashmap_invD(3)[OF inv] by (simp add: a)
    show "unat (hm_count ?hm') = tab_count (active ?hm') + tab_count (source ?hm')"
      using hashmap_invD(4)[OF inv] emp by (simp add: a s)
    show "t_table (source ?hm') = None \<Longrightarrow> source ?hm' = zero_table \<and> hm_hiter ?hm' = 0"
      by (simp add: s)
  next
    fix stbl assume "t_table (source ?hm') = Some stbl"
    then have False by (simp add: s)
    then show "tbl_wf (hm_case_sensitive ?hm') (source ?hm') \<and>
       unat (t_hashbits (source ?hm')) \<le> 31 \<and>
       (\<forall>x\<in>tab_entries (active ?hm'). \<forall>y\<in>tab_entries (source ?hm'). \<not> same_key (hm_case_sensitive ?hm') x y) \<and>
       (\<forall>p. p < hm_hiter ?hm' \<longrightarrow> n_key (stbl p) = None) \<and>
       unat (hm_hiter ?hm') \<le> 2 ^ unat (t_hashbits (source ?hm'))" ..
  qed
  have "contents ?hm' = contents hm"
    using tab_count_zero_entries[OF emp] by (simp add: contents_def a s)
  with run inv' a s show ?thesis by (intro exI[of _ ?hm']) simp
qed

text \<open>A step of a rehash: the first node of the source table moves to the active table.\<close>

lemma rehash_one_move:
  assumes inv: "hashmap_inv hm" and reh: "t_table (source hm) \<noteq> None"
    and ne: "tab_count (source hm) \<noteq> 0"
    and cap: "tab_count (active hm) + tab_count (source hm) \<le> 2 ^ unat (t_hashbits (active hm))"
  shows "\<exists>hm'. hashmap_rehash_one hm = Some (Inr hm') \<and> hashmap_inv hm' \<and> contents hm' = contents hm \<and>
      hm_count hm' = hm_count hm \<and> hm_hindex hm' = hm_hindex hm \<and>
      hm_case_sensitive hm' = hm_case_sensitive hm \<and> hm_hash_key hm' = hm_hash_key hm \<and>
      t_hashbits (active hm') = t_hashbits (active hm) \<and> t_table (source hm') \<noteq> None \<and>
      t_hashbits (source hm') = t_hashbits (source hm) \<and>
      Suc (tab_count (source hm')) = tab_count (source hm) \<and>
      tab_count (active hm') = Suc (tab_count (active hm))"
proof -
  let ?oi = "hashmap_nexttable (hm_hindex hm)" and ?ai = "hm_hindex hm"
  let ?cs = "hm_case_sensitive hm"
  let ?bs = "unat (t_hashbits (source hm))"
  note wfa = hashmap_invD(3)[OF inv]
  note wfs = hashmap_invD(7)[OF inv reh] and b31 = hashmap_invD(8)[OF inv reh]
  from wfs obtain S where S: "t_table (source hm) = Some S" "t_hashmask (source hm) = mask ?bs"
    "t_size (source hm) = push_bit ?bs 1"
    "table_ok ?cs S (t_hashbits (source hm)) (mask ?bs)"
    "tab_entries (source hm) = entries S (mask ?bs)" by (rule tbl_wfD)
  note os = oldsize_31[OF b31]
  have os1: "(ucast (2 ^ ?bs :: 64 word) :: 32 word) = 2 ^ ?bs" using os(1) by simp
  have hle: "hm_hiter hm \<le> 2 ^ ?bs" using hashmap_invD(11)[OF inv reh] by (simp add: word_le_nat_alt os(2))
  note sk = rehash_skip_spec[OF hle, of S]
  let ?h = "hashmap_rehash_skip S (2 ^ ?bs) (hm_hiter hm)"
  have hne: "?h \<noteq> 2 ^ ?bs"
  proof
    assume heq: "?h = 2 ^ ?bs"
    have "\<And>p. p \<le> mask ?bs \<Longrightarrow> n_key (S p) = None"
    proof -
      fix p :: "32 word" assume "p \<le> mask ?bs"
      then have lt: "p < 2 ^ ?bs" by (simp add: os(3))
      show "n_key (S p) = None"
      proof (cases "p < hm_hiter hm")
        case True then show ?thesis using hashmap_invD(10)[OF inv S(1)] by blast
      next
        case False
        then have "hm_hiter hm \<le> p" by simp
        then show ?thesis using sk lt heq by auto
      qed
    qed
    then have "tab_count (source hm) = 0" using tab_count_zero_iff[OF S(1)] by (simp add: S(2))
    with ne show False by simp
  qed
  with sk have hlt: "?h < 2 ^ ?bs" by (simp add: word_le_less_eq)
  then have hm: "?h \<le> t_hashmask (source hm)" by (simp add: os(3) S(2))
  have hocc: "n_key (S ?h) \<noteq> None" using sk hlt by blast
  then obtain k where k: "n_key (S ?h) = Some k" by auto
  have nok: "node_ok (S ?h)" using table_okD(3)[OF S(4)] hm by (simp add: keys_ok_def S(2))
  note ks = node_ok_keysize[OF nok k]
  have sin: "strip (S ?h) \<in> tab_entries (source hm)"
    using hm hocc unfolding S(5) entries_def S(2) by blast
  let ?hm1 = "hm\<lparr>hm_hiter := ?h\<rparr>"
  have wf1: "tbl_wf (hm_case_sensitive ?hm1) (hm_tables ?hm1 ?oi)" using wfs by (simp add: source_def)
  have tt1: "t_table (hm_tables ?hm1 ?oi) = Some S" using S(1) by (simp add: source_def)
  have hm1: "?h \<le> t_hashmask (hm_tables ?hm1 ?oi)" using hm by (simp add: source_def)
  from hashmap_delete_node_ok[OF wf1 tt1 hm1 hocc] obtain F where
    F: "hashmap_delete_node ?hm1 ?h (n_hashval (S ?h)) (n_psl (S ?h)) ?oi =
           Some (Inr (?hm1\<lparr>hm_count := hm_count ?hm1 - 1,
                hm_tables := (hm_tables ?hm1)(?oi := (hm_tables ?hm1 ?oi)\<lparr>t_table := Some F\<rparr>)\<rparr>))"
       "tbl_wf (hm_case_sensitive ?hm1) ((hm_tables ?hm1 ?oi)\<lparr>t_table := Some F\<rparr>)"
       "tab_entries ((hm_tables ?hm1 ?oi)\<lparr>t_table := Some F\<rparr>) =
           tab_entries (hm_tables ?hm1 ?oi) - {strip (S ?h)}"
       "Suc (tab_count ((hm_tables ?hm1 ?oi)\<lparr>t_table := Some F\<rparr>)) = tab_count (hm_tables ?hm1 ?oi)"
       "\<forall>p. p \<le> t_hashmask (hm_tables ?hm1 ?oi) \<longrightarrow> n_key (S p) = None \<longrightarrow> n_key (F p) = None"
    by blast
  let ?s' = "(source hm)\<lparr>t_table := Some F\<rparr>"
  let ?hm2 = "hm\<lparr>hm_hiter := ?h, hm_count := hm_count hm - 1,
                hm_tables := (hm_tables hm)(?oi := ?s')\<rparr>"
  have F1: "hashmap_delete_node ?hm1 ?h (n_hashval (S ?h)) (n_psl (S ?h)) ?oi = Some (Inr ?hm2)"
    using F(1) by (simp add: source_def)
  have F2: "tbl_wf ?cs ?s'" "tab_entries ?s' = tab_entries (source hm) - {strip (S ?h)}"
    "Suc (tab_count ?s') = tab_count (source hm)"
    "\<And>p. p \<le> mask ?bs \<Longrightarrow> n_key (S p) = None \<Longrightarrow> n_key (F p) = None"
    using F(2,3,4,5) by (simp_all add: source_def S(2)[unfolded source_def])
  have a2: "hm_tables ?hm2 ?ai = active hm" by (simp add: active_def)
  have wf2: "tbl_wf (hm_case_sensitive ?hm2) (hm_tables ?hm2 (hm_hindex ?hm2))" using wfa by (simp add: active_def)
  have room: "tab_count (hm_tables ?hm2 (hm_hindex ?hm2)) < 2 ^ unat (t_hashbits (hm_tables ?hm2 (hm_hindex ?hm2)))"
    using cap ne by (simp add: active_def)
  have none: "\<forall>x\<in>tab_entries (hm_tables ?hm2 (hm_hindex ?hm2)).
                \<not> hashmap_match x (n_hashval (S ?h)) k (hm_case_sensitive ?hm2)"
  proof
    fix x assume "x \<in> tab_entries (hm_tables ?hm2 (hm_hindex ?hm2))"
    then have "x \<in> tab_entries (active hm)" by (simp add: active_def)
    from hashmap_invD(9)[OF inv reh this sin] have "\<not> same_key ?cs x (S ?h)" by simp
    then show "\<not> hashmap_match x (n_hashval (S ?h)) k (hm_case_sensitive ?hm2)"
      by (simp add: same_key_def k)
  qed
  from hashmap_add_new[OF wf2 room none ks(2), of "n_value (S ?h)"] obtain A' where
    A: "hashmap_add ?hm2 (n_hashval (S ?h)) (Some k) (n_value (S ?h)) (hm_hindex ?hm2) =
           Some (Inr (ISC_R_SUCCESS,
             ?hm2\<lparr>hm_count := hm_count ?hm2 + 1,
                hm_tables := (hm_tables ?hm2)(hm_hindex ?hm2 := (hm_tables ?hm2 (hm_hindex ?hm2))\<lparr>t_table := Some A'\<rparr>)\<rparr>))"
       "tbl_wf (hm_case_sensitive ?hm2) ((hm_tables ?hm2 (hm_hindex ?hm2))\<lparr>t_table := Some A'\<rparr>)"
       "tab_entries ((hm_tables ?hm2 (hm_hindex ?hm2))\<lparr>t_table := Some A'\<rparr>) =
           insert \<lparr>n_key = Some k, n_value = n_value (S ?h), n_hashval = n_hashval (S ?h), n_psl = 0,
                   n_keysize = of_nat (length k)\<rparr>
             (tab_entries (hm_tables ?hm2 (hm_hindex ?hm2)))"
       "tab_count ((hm_tables ?hm2 (hm_hindex ?hm2))\<lparr>t_table := Some A'\<rparr>) =
           Suc (tab_count (hm_tables ?hm2 (hm_hindex ?hm2)))"
    by blast
  have node_eq: "\<lparr>n_key = Some k, n_value = n_value (S ?h), n_hashval = n_hashval (S ?h), n_psl = 0,
                   n_keysize = of_nat (length k)\<rparr> = strip (S ?h)"
    using k nok by (simp add: strip_def node_ok_def)
  let ?a' = "(active hm)\<lparr>t_table := Some A'\<rparr>"
  let ?hm3 = "hm\<lparr>hm_hiter := ?h, hm_tables := (hm_tables hm)(?oi := ?s', ?ai := ?a')\<rparr>"
  have A1: "hashmap_add ?hm2 (n_hashval (S ?h)) (n_key (S ?h)) (n_value (S ?h)) (hm_hindex ?hm2) =
           Some (Inr (ISC_R_SUCCESS, ?hm3))"
    using A(1) by (simp add: k active_def)
  have A2: "tbl_wf ?cs ?a'" "tab_entries ?a' = insert (strip (S ?h)) (tab_entries (active hm))"
    "tab_count ?a' = Suc (tab_count (active hm))"
    using A(2,3,4) by (simp_all add: active_def node_eq)
  have S': "t_table (hm_tables hm ?oi) = Some S" "t_size (hm_tables hm ?oi) = push_bit ?bs 1"
    using S by (simp_all add: source_def)
  have run: "hashmap_rehash_one hm = Some (Inr ?hm3)"
    unfolding hashmap_rehash_one_def Let_def
    using hne F1 A1 by (simp add: S' os1 res_bind_def)
  have a: "active ?hm3 = ?a'" and s: "source ?hm3 = ?s'"
    by (simp_all add: active_def source_def)
  have inv': "hashmap_inv ?hm3"
  proof (rule hashmap_invI)
    show "ISC_HASHMAP_VALID ?hm3" using hashmap_invD(1)[OF inv] by (simp add: ISC_HASHMAP_VALID_def)
    show "hm_hindex ?hm3 = 0 \<or> hm_hindex ?hm3 = 1" using hashmap_invD(2)[OF inv] by simp
    show "tbl_wf (hm_case_sensitive ?hm3) (active ?hm3)" using A2(1) by (simp add: a)
    show "unat (hm_count ?hm3) = tab_count (active ?hm3) + tab_count (source ?hm3)"
      using hashmap_invD(4)[OF inv] A2(3) F2(3) by (simp add: a s)
    show "t_table (source ?hm3) = None \<Longrightarrow> source ?hm3 = zero_table \<and> hm_hiter ?hm3 = 0"
      by (simp add: s)
  next
    fix stbl assume "t_table (source ?hm3) = Some stbl"
    then have st: "stbl = F" by (simp add: s)
    have c1: "tbl_wf (hm_case_sensitive ?hm3) (source ?hm3)" using F2(1) by (simp add: s)
    have c2: "unat (t_hashbits (source ?hm3)) \<le> 31" using b31 by (simp add: s)
    have c3: "\<forall>x\<in>tab_entries (active ?hm3). \<forall>y\<in>tab_entries (source ?hm3). \<not> same_key (hm_case_sensitive ?hm3) x y"
    proof (intro ballI)
      fix x y assume x: "x \<in> tab_entries (active ?hm3)" and y: "y \<in> tab_entries (source ?hm3)"
      from y have y': "y \<in> tab_entries (source hm)" "y \<noteq> strip (S ?h)" by (simp_all add: s F2(2))
      from x have "x = strip (S ?h) \<or> x \<in> tab_entries (active hm)" by (simp add: a A2(2))
      then show "\<not> same_key (hm_case_sensitive ?hm3) x y"
      proof
        assume xe: "x = strip (S ?h)"
        show ?thesis
        proof
          assume "same_key (hm_case_sensitive ?hm3) x y"
          then have "same_key ?cs (strip (S ?h)) y" by (simp add: xe)
          from entries_distinct[OF table_okD(4)[OF S(4)] sin[unfolded S(5)] y'(1)[unfolded S(5)] this]
          show False using y'(2) by simp
        qed
      next
        assume "x \<in> tab_entries (active hm)"
        from hashmap_invD(9)[OF inv reh this y'(1)] show ?thesis by simp
      qed
    qed
    have c4: "\<forall>p. p < hm_hiter ?hm3 \<longrightarrow> n_key (stbl p) = None"
    proof (intro allI impI)
      fix p assume "p < hm_hiter ?hm3"
      then have p: "p < ?h" by simp
      then have "p < 2 ^ ?bs" using hlt by simp
      then have pm: "p \<le> mask ?bs" by (simp add: os(3))
      have "n_key (S p) = None"
      proof (cases "p < hm_hiter hm")
        case True then show ?thesis using hashmap_invD(10)[OF inv S(1)] by blast
      next
        case False
        then have "hm_hiter hm \<le> p" by simp
        then show ?thesis using sk p by blast
      qed
      then show "n_key (stbl p) = None" using F2(4)[OF pm] by (simp add: st)
    qed
    have c5: "unat (hm_hiter ?hm3) \<le> 2 ^ unat (t_hashbits (source ?hm3))"
      using hlt by (simp add: s word_less_nat_alt os(2))
    from c1 c2 c3 c4 c5 show "tbl_wf (hm_case_sensitive ?hm3) (source ?hm3) \<and>
       unat (t_hashbits (source ?hm3)) \<le> 31 \<and>
       (\<forall>x\<in>tab_entries (active ?hm3). \<forall>y\<in>tab_entries (source ?hm3). \<not> same_key (hm_case_sensitive ?hm3) x y) \<and>
       (\<forall>p. p < hm_hiter ?hm3 \<longrightarrow> n_key (stbl p) = None) \<and>
       unat (hm_hiter ?hm3) \<le> 2 ^ unat (t_hashbits (source ?hm3))" by blast
  qed
  have cont: "contents ?hm3 = contents hm"
    using sin by (auto simp: contents_def a s A2(2) F2(2))
  show ?thesis
    using run inv' cont A2(3) F2(3) by (intro exI[of _ ?hm3]) (simp add: a s)
qed

subsection \<open>Thresholds and widths\<close>

lemma rehash_one_spec:
  assumes inv: "hashmap_inv hm" and reh: "t_table (source hm) \<noteq> None"
    and cap: "unat (hm_count hm) \<le> 2 ^ unat (t_hashbits (active hm))"
  shows "\<exists>hm'. hashmap_rehash_one hm = Some (Inr hm') \<and> hashmap_inv hm' \<and> contents hm' = contents hm \<and>
      hm_count hm' = hm_count hm \<and> hm_hindex hm' = hm_hindex hm \<and>
      hm_case_sensitive hm' = hm_case_sensitive hm \<and> hm_hash_key hm' = hm_hash_key hm \<and>
      t_hashbits (active hm') = t_hashbits (active hm) \<and>
      (t_table (source hm') \<noteq> None \<longrightarrow> t_hashbits (source hm') = t_hashbits (source hm)) \<and>
      load_step hm hm'"
proof (cases "tab_count (source hm) = 0")
  case True
  from rehash_one_free[OF inv reh True] obtain hm' where
    h: "hashmap_rehash_one hm = Some (Inr hm')" "hashmap_inv hm'" "contents hm' = contents hm"
      "hm_count hm' = hm_count hm" "hm_hindex hm' = hm_hindex hm"
      "hm_case_sensitive hm' = hm_case_sensitive hm" "hm_hash_key hm' = hm_hash_key hm"
      "active hm' = active hm" "t_table (source hm') = None" by blast
  have "load_step hm hm'"
    using True h(4,9) by (simp add: load_step_def load_def tab_count_def rehashing_source)
  with h show ?thesis by auto
next
  case False
  have "tab_count (active hm) + tab_count (source hm) \<le> 2 ^ unat (t_hashbits (active hm))"
    using cap hashmap_invD(4)[OF inv] by simp
  from rehash_one_move[OF inv reh False this] obtain hm' where
    h: "hashmap_rehash_one hm = Some (Inr hm')" "hashmap_inv hm'" "contents hm' = contents hm"
      "hm_count hm' = hm_count hm" "hm_hindex hm' = hm_hindex hm"
      "hm_case_sensitive hm' = hm_case_sensitive hm" "hm_hash_key hm' = hm_hash_key hm"
      "t_hashbits (active hm') = t_hashbits (active hm)" "t_table (source hm') \<noteq> None"
      "t_hashbits (source hm') = t_hashbits (source hm)"
      "Suc (tab_count (source hm')) = tab_count (source hm)" by blast
  have "load_step hm hm'"
    using h(4,11) by (simp add: load_step_def load_def)
  with h show ?thesis by auto
qed

lemma empty_table_ok [simp]:
  "table_ok cs (\<lambda>_. zero_node) bits m" "entries (\<lambda>_. zero_node) m = {}" "occ (\<lambda>_. zero_node) m = {}"
  by (simp_all add: table_ok_def psl_ok_def rh_ok_def keys_ok_def distinct_keys_def entries_def occ_def)

lemma bits_word:
  fixes bits :: "8 word"
  shows "unat (ucast bits :: 32 word) = unat bits"
proof -
  have "unat bits < 2 ^ 8" using unsigned_less[of bits] by simp
  then have "unat bits < 2 ^ 32" by simp
  then show ?thesis by (simp add: unsigned_ucast_eq take_bit_nat_eq_self_iff)
qed

lemma bits_eq_iff:
  fixes bits :: "8 word"
  shows "(ucast bits :: 32 word) = ucast (c :: 8 word) \<longleftrightarrow> unat bits = unat c"
  by (simp add: word_unat_eq_iff bits_word)

text \<open>The thresholds, in natural numbers.\<close>

lemma approx_nat:
  assumes "b \<le> 32"
  shows "unat (APPROX_90_PERCENT (HASHSIZE b)) = (2 ^ b * 921) div 1024"
    "unat (APPROX_40_PERCENT (HASHSIZE b)) = (2 ^ b * 409) div 1024"
    "unat (APPROX_20_PERCENT (HASHSIZE b)) = (2 ^ b * 205) div 1024"
  using unat_approx[OF assms, of 921] unat_approx[OF assms, of 409] unat_approx[OF assms, of 205]
  by (simp_all add: APPROX_90_PERCENT_def APPROX_40_PERCENT_def APPROX_20_PERCENT_def HASHSIZE_def)

lemma over_threshold_nat:
  assumes "1 \<le> unat (t_hashbits (active hm))" "unat (t_hashbits (active hm)) \<le> 32"
  shows "over_threshold hm =
     Inr (unat (t_hashbits (active hm)) \<noteq> 32 \<and>
          unat (hm_count hm) > (2 ^ unat (t_hashbits (active hm)) * 921) div 1024)"
proof -
  let ?b = "t_hashbits (active hm)"
  have e: "(ucast ?b :: 32 word) = ucast HASHMAP_MAX_BITS \<longleftrightarrow> unat ?b = 32"
    by (simp add: word_unat_eq_iff bits_word HASHMAP_MAX_BITS_def)
  have lt: "(ucast ?b :: 32 word) < 64" using assms(2) by (simp add: word_less_nat_alt bits_word)
  show ?thesis
    unfolding over_threshold_def Let_def active_def[symmetric]
    using e lt approx_nat(1)[OF assms(2)] by (auto simp: word_less_nat_alt bits_word)
qed

lemma under_threshold_nat:
  assumes "1 \<le> unat (t_hashbits (active hm))" "unat (t_hashbits (active hm)) \<le> 32"
  shows "under_threshold hm =
     Inr (unat (t_hashbits (active hm)) \<noteq> 1 \<and>
          unat (hm_count hm) < (2 ^ unat (t_hashbits (active hm)) * 205) div 1024)"
proof -
  let ?b = "t_hashbits (active hm)"
  have e: "(ucast ?b :: 32 word) = ucast HASHMAP_MIN_BITS \<longleftrightarrow> unat ?b = 1"
    by (simp add: word_unat_eq_iff bits_word HASHMAP_MIN_BITS_def)
  have lt: "(ucast ?b :: 32 word) < 64" using assms(2) by (simp add: word_less_nat_alt bits_word)
  show ?thesis
    unfolding under_threshold_def Let_def active_def[symmetric]
    using e lt approx_nat(3)[OF assms(2)] by (auto simp: word_less_nat_alt bits_word)
qed

lemma approx40_33: "unat (APPROX_40_PERCENT (HASHSIZE 33)) = 3430940672"
  by (simp add: APPROX_40_PERCENT_def HASHSIZE_def)

lemma grow_bits_loop_spec:
  assumes cnt: "unat cnt \<le> 2 ^ 31"
  shows "unat nb \<le> 33 \<Longrightarrow>
     \<exists>n. grow_bits_loop cnt nb = Inr n \<and> unat nb \<le> unat n \<and> unat n \<le> 33 \<and>
         (unat n \<le> 32 \<longrightarrow> unat cnt \<le> (2 ^ unat n * 409) div 1024) \<and>
         (\<forall>j. unat nb \<le> j \<and> j < unat n \<longrightarrow> (2 ^ j * 409) div 1024 < unat cnt)"
proof (induction "33 - unat nb" arbitrary: nb)
  case 0
  then have nb: "unat nb = 33" by simp
  have lt: "nb < 64" using nb by (simp add: word_less_nat_alt)
  have "\<not> cnt > APPROX_40_PERCENT (HASHSIZE (unat nb))"
    using cnt by (simp add: word_less_nat_alt nb approx40_33)
  then have "grow_bits_loop cnt nb = Inr nb" using lt by (subst grow_bits_loop.simps) simp
  then show ?case using nb by simp
next
  case (Suc k)
  then have nb: "unat nb \<le> 32" by simp
  have lt: "nb < 64" using nb by (simp add: word_less_nat_alt)
  note a = approx_nat(2)[OF nb]
  show ?case
  proof (cases "cnt > APPROX_40_PERCENT (HASHSIZE (unat nb))")
    case False
    then have "grow_bits_loop cnt nb = Inr nb" using lt by (subst grow_bits_loop.simps) simp
    moreover have "unat cnt \<le> (2 ^ unat nb * 409) div 1024" using False a by (simp add: word_less_nat_alt)
    ultimately show ?thesis using nb by simp
  next
    case True
    have u: "unat (nb + 1) = unat nb + 1" using lt by (rule unat_inc)
    have step: "grow_bits_loop cnt nb = grow_bits_loop cnt (nb + 1)"
      using lt True by (subst grow_bits_loop.simps) simp
    have gt: "(2 ^ unat nb * 409) div 1024 < unat cnt" using True a by (simp add: word_less_nat_alt)
    have k: "k = 33 - unat (nb + 1)" and le: "unat (nb + 1) \<le> 33" using Suc.hyps(2) nb u by simp_all
    from Suc.hyps(1)[OF k le] u
    obtain n where n: "grow_bits_loop cnt (nb + 1) = Inr n" "unat nb + 1 \<le> unat n" "unat n \<le> 33"
      "unat n \<le> 32 \<longrightarrow> unat cnt \<le> (2 ^ unat n * 409) div 1024"
      "\<forall>j. unat nb + 1 \<le> j \<and> j < unat n \<longrightarrow> (2 ^ j * 409) div 1024 < unat cnt"
      by auto
    have "\<forall>j. unat nb \<le> j \<and> j < unat n \<longrightarrow> (2 ^ j * 409) div 1024 < unat cnt"
    proof (intro allI impI)
      fix j assume j: "unat nb \<le> j \<and> j < unat n"
      show "(2 ^ j * 409) div 1024 < unat cnt"
      proof (cases "j = unat nb")
        case True then show ?thesis using gt by simp
      next
        case False then show ?thesis using j n(5) by simp
      qed
    qed
    then show ?thesis using step n(1-4) by auto
  qed
qed

text \<open>The new width of a grow: the least width above the current one whose table is at most
  40 percent full, and at most 32.\<close>

lemma grow_bits_spec:
  assumes b: "1 \<le> unat (t_hashbits (active hm))" "unat (t_hashbits (active hm)) \<le> 31"
    and cnt: "unat (hm_count hm) \<le> 2 ^ 31"
  shows "\<exists>n. grow_bits hm = Inr n \<and> unat (t_hashbits (active hm)) < unat n \<and> unat n \<le> 32 \<and>
         (unat n < 32 \<longrightarrow> unat (hm_count hm) \<le> (2 ^ unat n * 409) div 1024) \<and>
         (\<forall>j. unat (t_hashbits (active hm)) < j \<and> j < unat n \<longrightarrow>
              (2 ^ j * 409) div 1024 < unat (hm_count hm))"
proof -
  let ?b = "t_hashbits (active hm)"
  let ?nb = "(ucast ?b :: 32 word) + 1"
  have ub: "unat (ucast ?b :: 32 word) = unat ?b" by (rule bits_word)
  have "(ucast ?b :: 32 word) < 64" using b(2) by (simp add: word_less_nat_alt ub)
  then have u: "unat ?nb = unat ?b + 1" using unat_inc[of "ucast ?b :: 32 word" 64] by (simp add: ub)
  then have "unat ?nb \<le> 33" using b(2) by simp
  from grow_bits_loop_spec[OF cnt this] obtain n where
    n: "grow_bits_loop (hm_count hm) ?nb = Inr n" "unat ?nb \<le> unat n" "unat n \<le> 33"
      "unat n \<le> 32 \<longrightarrow> unat (hm_count hm) \<le> (2 ^ unat n * 409) div 1024"
      "\<forall>j. unat ?nb \<le> j \<and> j < unat n \<longrightarrow> (2 ^ j * 409) div 1024 < unat (hm_count hm)"
    by blast
  have mx: "unat (ucast HASHMAP_MAX_BITS :: 32 word) = 32" by (simp add: HASHMAP_MAX_BITS_def)
  let ?r = "if n > ucast HASHMAP_MAX_BITS then ucast HASHMAP_MAX_BITS else n"
  have g: "grow_bits hm = Inr ?r" using n(1) by (simp add: grow_bits_def active_def)
  have r: "unat ?r = min 32 (unat n)" using mx by (auto simp: word_less_nat_alt)
  have "unat ?b < unat ?r" using n(2) u b(2) unfolding r by simp
  moreover have "unat ?r \<le> 32" unfolding r by simp
  moreover have "unat ?r < 32 \<longrightarrow> unat (hm_count hm) \<le> (2 ^ unat ?r * 409) div 1024"
    using n(4) unfolding r by (auto simp: min_def)
  moreover have "\<forall>j. unat ?b < j \<and> j < unat ?r \<longrightarrow> (2 ^ j * 409) div 1024 < unat (hm_count hm)"
    using n(5) u unfolding r by auto
  ultimately show ?thesis using g by blast
qed

lemma shrink_bits_spec:
  assumes b: "2 \<le> unat (t_hashbits (active hm))"
  shows "unat (shrink_bits hm) = unat (t_hashbits (active hm)) - 1"
proof -
  let ?b = "t_hashbits (active hm)"
  have ub: "unat (ucast ?b :: 32 word) = unat ?b" by (rule bits_word)
  have nz: "(ucast ?b :: 32 word) \<noteq> 0" using b by (simp add: word_unat_eq_iff ub)
  have u: "unat ((ucast ?b :: 32 word) - 1) = unat ?b - 1" using unat_dec[OF nz] by (simp add: ub)
  have mn: "unat (ucast HASHMAP_MIN_BITS :: 32 word) = 1" by (simp add: HASHMAP_MIN_BITS_def)
  show ?thesis
    unfolding shrink_bits_def Let_def active_def[symmetric]
    using u mn b by (auto simp: word_le_nat_alt)
qed

lemma ucast_bits_32_8:
  fixes nb :: "32 word"
  assumes "unat nb \<le> 32"
  shows "unat (ucast nb :: 8 word) = unat nb"
proof -
  have "unat nb < 2 ^ 8" using assms by simp
  then show ?thesis by (simp add: unsigned_ucast_eq take_bit_nat_eq_self_iff)
qed

text \<open>The start of a rehash: a new, empty table becomes the active one.\<close>

lemma start_new_table:
  assumes inv: "hashmap_inv hm" and nr: "t_table (source hm) = None"
    and nb: "1 \<le> unat (nb :: 32 word)" "unat nb \<le> 32"
    and b31: "unat (t_hashbits (active hm)) \<le> 31"
  shows "\<exists>hm'. (case hashmap_create_table hm (hashmap_nexttable (hm_hindex hm)) (ucast nb) of
                  Inl f \<Rightarrow> Inl f
                | Inr hashmap \<Rightarrow> Inr (hashmap\<lparr>hm_hindex := hashmap_nexttable (hm_hindex hm)\<rparr>)) = Inr hm' \<and>
      hashmap_inv hm' \<and> source hm' = active hm \<and> unat (t_hashbits (active hm')) = unat nb \<and>
      tab_count (active hm') = 0 \<and> contents hm' = contents hm \<and> hm_count hm' = hm_count hm \<and>
      hm_case_sensitive hm' = hm_case_sensitive hm \<and> hm_hash_key hm' = hm_hash_key hm \<and>
      hm_hindex hm' = hashmap_nexttable (hm_hindex hm)"
proof -
  let ?ni = "hashmap_nexttable (hm_hindex hm)"
  let ?b8 = "ucast nb :: 8 word"
  have u8: "unat ?b8 = unat nb" using nb(2) by (rule ucast_bits_32_8)
  let ?newt = "\<lparr>t_size = HASHSIZE (unat ?b8), t_hashbits = ?b8,
                t_hashmask = ucast (HASHSIZE (unat ?b8) - 1), t_table = Some (\<lambda>_. zero_node)\<rparr>
               :: 'a hashmap_table"
  let ?hm' = "hm\<lparr>hm_tables := (hm_tables hm)(?ni := ?newt), hm_hindex := ?ni\<rparr>"
  note z = hashmap_invD(5)[OF inv nr] and h0 = hashmap_invD(6)[OF inv nr]
  have z': "hm_tables hm ?ni = zero_table" using z by (simp add: source_def)
  have ge: "?b8 \<ge> HASHMAP_MIN_BITS" and le: "?b8 \<le> HASHMAP_MAX_BITS"
    using nb by (simp_all add: word_le_nat_alt u8 HASHMAP_MIN_BITS_def HASHMAP_MAX_BITS_def)
  have run: "(case hashmap_create_table hm ?ni ?b8 of
                  Inl f \<Rightarrow> Inl f
                | Inr hashmap \<Rightarrow> Inr (hashmap\<lparr>hm_hindex := ?ni\<rparr>)) = Inr ?hm'"
    using ge le by (simp add: hashmap_create_table_def z' zero_table_def HASHMAP_NO_BITS_def)
  have nn: "hashmap_nexttable ?ni = hm_hindex hm" using hashmap_invD(2)[OF inv] by (rule nexttable_twice)
  have a: "active ?hm' = ?newt" by (simp add: active_def)
  have s: "source ?hm' = active hm" by (simp add: source_def active_def nn)
  have hmsk: "t_hashmask ?newt = mask (unat ?b8)"
    using ucast_hashsize[of "unat ?b8"] nb(2) by (simp add: HASHSIZE_def u8)
  have wfn: "tbl_wf (hm_case_sensitive hm) ?newt"
    using nb hmsk by (intro tbl_wfI[of _ "\<lambda>_. zero_node"]) (simp_all add: u8 HASHSIZE_def)
  have en: "tab_entries ?newt = {}" "tab_count ?newt = 0"
    by (simp_all add: tab_entries_def tab_count_def)
  note wfa = hashmap_invD(3)[OF inv]
  from wfa obtain A where A: "t_table (active hm) = Some A" by (rule tbl_wfD)
  have inv': "hashmap_inv ?hm'"
  proof (rule hashmap_invI)
    show "ISC_HASHMAP_VALID ?hm'" using hashmap_invD(1)[OF inv] by (simp add: ISC_HASHMAP_VALID_def)
    show "hm_hindex ?hm' = 0 \<or> hm_hindex ?hm' = 1" using hashmap_invD(2)[OF inv] by auto
    show "tbl_wf (hm_case_sensitive ?hm') (active ?hm')" unfolding a using wfn by simp
    show "unat (hm_count ?hm') = tab_count (active ?hm') + tab_count (source ?hm')"
      unfolding a s using hashmap_invD(4)[OF inv] nr en by simp
    show "t_table (source ?hm') = None \<Longrightarrow> source ?hm' = zero_table \<and> hm_hiter ?hm' = 0"
      unfolding s using A by simp
  next
    fix stbl assume "t_table (source ?hm') = Some stbl"
    have "tbl_wf (hm_case_sensitive ?hm') (source ?hm')" unfolding s using wfa by simp
    moreover have "unat (t_hashbits (source ?hm')) \<le> 31" unfolding s using b31 .
    moreover have "\<forall>x\<in>tab_entries (active ?hm'). \<forall>y\<in>tab_entries (source ?hm').
        \<not> same_key (hm_case_sensitive ?hm') x y" unfolding a en by simp
    moreover have "\<forall>p. p < hm_hiter ?hm' \<longrightarrow> n_key (stbl p) = None" using h0 by simp
    moreover have "unat (hm_hiter ?hm') \<le> 2 ^ unat (t_hashbits (source ?hm'))" using h0 by simp
    ultimately show "tbl_wf (hm_case_sensitive ?hm') (source ?hm') \<and>
       unat (t_hashbits (source ?hm')) \<le> 31 \<and>
       (\<forall>x\<in>tab_entries (active ?hm'). \<forall>y\<in>tab_entries (source ?hm'). \<not> same_key (hm_case_sensitive ?hm') x y) \<and>
       (\<forall>p. p < hm_hiter ?hm' \<longrightarrow> n_key (stbl p) = None) \<and>
       unat (hm_hiter ?hm') \<le> 2 ^ unat (t_hashbits (source ?hm'))" by blast
  qed
  have c: "contents ?hm' = contents hm" unfolding contents_def a s en using nr by simp
  have "unat (t_hashbits (active ?hm')) = unat nb" unfolding a by (simp add: u8)
  moreover have "tab_count (active ?hm') = 0" unfolding a by (rule en)
  ultimately show ?thesis using run inv' s c by (intro exI[of _ ?hm']) simp
qed

subsection \<open>The entry points\<close>

lemma approx_lt_pow:
  "(2 ^ b * 921) div 1024 < (2::nat) ^ b" "(2 ^ b * 205) div 1024 \<le> (2::nat) ^ (b - 1) \<or> b = 0"
proof -
  have p: "0 < (2::nat) ^ b" by simp
  then show "(2 ^ b * 921) div 1024 < (2::nat) ^ b" by linarith
  show "(2 ^ b * 205) div 1024 \<le> (2::nat) ^ (b - 1) \<or> b = 0"
  proof (cases b)
    case (Suc c)
    have "(2 ^ Suc c * 205) div 1024 \<le> (2::nat) ^ c" by simp
    then show ?thesis using Suc by simp
  qed simp
qed

lemma steady_count:
  assumes inv: "hashmap_inv hm" and nr: "t_table (source hm) = None"
  shows "unat (hm_count hm) \<le> 2 ^ unat (t_hashbits (active hm))"
proof -
  from hashmap_invD(3)[OF inv] obtain A where A: "t_table (active hm) = Some A"
    "1 \<le> unat (t_hashbits (active hm))" "unat (t_hashbits (active hm)) \<le> 32"
    "t_hashmask (active hm) = mask (unat (t_hashbits (active hm)))"
    "t_size (active hm) = push_bit (unat (t_hashbits (active hm))) 1"
    "table_ok (hm_case_sensitive hm) A (t_hashbits (active hm)) (mask (unat (t_hashbits (active hm))))"
    "tab_entries (active hm) = entries A (mask (unat (t_hashbits (active hm))))"
    "tab_count (active hm) = card (occ A (mask (unat (t_hashbits (active hm)))))" by (rule tbl_wfD)
  show ?thesis using hashmap_invD(4)[OF inv] nr card_occ_le[OF A(3), of A] by (simp add: A(8))
qed

text \<open>The first step of \<^verbatim>\<open>isc_hashmap_add\<close>: one step of a rehash in progress, or the start
  of a grow and its first step.\<close>

lemma add_step_spec:
  assumes inv: "hashmap_inv hm" and room: "room_ok hm"
  shows "\<exists>hm1. (if rehashing_in_progress hm then hashmap_rehash_one hm
               else res_bind (Some (over_threshold hm)) (\<lambda>over.
                      if over then res_bind (Some (hashmap_rehash_start_grow hm)) hashmap_rehash_one
                      else Some (Inr hm))) = Some (Inr hm1) \<and>
      hashmap_inv hm1 \<and> contents hm1 = contents hm \<and> hm_count hm1 = hm_count hm \<and>
      hm_case_sensitive hm1 = hm_case_sensitive hm \<and> hm_hash_key hm1 = hm_hash_key hm \<and>
      unat (hm_count hm1) < 2 ^ unat (t_hashbits (active hm1)) \<and>
      unat (t_hashbits (active hm)) \<le> unat (t_hashbits (active hm1)) \<and> grow_rel hm hm1 \<and>
      (hashmap_cap hm \<and> unat (hm_count hm) < 2 ^ 32 - 1 \<longrightarrow> add_ready hm1)"
proof -
  let ?b = "unat (t_hashbits (active hm))"
  from hashmap_invD(3)[OF inv] obtain A where A: "t_table (active hm) = Some A"
    and b: "1 \<le> ?b" "?b \<le> 32" by (rule tbl_wfD)
  show ?thesis
  proof (cases "rehashing_in_progress hm")
    case True
    then have reh: "t_table (source hm) \<noteq> None" by (simp add: rehashing_source)
    have lt: "unat (hm_count hm) < 2 ^ ?b" using room True by (simp add: room_ok_def)
    then have cap: "unat (hm_count hm) \<le> 2 ^ ?b" by simp
    from rehash_one_spec[OF inv reh cap] obtain hm1 where
      h: "hashmap_rehash_one hm = Some (Inr hm1)" "hashmap_inv hm1" "contents hm1 = contents hm"
        "hm_count hm1 = hm_count hm" "hm_case_sensitive hm1 = hm_case_sensitive hm"
        "hm_hash_key hm1 = hm_hash_key hm" "t_hashbits (active hm1) = t_hashbits (active hm)"
        "load_step hm hm1"
      by blast
    have "grow_rel hm hm1" using True by (simp add: grow_rel_def h(7))
    moreover have "hashmap_cap hm \<longrightarrow> add_ready hm1"
      using True h(8) by (auto simp: hashmap_cap_def add_ready_def load_step_def load_def h(7) Let_def)
    ultimately show ?thesis using True lt h(1-7) by auto
  next
    case False
    then have nr: "t_table (source hm) = None" by (simp add: rehashing_source)
    note ot = over_threshold_nat[OF b]
    note sc = steady_count[OF inv nr]
    show ?thesis
    proof (cases "?b \<noteq> 32 \<and> unat (hm_count hm) > (2 ^ ?b * 921) div 1024")
      case over: True
      then have b31: "?b \<le> 31" using b(2) by simp
      have "(2::nat) ^ ?b \<le> 2 ^ 31" using b31 by (intro power_increasing) simp_all
      then have c31: "unat (hm_count hm) \<le> 2 ^ 31" using sc by simp
      from grow_bits_spec[OF b(1) b31 c31] obtain n where
        n: "grow_bits hm = Inr n" "?b < unat n" "unat n \<le> 32"
          "unat n < 32 \<longrightarrow> unat (hm_count hm) \<le> (2 ^ unat n * 409) div 1024"
          "\<forall>j. ?b < j \<and> j < unat n \<longrightarrow> (2 ^ j * 409) div 1024 < unat (hm_count hm)" by blast
      have gt: "n > ucast (t_hashbits (active hm))" using n(2) by (simp add: word_less_nat_alt bits_word)
      have n1: "1 \<le> unat n" using n(2) by simp
      from start_new_table[OF inv nr n1 n(3) b31] obtain hmg where
        g: "(case hashmap_create_table hm (hashmap_nexttable (hm_hindex hm)) (ucast n) of
                  Inl f \<Rightarrow> Inl f
                | Inr hashmap \<Rightarrow> Inr (hashmap\<lparr>hm_hindex := hashmap_nexttable (hm_hindex hm)\<rparr>)) = Inr hmg"
          "hashmap_inv hmg" "source hmg = active hm" "unat (t_hashbits (active hmg)) = unat n"
          "contents hmg = contents hm" "hm_count hmg = hm_count hm"
          "hm_case_sensitive hmg = hm_case_sensitive hm" "hm_hash_key hmg = hm_hash_key hm"
        by blast
      have sg: "hashmap_rehash_start_grow hm = Inr hmg"
        unfolding hashmap_rehash_start_grow_def Let_def
        using False n(1) gt g(1) by (simp add: active_def)
      have rg: "t_table (source hmg) \<noteq> None" using A by (simp add: g(3))
      have "(2::nat) ^ ?b < 2 ^ unat n" using n(2) by (intro power_strict_increasing) simp_all
      with sc have "unat (hm_count hm) < 2 ^ unat n" by (rule le_less_trans)
      then have ltg: "unat (hm_count hmg) < 2 ^ unat (t_hashbits (active hmg))" by (simp add: g(4,6))
      then have capg: "unat (hm_count hmg) \<le> 2 ^ unat (t_hashbits (active hmg))" by simp
      from rehash_one_spec[OF g(2) rg capg] obtain hm1 where
        h: "hashmap_rehash_one hmg = Some (Inr hm1)" "hashmap_inv hm1" "contents hm1 = contents hmg"
          "hm_count hm1 = hm_count hmg" "hm_case_sensitive hm1 = hm_case_sensitive hmg"
          "hm_hash_key hm1 = hm_hash_key hmg" "t_hashbits (active hm1) = t_hashbits (active hmg)"
          "load_step hmg hm1"
        by blast
      have lg: "load hmg = 2 * unat (hm_count hm)"
        using hashmap_invD(4)[OF inv] nr by (simp add: load_def g(3,6))
      have ready: "add_ready hm1" if cap: "hashmap_cap hm"
      proof (cases "unat n < 32")
        case True
        with n(4) have c40: "unat (hm_count hm) \<le> (2 ^ unat n * 409) div 1024" by simp
        then have "2 * unat (hm_count hm) \<le> (2 ^ unat n * 921) div 1024" by linarith
        with c40 h(8) lg True show ?thesis
          by (auto simp: add_ready_def cap_limit_def load_step_def load_def h(4,7) g(4,6) Let_def)
      next
        case n32: False
        have "(2::nat) ^ ?b \<le> 2 ^ 31" using b31 by (intro power_increasing) simp_all
        then have "(2 ^ ?b * 921) div 1024 \<le> ((2::nat) ^ 31 * 921) div 1024"
          by (intro div_le_mono mult_le_mono1)
        moreover have "unat (hm_count hm) \<le> (2 ^ ?b * 921) div 1024 + 1"
          using cap False b31 by (simp add: hashmap_cap_def cap_limit_def Let_def)
        ultimately have "2 * unat (hm_count hm) \<le> 2 ^ 32 - 2" by simp
        with h(8) lg n32 show ?thesis
          by (auto simp: add_ready_def cap_limit_def load_step_def load_def h(4,7) g(4,6) Let_def)
      qed
      have "(if rehashing_in_progress hm then hashmap_rehash_one hm
               else res_bind (Some (over_threshold hm)) (\<lambda>over.
                      if over then res_bind (Some (hashmap_rehash_start_grow hm)) hashmap_rehash_one
                      else Some (Inr hm))) = Some (Inr hm1)"
      proof -
        have "over_threshold hm = Inr True" using ot over by simp
        then show ?thesis using False sg h(1) by (simp add: res_bind_def)
      qed
      moreover have "unat (hm_count hm1) < 2 ^ unat (t_hashbits (active hm1))" using ltg by (simp add: h(4,7))
      moreover have "?b \<le> unat (t_hashbits (active hm1))" using n(2) by (simp add: h(7) g(4))
      moreover have "grow_rel hm hm1"
        using False n(2,3,4,5) ot over by (simp add: grow_rel_def h(7) g(4))
      ultimately show ?thesis using h(2,3,4,5,6) g(5,6,7,8) ready by auto
    next
      case nover: False
      have "unat (hm_count hm) < 2 ^ ?b"
      proof (cases "?b = 32")
        case True then show ?thesis using room by (simp add: room_ok_def)
      next
        case False
        then have "unat (hm_count hm) \<le> (2 ^ ?b * 921) div 1024" using nover by simp
        then show ?thesis using approx_lt_pow(1)[of ?b] by simp
      qed
      moreover have "(if rehashing_in_progress hm then hashmap_rehash_one hm
               else res_bind (Some (over_threshold hm)) (\<lambda>over.
                      if over then res_bind (Some (hashmap_rehash_start_grow hm)) hashmap_rehash_one
                      else Some (Inr hm))) = Some (Inr hm)"
      proof -
        have "over_threshold hm = Inr False" using ot nover by simp
        then show ?thesis using False by (simp add: res_bind_def)
      qed
      moreover have "grow_rel hm hm"
      proof -
        have "over_threshold hm = Inr False" using ot nover by simp
        then show ?thesis using False by (simp add: grow_rel_def)
      qed
      moreover have "unat (hm_count hm) < 2 ^ 32 - 1 \<longrightarrow> add_ready hm"
        using False nover by (auto simp: add_ready_def cap_limit_def Let_def)
      ultimately show ?thesis using inv by auto
    qed
  qed
qed

lemma contents_node:
  assumes inv: "hashmap_inv hm" and x: "x \<in> contents hm"
  shows "n_key x \<noteq> None" "node_ok x" "n_psl x = 0"
proof -
  have "n_key x \<noteq> None \<and> node_ok x \<and> n_psl x = 0"
  proof (cases "x \<in> tab_entries (active hm)")
    case True
    from hashmap_invD(3)[OF inv] obtain A where A: "t_table (active hm) = Some A"
      "1 \<le> unat (t_hashbits (active hm))" "unat (t_hashbits (active hm)) \<le> 32"
      "t_hashmask (active hm) = mask (unat (t_hashbits (active hm)))"
      "t_size (active hm) = push_bit (unat (t_hashbits (active hm))) 1"
      "table_ok (hm_case_sensitive hm) A (t_hashbits (active hm)) (mask (unat (t_hashbits (active hm))))"
      "tab_entries (active hm) = entries A (mask (unat (t_hashbits (active hm))))" by (rule tbl_wfD)
    from entries_node[OF table_okD(3)[OF A(6)] True[unfolded A(7)]] show ?thesis by simp
  next
    case False
    then have xs: "x \<in> tab_entries (source hm)" using x by (simp add: contents_def)
    then have ne: "t_table (source hm) \<noteq> None" by (cases "t_table (source hm)") simp_all
    from hashmap_invD(7)[OF inv ne] obtain S where S: "t_table (source hm) = Some S"
      "1 \<le> unat (t_hashbits (source hm))" "unat (t_hashbits (source hm)) \<le> 32"
      "t_hashmask (source hm) = mask (unat (t_hashbits (source hm)))"
      "t_size (source hm) = push_bit (unat (t_hashbits (source hm))) 1"
      "table_ok (hm_case_sensitive hm) S (t_hashbits (source hm)) (mask (unat (t_hashbits (source hm))))"
      "tab_entries (source hm) = entries S (mask (unat (t_hashbits (source hm))))" by (rule tbl_wfD)
    from entries_node[OF table_okD(3)[OF S(6)] xs[unfolded S(7)]] show ?thesis by simp
  qed
  then show "n_key x \<noteq> None" "node_ok x" "n_psl x = 0" by simp_all
qed

text \<open>At most one node of a map matches a key.\<close>

lemma contents_unique:
  fixes hm :: "'a isc_hashmap"
  assumes inv: "hashmap_inv hm" and x: "x \<in> contents hm" and y: "y \<in> contents hm"
    and mx: "hashmap_match x hv k (hm_case_sensitive hm)"
    and my: "hashmap_match y hv k (hm_case_sensitive hm)"
  shows "x = y"
proof -
  let ?cs = "hm_case_sensitive hm"
  note nx = contents_node[OF inv x] and ny = contents_node[OF inv y]
  have sk: "same_key ?cs x y" by (rule match_same_key[OF nx(2,1) ny(2,1) mx my])
  have sk': "same_key ?cs y x" by (rule match_same_key[OF ny(2,1) nx(2,1) my mx])
  have tabs: "\<And>(t :: 'a hashmap_table) u v. tbl_wf ?cs t \<Longrightarrow> u \<in> tab_entries t \<Longrightarrow> v \<in> tab_entries t \<Longrightarrow>
                same_key ?cs u v \<Longrightarrow> u = v"
  proof -
    fix t :: "'a hashmap_table" and u v
    assume wf: "tbl_wf ?cs t" and uv: "u \<in> tab_entries t" "v \<in> tab_entries t" "same_key ?cs u v"
    from wf obtain T where T: "t_table t = Some T"
      "1 \<le> unat (t_hashbits t)" "unat (t_hashbits t) \<le> 32"
      "t_hashmask t = mask (unat (t_hashbits t))"
      "t_size t = push_bit (unat (t_hashbits t)) 1"
      "table_ok ?cs T (t_hashbits t) (mask (unat (t_hashbits t)))"
      "tab_entries t = entries T (mask (unat (t_hashbits t)))" by (rule tbl_wfD)
    show "u = v" using entries_distinct[OF table_okD(4)[OF T(6)]] uv unfolding T(7) by blast
  qed
  have src: "\<And>u. u \<in> tab_entries (source hm) \<Longrightarrow> t_table (source hm) \<noteq> None"
    by (cases "t_table (source hm)") simp_all
  from x y have "(x \<in> tab_entries (active hm) \<or> x \<in> tab_entries (source hm)) \<and>
                 (y \<in> tab_entries (active hm) \<or> y \<in> tab_entries (source hm))"
    by (simp add: contents_def)
  then show ?thesis
    using tabs[OF hashmap_invD(3)[OF inv]] tabs[OF hashmap_invD(7)[OF inv]] src
      hashmap_invD(9)[OF inv] sk sk' by blast
qed

lemma active_source_upd [simp]:
  "active (hm\<lparr>hm_count := c, hm_tables := (hm_tables hm)(hm_hindex hm := t)\<rparr>) = t"
  "source (hm\<lparr>hm_count := c, hm_tables := (hm_tables hm)(hm_hindex hm := t)\<rparr>) = source hm"
  "active (hm\<lparr>hm_count := c, hm_tables := (hm_tables hm)(hashmap_nexttable (hm_hindex hm) := t)\<rparr>) = active hm"
  "source (hm\<lparr>hm_count := c, hm_tables := (hm_tables hm)(hashmap_nexttable (hm_hindex hm) := t)\<rparr>) = t"
  by (simp_all add: active_def source_def)

lemma grow_rel_cong:
  assumes "grow_rel hm hm1" "t_hashbits (active hm2) = t_hashbits (active hm1)"
    "rehashing_in_progress hm2 = rehashing_in_progress hm1"
  shows "grow_rel hm hm2"
  using assms unfolding grow_rel_def Let_def by simp

lemma shrink_rel_cong:
  assumes "shrink_rel hm hm1" "t_hashbits (active hm2) = t_hashbits (active hm1)"
    "rehashing_in_progress hm2 = rehashing_in_progress hm1"
  shows "shrink_rel hm hm2"
  using assms unfolding shrink_rel_def Let_def by simp

lemma add_unfold:
  assumes v: "ISC_HASHMAP_VALID hm" and k: "length k \<le> 65535"
    and step: "(if rehashing_in_progress hm then hashmap_rehash_one hm
               else res_bind (Some (over_threshold hm)) (\<lambda>over.
                      if over then res_bind (Some (hashmap_rehash_start_grow hm)) hashmap_rehash_one
                      else Some (Inr hm))) = Some (Inr hm1)"
  shows "isc_hashmap_add H hm hvp (Some k) v =
     res_bind
       (if rehashing_in_progress hm1
        then hashmap_find hm1 (the_hashval H hm hvp k) k (hashmap_nexttable (hm_hindex hm1))
        else Some (Inr None))
       (\<lambda>found. if found \<noteq> None then Some (Inr (ISC_R_EXISTS, hm1))
                else hashmap_add hm1 (the_hashval H hm hvp k) (Some k) v (hm_hindex hm1))"
  using v k step by (simp add: isc_hashmap_add_def hashval_of_valid res_bind_def UINT16_MAX_def)

lemma isc_hashmap_add_exists:
  assumes inv: "hashmap_inv hm" and room: "room_ok hm" and k: "length k \<le> 65535"
    and x: "x \<in> contents hm" "hashmap_match x (the_hashval H hm hvp k) k (hm_case_sensitive hm)"
  shows "\<exists>hm'. isc_hashmap_add H hm hvp (Some k) v = Some (Inr (ISC_R_EXISTS, hm')) \<and>
      hashmap_inv hm' \<and> room_ok hm' \<and> contents hm' = contents hm \<and> hm_count hm' = hm_count hm \<and>
      hm_case_sensitive hm' = hm_case_sensitive hm \<and> hm_hash_key hm' = hm_hash_key hm \<and>
      grow_rel hm hm' \<and>
      (hashmap_cap hm \<and> unat (hm_count hm) < 2 ^ 32 - 1 \<longrightarrow> hashmap_cap hm')"
proof -
  let ?hv = "the_hashval H hm hvp k"
  from add_step_spec[OF inv room] obtain hm1 where
    s: "(if rehashing_in_progress hm then hashmap_rehash_one hm
               else res_bind (Some (over_threshold hm)) (\<lambda>over.
                      if over then res_bind (Some (hashmap_rehash_start_grow hm)) hashmap_rehash_one
                      else Some (Inr hm))) = Some (Inr hm1)"
      "hashmap_inv hm1" "contents hm1 = contents hm" "hm_count hm1 = hm_count hm"
      "hm_case_sensitive hm1 = hm_case_sensitive hm" "hm_hash_key hm1 = hm_hash_key hm"
      "unat (hm_count hm1) < 2 ^ unat (t_hashbits (active hm1))" "grow_rel hm hm1"
      "hashmap_cap hm \<and> unat (hm_count hm) < 2 ^ 32 - 1 \<longrightarrow> add_ready hm1"
    by blast
  have cap1: "hashmap_cap hm \<and> unat (hm_count hm) < 2 ^ 32 - 1 \<longrightarrow> hashmap_cap hm1"
    using s(9) by (auto simp: hashmap_cap_def add_ready_def Let_def)
  note u = add_unfold[OF hashmap_invD(1)[OF inv] k s(1), of H hvp v]
  have x1: "x \<in> contents hm1" "hashmap_match x ?hv k (hm_case_sensitive hm1)"
    using x by (simp_all add: s(3,5))
  have room1: "room_ok hm1" using s(7) by (simp add: room_ok_def)
  have res: "isc_hashmap_add H hm hvp (Some k) v = Some (Inr (ISC_R_EXISTS, hm1))"
  proof (cases "x \<in> tab_entries (source hm1)")
    case True
    then have reh: "rehashing_in_progress hm1"
      by (cases "t_table (source hm1)") (simp_all add: rehashing_source)
    from hashmap_find_source_hit[OF s(2) True x1(2)] obtain pos tbl where
      "hashmap_find hm1 ?hv k (hashmap_nexttable (hm_hindex hm1)) =
         Some (Inr (Some (hashmap_nexttable (hm_hindex hm1), pos, n_psl (tbl pos))))"
      "t_table (source hm1) = Some tbl" by blast
    then show ?thesis unfolding u using reh by (simp add: res_bind_def)
  next
    case False
    then have xa: "x \<in> tab_entries (active hm1)" using x1(1) by (simp add: contents_def)
    have add: "hashmap_add hm1 ?hv (Some k) v (hm_hindex hm1) = Some (Inr (ISC_R_EXISTS, hm1))"
      using hashmap_add_exists[OF _ _ x1(2) k, of "hm_hindex hm1" v] hashmap_invD(3)[OF s(2)] xa
      by (simp add: active_def)
    show ?thesis
    proof (cases "rehashing_in_progress hm1")
      case True
      then have ne: "t_table (source hm1) \<noteq> None" by (simp add: rehashing_source)
      have "\<forall>y\<in>tab_entries (source hm1). \<not> hashmap_match y ?hv k (hm_case_sensitive hm1)"
      proof
        fix y assume y: "y \<in> tab_entries (source hm1)"
        show "\<not> hashmap_match y ?hv k (hm_case_sensitive hm1)"
        proof
          assume "hashmap_match y ?hv k (hm_case_sensitive hm1)"
          from contents_unique[OF s(2) x1(1) _ x1(2) this] y have "x = y" by (simp add: contents_def)
          with False y show False by simp
        qed
      qed
      from hashmap_find_source_miss[OF s(2) ne this]
      show ?thesis unfolding u using True add by (simp add: res_bind_def)
    next
      case False
      then show ?thesis unfolding u using add by (simp add: res_bind_def)
    qed
  qed
  show ?thesis using res s(2,3,4,5,6,8) room1 cap1 by blast
qed

lemma unat_inc_count:
  fixes c :: "64 word"
  assumes "unat c < 2 ^ n" "n \<le> 32"
  shows "unat (c + 1) = unat c + 1"
proof -
  have "(2::nat) ^ n \<le> 2 ^ 32" using assms(2) by (intro power_increasing) simp_all
  then have "unat c < 2 ^ 32" using assms(1) by simp
  then have "unat c + unat (1 :: 64 word) < 2 ^ LENGTH(64)" by simp
  then show ?thesis by (simp add: unat_add_lem [THEN iffD1])
qed

lemma isc_hashmap_add_new:
  assumes inv: "hashmap_inv hm" and room: "room_ok hm" and k: "length k \<le> 65535"
    and none: "\<forall>x\<in>contents hm. \<not> hashmap_match x (the_hashval H hm hvp k) k (hm_case_sensitive hm)"
  shows "\<exists>hm'. isc_hashmap_add H hm hvp (Some k) v = Some (Inr (ISC_R_SUCCESS, hm')) \<and>
      hashmap_inv hm' \<and>
      contents hm' = insert \<lparr>n_key = Some k, n_value = v, n_hashval = the_hashval H hm hvp k, n_psl = 0,
                              n_keysize = of_nat (length k)\<rparr> (contents hm) \<and>
      hm_count hm' = hm_count hm + 1 \<and> unat (hm_count hm') = unat (hm_count hm) + 1 \<and>
      unat (hm_count hm') \<le> 2 ^ unat (t_hashbits (active hm')) \<and>
      hm_case_sensitive hm' = hm_case_sensitive hm \<and> hm_hash_key hm' = hm_hash_key hm \<and>
      grow_rel hm hm' \<and>
      (hashmap_cap hm \<and> unat (hm_count hm) < 2 ^ 32 - 1 \<longrightarrow> hashmap_cap hm')"
proof -
  let ?hv = "the_hashval H hm hvp k"
  let ?new = "\<lparr>n_key = Some k, n_value = v, n_hashval = ?hv, n_psl = 0, n_keysize = of_nat (length k)\<rparr>"
  from add_step_spec[OF inv room] obtain hm1 where
    s: "(if rehashing_in_progress hm then hashmap_rehash_one hm
               else res_bind (Some (over_threshold hm)) (\<lambda>over.
                      if over then res_bind (Some (hashmap_rehash_start_grow hm)) hashmap_rehash_one
                      else Some (Inr hm))) = Some (Inr hm1)"
      "hashmap_inv hm1" "contents hm1 = contents hm" "hm_count hm1 = hm_count hm"
      "hm_case_sensitive hm1 = hm_case_sensitive hm" "hm_hash_key hm1 = hm_hash_key hm"
      "unat (hm_count hm1) < 2 ^ unat (t_hashbits (active hm1))" "grow_rel hm hm1"
      "hashmap_cap hm \<and> unat (hm_count hm) < 2 ^ 32 - 1 \<longrightarrow> add_ready hm1"
    by blast
  let ?cs = "hm_case_sensitive hm1"
  note u = add_unfold[OF hashmap_invD(1)[OF inv] k s(1), of H hvp v]
  have none1: "\<forall>x\<in>contents hm1. \<not> hashmap_match x ?hv k ?cs" using none by (simp add: s(3,5))
  then have na: "\<forall>x\<in>tab_entries (hm_tables hm1 (hm_hindex hm1)). \<not> hashmap_match x ?hv k ?cs"
    and ns: "\<forall>x\<in>tab_entries (source hm1). \<not> hashmap_match x ?hv k ?cs"
    by (simp_all add: contents_def active_def)
  have found: "(if rehashing_in_progress hm1
        then hashmap_find hm1 ?hv k (hashmap_nexttable (hm_hindex hm1))
        else Some (Inr None)) = Some (Inr None)"
    using hashmap_find_source_miss[OF s(2) _ ns] by (simp add: rehashing_source)
  note wfa = hashmap_invD(3)[OF s(2)]
  from wfa obtain A where A: "t_table (active hm1) = Some A"
      "1 \<le> unat (t_hashbits (active hm1))" "unat (t_hashbits (active hm1)) \<le> 32" by (rule tbl_wfD)
  have wf1: "tbl_wf ?cs (hm_tables hm1 (hm_hindex hm1))" using wfa by (simp add: active_def)
  have rm: "tab_count (hm_tables hm1 (hm_hindex hm1)) < 2 ^ unat (t_hashbits (hm_tables hm1 (hm_hindex hm1)))"
    using s(7) hashmap_invD(4)[OF s(2)] by (simp add: active_def)
  from hashmap_add_new[OF wf1 rm na k, of v] obtain T' where
    T: "hashmap_add hm1 ?hv (Some k) v (hm_hindex hm1) =
           Some (Inr (ISC_R_SUCCESS,
             hm1\<lparr>hm_count := hm_count hm1 + 1,
                hm_tables := (hm_tables hm1)(hm_hindex hm1 := (hm_tables hm1 (hm_hindex hm1))\<lparr>t_table := Some T'\<rparr>)\<rparr>))"
       "tbl_wf ?cs ((hm_tables hm1 (hm_hindex hm1))\<lparr>t_table := Some T'\<rparr>)"
       "tab_entries ((hm_tables hm1 (hm_hindex hm1))\<lparr>t_table := Some T'\<rparr>) =
           insert ?new (tab_entries (hm_tables hm1 (hm_hindex hm1)))"
       "tab_count ((hm_tables hm1 (hm_hindex hm1))\<lparr>t_table := Some T'\<rparr>) =
           Suc (tab_count (hm_tables hm1 (hm_hindex hm1)))"
    by blast
  let ?a' = "(active hm1)\<lparr>t_table := Some T'\<rparr>"
  let ?hm2 = "hm1\<lparr>hm_count := hm_count hm1 + 1, hm_tables := (hm_tables hm1)(hm_hindex hm1 := ?a')\<rparr>"
  have T1: "hashmap_add hm1 ?hv (Some k) v (hm_hindex hm1) = Some (Inr (ISC_R_SUCCESS, ?hm2))"
    using T(1) by (simp add: active_def)
  have T2: "tbl_wf ?cs ?a'" "tab_entries ?a' = insert ?new (tab_entries (active hm1))"
    "tab_count ?a' = Suc (tab_count (active hm1))"
    using T(2,3,4) by (simp_all add: active_def)
  have res: "isc_hashmap_add H hm hvp (Some k) v = Some (Inr (ISC_R_SUCCESS, ?hm2))"
    unfolding u found using T1 by (simp add: res_bind_def)
  have a: "active ?hm2 = ?a'" and so: "source ?hm2 = source hm1" by simp_all
  have uc: "unat (hm_count hm1 + 1) = unat (hm_count hm1) + 1" using s(7) A(3) by (rule unat_inc_count)
  have nok: "node_ok ?new" "n_key ?new \<noteq> None" using k by (simp_all add: node_ok_def UINT16_MAX_def)
  have inv2: "hashmap_inv ?hm2"
  proof (rule hashmap_invI)
    show "ISC_HASHMAP_VALID ?hm2" using hashmap_invD(1)[OF s(2)] by (simp add: ISC_HASHMAP_VALID_def)
    show "hm_hindex ?hm2 = 0 \<or> hm_hindex ?hm2 = 1" using hashmap_invD(2)[OF s(2)] by simp
    show "tbl_wf (hm_case_sensitive ?hm2) (active ?hm2)" unfolding a using T2(1) by simp
    show "unat (hm_count ?hm2) = tab_count (active ?hm2) + tab_count (source ?hm2)"
      unfolding a so using hashmap_invD(4)[OF s(2)] T2(3) uc by simp
    show "t_table (source ?hm2) = None \<Longrightarrow> source ?hm2 = zero_table \<and> hm_hiter ?hm2 = 0"
      unfolding so using hashmap_invD(5,6)[OF s(2)] by simp
  next
    fix stbl assume st: "t_table (source ?hm2) = Some stbl"
    then have st1: "t_table (source hm1) = Some stbl" and ne: "t_table (source hm1) \<noteq> None"
      unfolding so by simp_all
    have c3: "\<forall>x\<in>tab_entries (active ?hm2). \<forall>y\<in>tab_entries (source ?hm2).
                \<not> same_key (hm_case_sensitive ?hm2) x y"
    proof (intro ballI)
      fix x y assume x: "x \<in> tab_entries (active ?hm2)" and y: "y \<in> tab_entries (source ?hm2)"
      from y have y1: "y \<in> tab_entries (source hm1)" unfolding so .
      then have yc: "y \<in> contents hm1" by (simp add: contents_def)
      from x have "x = ?new \<or> x \<in> tab_entries (active hm1)" unfolding a T2(2) by simp
      then show "\<not> same_key (hm_case_sensitive ?hm2) x y"
      proof
        assume xe: "x = ?new"
        show ?thesis
        proof
          assume "same_key (hm_case_sensitive ?hm2) x y"
          then have "same_key ?cs ?new y" by (simp add: xe)
          from same_key_sym[OF nok(1) contents_node(2)[OF s(2) yc] nok(2) this]
          have "hashmap_match y ?hv k ?cs" by (simp add: same_key_def)
          with ns y1 show False by blast
        qed
      next
        assume "x \<in> tab_entries (active hm1)"
        from hashmap_invD(9)[OF s(2) ne this y1] show ?thesis by simp
      qed
    qed
    show "tbl_wf (hm_case_sensitive ?hm2) (source ?hm2) \<and>
       unat (t_hashbits (source ?hm2)) \<le> 31 \<and>
       (\<forall>x\<in>tab_entries (active ?hm2). \<forall>y\<in>tab_entries (source ?hm2). \<not> same_key (hm_case_sensitive ?hm2) x y) \<and>
       (\<forall>p. p < hm_hiter ?hm2 \<longrightarrow> n_key (stbl p) = None) \<and>
       unat (hm_hiter ?hm2) \<le> 2 ^ unat (t_hashbits (source ?hm2))"
      using c3 hashmap_invD(7,8,11)[OF s(2) ne] hashmap_invD(10)[OF s(2) st1] unfolding so by simp
  qed
  have cont: "contents ?hm2 = insert ?new (contents hm)"
    unfolding contents_def a so T2(2) using s(3) by (simp add: contents_def)
  have cnt: "unat (hm_count ?hm2) \<le> 2 ^ unat (t_hashbits (active ?hm2))"
    unfolding a using uc s(7) by simp
  have gr: "grow_rel hm ?hm2"
    using s(8) by (rule grow_rel_cong) (simp_all add: a rehashing_source so)
  have cap2: "hashmap_cap hm \<and> unat (hm_count hm) < 2 ^ 32 - 1 \<longrightarrow> hashmap_cap ?hm2"
  proof
    assume c: "hashmap_cap hm \<and> unat (hm_count hm) < 2 ^ 32 - 1"
    then have "add_ready hm1" using s(9) by simp
    then show "hashmap_cap ?hm2"
      unfolding hashmap_cap_def add_ready_def load_def Let_def rehashing_source so a
      using uc by (auto split: if_splits)
  qed
  show ?thesis
    using res inv2 cont cnt uc s(4,5,6) gr cap2 by (intro exI[of _ ?hm2]) simp
qed

lemma tab_entries_count:
  "x \<in> tab_entries t \<Longrightarrow> 0 < tab_count t"
proof -
  assume x: "x \<in> tab_entries t"
  then obtain tbl where t: "t_table t = Some tbl" by (cases "t_table t") simp_all
  from x obtain p where "p \<in> occ tbl (t_hashmask t)" by (auto simp: tab_entries_def t entries_def occ_def)
  moreover have "finite (occ tbl (t_hashmask t))" by (simp add: occ_def)
  ultimately have "0 < card (occ tbl (t_hashmask t))" using card_gt_0_iff by blast
  then show ?thesis by (simp add: tab_count_def t)
qed

text \<open>Where \<^verbatim>\<open>hashmap_find\<close> locates a key of the map.\<close>

lemma hashmap_find_hit:
  assumes inv: "hashmap_inv hm" and cap: "unat (hm_count hm) \<le> 2 ^ unat (t_hashbits (active hm))"
    and x: "x \<in> contents hm" "hashmap_match x hv k (hm_case_sensitive hm)"
  shows "\<exists>idx pos tbl. hashmap_find hm hv k (hm_hindex hm) = Some (Inr (Some (idx, pos, n_psl (tbl pos)))) \<and>
          (idx = hm_hindex hm \<or> idx = hashmap_nexttable (hm_hindex hm)) \<and>
          t_table (hm_tables hm idx) = Some tbl \<and> pos \<le> t_hashmask (hm_tables hm idx) \<and>
          n_key (tbl pos) \<noteq> None \<and> strip (tbl pos) = x"
proof (cases "x \<in> tab_entries (active hm)")
  case True
  from hashmap_find_active_hit[OF inv True x(2)] show ?thesis unfolding active_def by blast
next
  case False
  then have xs: "x \<in> tab_entries (source hm)" using x(1) by (simp add: contents_def)
  then have ne: "t_table (source hm) \<noteq> None" by (cases "t_table (source hm)") simp_all
  have none: "\<forall>y\<in>tab_entries (active hm). \<not> hashmap_match y hv k (hm_case_sensitive hm)"
  proof
    fix y assume y: "y \<in> tab_entries (active hm)"
    show "\<not> hashmap_match y hv k (hm_case_sensitive hm)"
    proof
      assume "hashmap_match y hv k (hm_case_sensitive hm)"
      from contents_unique[OF inv x(1) _ x(2) this] y have "x = y" by (simp add: contents_def)
      with False y show False by simp
    qed
  qed
  have "tab_count (active hm) < 2 ^ unat (t_hashbits (active hm))"
    using cap hashmap_invD(4)[OF inv] tab_entries_count[OF xs] by simp
  then have small: "unat (t_hashbits (active hm)) < 32 \<or>
      tab_count (active hm) < 2 ^ unat (t_hashbits (active hm))" by simp
  from hashmap_find_miss_to_source[OF inv small none] ne
  have "hashmap_find hm hv k (hm_hindex hm) = hashmap_find hm hv k (hashmap_nexttable (hm_hindex hm))"
    by simp
  with hashmap_find_source_hit[OF inv xs x(2)] show ?thesis unfolding source_def by auto
qed

lemma isc_hashmap_find_hit:
  assumes inv: "hashmap_inv hm" and cap: "unat (hm_count hm) \<le> 2 ^ unat (t_hashbits (active hm))"
    and k: "length k \<le> 65535"
    and x: "x \<in> contents hm" "hashmap_match x (the_hashval H hm hvp k) k (hm_case_sensitive hm)"
  shows "isc_hashmap_find H hm hvp (Some k) (Some None) = Some (Inr (ISC_R_SUCCESS, Some (n_value x)))"
proof -
  from hashmap_find_hit[OF inv cap x] obtain idx pos tbl where
    f: "hashmap_find hm (the_hashval H hm hvp k) k (hm_hindex hm) =
          Some (Inr (Some (idx, pos, n_psl (tbl pos))))"
       "t_table (hm_tables hm idx) = Some tbl" "n_key (tbl pos) \<noteq> None" "strip (tbl pos) = x"
    by blast
  have "n_value (tbl pos) = n_value x" using f(4) by (auto simp: strip_def)
  then show ?thesis
    using hashmap_invD(1)[OF inv] k f(1,2,3)
    by (simp add: isc_hashmap_find_def hashval_of_valid res_bind_def UINT16_MAX_def)
qed

lemma isc_hashmap_find_miss:
  assumes inv: "hashmap_inv hm" and room: "room_ok hm" and k: "length k \<le> 65535"
    and none: "\<forall>x\<in>contents hm. \<not> hashmap_match x (the_hashval H hm hvp k) k (hm_case_sensitive hm)"
  shows "isc_hashmap_find H hm hvp (Some k) (Some None) = Some (Inr (ISC_R_NOTFOUND, Some None))"
  using hashmap_invD(1)[OF inv] k hashmap_find_miss[OF inv room none]
  by (simp add: isc_hashmap_find_def hashval_of_valid res_bind_def UINT16_MAX_def)

lemma cap_of_room:
  assumes inv: "hashmap_inv hm" and room: "room_ok hm"
  shows "unat (hm_count hm) \<le> 2 ^ unat (t_hashbits (active hm))"
proof (cases "rehashing_in_progress hm")
  case True
  then show ?thesis using room by (simp add: room_ok_def)
next
  case False
  then show ?thesis using steady_count[OF inv] by (simp add: rehashing_source)
qed

text \<open>The first step of \<^verbatim>\<open>isc_hashmap_delete\<close>: one step of a rehash in progress, or the start
  of a shrink and its first step. A shrink of a table of 32 bits is left out.\<close>

lemma del_step_spec:
  assumes inv: "hashmap_inv hm" and cap: "unat (hm_count hm) \<le> 2 ^ unat (t_hashbits (active hm))"
    and noslip: "\<not> (\<not> rehashing_in_progress hm \<and> unat (t_hashbits (active hm)) = 32 \<and>
                    unat (hm_count hm) < (2 ^ 32 * 205) div 1024)"
  shows "\<exists>hm1. (if rehashing_in_progress hm then hashmap_rehash_one hm
               else res_bind (Some (under_threshold hm)) (\<lambda>under.
                      if under then res_bind (Some (hashmap_rehash_start_shrink hm)) hashmap_rehash_one
                      else Some (Inr hm))) = Some (Inr hm1) \<and>
      hashmap_inv hm1 \<and> contents hm1 = contents hm \<and> hm_count hm1 = hm_count hm \<and>
      hm_case_sensitive hm1 = hm_case_sensitive hm \<and> hm_hash_key hm1 = hm_hash_key hm \<and>
      unat (hm_count hm1) \<le> 2 ^ unat (t_hashbits (active hm1)) \<and>
      (room_ok hm \<longrightarrow> room_ok hm1) \<and>
      unat (t_hashbits (active hm1)) \<le> unat (t_hashbits (active hm)) \<and> shrink_rel hm hm1 \<and>
      (hashmap_cap hm \<longrightarrow> hashmap_cap hm1)"
proof -
  let ?b = "unat (t_hashbits (active hm))"
  from hashmap_invD(3)[OF inv] obtain A where A: "t_table (active hm) = Some A"
    and b: "1 \<le> ?b" "?b \<le> 32" by (rule tbl_wfD)
  show ?thesis
  proof (cases "rehashing_in_progress hm")
    case True
    then have reh: "t_table (source hm) \<noteq> None" by (simp add: rehashing_source)
    from rehash_one_spec[OF inv reh cap] obtain hm1 where
      h: "hashmap_rehash_one hm = Some (Inr hm1)" "hashmap_inv hm1" "contents hm1 = contents hm"
        "hm_count hm1 = hm_count hm" "hm_case_sensitive hm1 = hm_case_sensitive hm"
        "hm_hash_key hm1 = hm_hash_key hm" "t_hashbits (active hm1) = t_hashbits (active hm)"
        "load_step hm hm1"
      by blast
    have "room_ok hm \<longrightarrow> room_ok hm1" using True by (simp add: room_ok_def h(4,7))
    moreover have "shrink_rel hm hm1" using True by (simp add: shrink_rel_def h(7))
    moreover have "hashmap_cap hm \<longrightarrow> hashmap_cap hm1"
      using True h(8) by (auto simp: hashmap_cap_def load_step_def load_def h(7) Let_def)
    ultimately show ?thesis using True h(1-7) cap by auto
  next
    case False
    then have nr: "t_table (source hm) = None" by (simp add: rehashing_source)
    note ut = under_threshold_nat[OF b]
    show ?thesis
    proof (cases "?b \<noteq> 1 \<and> unat (hm_count hm) < (2 ^ ?b * 205) div 1024")
      case under: True
      then have b2: "2 \<le> ?b" using b(1) by simp
      have b31: "?b \<le> 31" using noslip False under b(2) by (cases "?b = 32") simp_all
      note sb = shrink_bits_spec[OF b2]
      have lt: "shrink_bits hm < ucast (t_hashbits (active hm))"
        using sb b2 by (simp add: word_less_nat_alt bits_word)
      have n1: "1 \<le> unat (shrink_bits hm)" and n32: "unat (shrink_bits hm) \<le> 32"
        using sb b2 b(2) by simp_all
      from start_new_table[OF inv nr n1 n32 b31] obtain hmg where
        g: "(case hashmap_create_table hm (hashmap_nexttable (hm_hindex hm)) (ucast (shrink_bits hm)) of
                  Inl f \<Rightarrow> Inl f
                | Inr hashmap \<Rightarrow> Inr (hashmap\<lparr>hm_hindex := hashmap_nexttable (hm_hindex hm)\<rparr>)) = Inr hmg"
          "hashmap_inv hmg" "source hmg = active hm" "unat (t_hashbits (active hmg)) = unat (shrink_bits hm)"
          "contents hmg = contents hm" "hm_count hmg = hm_count hm"
          "hm_case_sensitive hmg = hm_case_sensitive hm" "hm_hash_key hmg = hm_hash_key hm"
        by blast
      have sg: "hashmap_rehash_start_shrink hm = Inr hmg"
        unfolding hashmap_rehash_start_shrink_def Let_def
        using False lt g(1) by (simp add: active_def)
      have rg: "t_table (source hmg) \<noteq> None" using A by (simp add: g(3))
      have "(2 ^ ?b * 205) div 1024 \<le> (2::nat) ^ (?b - 1)" using approx_lt_pow(2)[of ?b] b(1) by simp
      then have ltg: "unat (hm_count hmg) < 2 ^ unat (t_hashbits (active hmg))"
        using under by (simp add: g(4,6) sb)
      then have capg: "unat (hm_count hmg) \<le> 2 ^ unat (t_hashbits (active hmg))" by simp
      from rehash_one_spec[OF g(2) rg capg] obtain hm1 where
        h: "hashmap_rehash_one hmg = Some (Inr hm1)" "hashmap_inv hm1" "contents hm1 = contents hmg"
          "hm_count hm1 = hm_count hmg" "hm_case_sensitive hm1 = hm_case_sensitive hmg"
          "hm_hash_key hm1 = hm_hash_key hmg" "t_hashbits (active hm1) = t_hashbits (active hmg)"
          "load_step hmg hm1"
        by blast
      have lg: "load hmg = 2 * unat (hm_count hm)"
        using hashmap_invD(4)[OF inv] nr by (simp add: load_def g(3,6))
      have capn: "hashmap_cap hm1"
      proof -
        obtain c where c: "?b = Suc c" using b(1) by (cases ?b) simp_all
        have "unat (hm_count hm) < (2 ^ c * 410) div 1024" using under c by simp
        then have "2 * unat (hm_count hm) \<le> (2 ^ c * 921) div 1024" by linarith
        moreover have "unat (t_hashbits (active hm1)) = c" using c by (simp add: h(7) g(4) sb)
        moreover have "c < 32" using c b(2) by simp
        ultimately show ?thesis using h(8) lg
          by (auto simp: hashmap_cap_def cap_limit_def load_step_def load_def h(4) g(6) Let_def)
      qed
      have "(if rehashing_in_progress hm then hashmap_rehash_one hm
               else res_bind (Some (under_threshold hm)) (\<lambda>under.
                      if under then res_bind (Some (hashmap_rehash_start_shrink hm)) hashmap_rehash_one
                      else Some (Inr hm))) = Some (Inr hm1)"
      proof -
        have "under_threshold hm = Inr True" using ut under by simp
        then show ?thesis using False sg h(1) by (simp add: res_bind_def)
      qed
      moreover have lt1: "unat (hm_count hm1) < 2 ^ unat (t_hashbits (active hm1))" using ltg by (simp add: h(4,7))
      moreover have "room_ok hm1" using lt1 by (simp add: room_ok_def)
      moreover have "unat (t_hashbits (active hm1)) \<le> ?b" by (simp add: h(7) g(4) sb)
      moreover have "shrink_rel hm hm1" using False ut under by (simp add: shrink_rel_def h(7) g(4) sb)
      ultimately show ?thesis using h(2,3,4,5,6) g(5,6,7,8) capn by auto
    next
      case nunder: False
      have "(if rehashing_in_progress hm then hashmap_rehash_one hm
               else res_bind (Some (under_threshold hm)) (\<lambda>under.
                      if under then res_bind (Some (hashmap_rehash_start_shrink hm)) hashmap_rehash_one
                      else Some (Inr hm))) = Some (Inr hm)"
      proof -
        have "under_threshold hm = Inr False" using ut nunder by simp
        then show ?thesis using False by (simp add: res_bind_def)
      qed
      moreover have "shrink_rel hm hm"
      proof -
        have "under_threshold hm = Inr False" using ut nunder by simp
        then show ?thesis using False by (simp add: shrink_rel_def)
      qed
      ultimately show ?thesis using inv cap by auto
    qed
  qed
qed

lemma same_key_refl:
  assumes "node_ok x" "n_key x \<noteq> None"
  shows "same_key cs x x"
proof -
  from assms(2) obtain k where k: "n_key x = Some k" by auto
  show ?thesis
    using node_ok_keysize[OF assms(1) k] k
    by (simp add: same_key_def hashmap_match_def memcmp_def isc_ascii_lowerequal_def)
qed

lemma unat_dec_count:
  fixes c :: "64 word"
  assumes "0 < unat c"
  shows "unat (c - 1) + 1 = unat c"
proof -
  have "c \<noteq> 0" using assms by (auto simp: unat_eq_zero)
  then show ?thesis using unat_dec[of c] assms by simp
qed

text \<open>Deleting the node of a slot of either table.\<close>

lemma map_delete_node_spec:
  fixes hm :: "'a isc_hashmap"
  assumes inv: "hashmap_inv hm"
    and idx: "idx = hm_hindex hm \<or> idx = hashmap_nexttable (hm_hindex hm)"
    and tt: "t_table (hm_tables hm idx) = Some tbl"
    and e: "pos \<le> t_hashmask (hm_tables hm idx)" "n_key (tbl pos) \<noteq> None"
  shows "\<exists>hm2. hashmap_delete_node hm pos (n_hashval (tbl pos)) (n_psl (tbl pos)) idx = Some (Inr hm2) \<and>
      hashmap_inv hm2 \<and> contents hm2 = contents hm - {strip (tbl pos)} \<and>
      unat (hm_count hm2) + 1 = unat (hm_count hm) \<and> hm_count hm2 = hm_count hm - 1 \<and>
      t_hashbits (active hm2) = t_hashbits (active hm) \<and>
      hm_case_sensitive hm2 = hm_case_sensitive hm \<and> hm_hash_key hm2 = hm_hash_key hm \<and>
      hm_hindex hm2 = hm_hindex hm \<and> rehashing_in_progress hm2 = rehashing_in_progress hm \<and>
      load hm2 + 1 \<le> load hm"
proof -
  let ?cs = "hm_case_sensitive hm"
  let ?t = "hm_tables hm idx"
  have wf: "tbl_wf ?cs ?t"
    using idx hashmap_invD(3)[OF inv] hashmap_invD(7)[OF inv] tt by (auto simp: active_def source_def)
  from hashmap_delete_node_ok[OF wf tt e] obtain F where
    F: "hashmap_delete_node hm pos (n_hashval (tbl pos)) (n_psl (tbl pos)) idx =
           Some (Inr (hm\<lparr>hm_count := hm_count hm - 1,
                hm_tables := (hm_tables hm)(idx := ?t\<lparr>t_table := Some F\<rparr>)\<rparr>))"
       "tbl_wf ?cs (?t\<lparr>t_table := Some F\<rparr>)"
       "tab_entries (?t\<lparr>t_table := Some F\<rparr>) = tab_entries ?t - {strip (tbl pos)}"
       "Suc (tab_count (?t\<lparr>t_table := Some F\<rparr>)) = tab_count ?t"
       "\<forall>p. p \<le> t_hashmask ?t \<longrightarrow> n_key (tbl p) = None \<longrightarrow> n_key (F p) = None"
    by blast
  let ?t' = "?t\<lparr>t_table := Some F\<rparr>"
  let ?hm2 = "hm\<lparr>hm_count := hm_count hm - 1, hm_tables := (hm_tables hm)(idx := ?t')\<rparr>"
  have xin: "strip (tbl pos) \<in> tab_entries ?t"
    using e by (auto simp: tab_entries_def tt entries_def)
  have cpos: "0 < unat (hm_count hm)"
    using hashmap_invD(4)[OF inv] tab_entries_count[OF xin] idx by (auto simp: active_def source_def)
  note dc = unat_dec_count[OF cpos]
  have v2: "ISC_HASHMAP_VALID ?hm2" using hashmap_invD(1)[OF inv] by (simp add: ISC_HASHMAP_VALID_def)
  have hi2: "hm_hindex ?hm2 = 0 \<or> hm_hindex ?hm2 = 1" using hashmap_invD(2)[OF inv] by simp
  from idx show ?thesis
  proof
    assume ia: "idx = hm_hindex hm"
    have a: "active ?hm2 = ?t'" and so: "source ?hm2 = source hm" by (simp_all add: ia)
    have ta: "?t = active hm" by (simp add: ia active_def)
    have inv2: "hashmap_inv ?hm2"
    proof (rule hashmap_invI[OF v2 hi2])
      show "tbl_wf (hm_case_sensitive ?hm2) (active ?hm2)" unfolding a using F(2) by simp
      show "unat (hm_count ?hm2) = tab_count (active ?hm2) + tab_count (source ?hm2)"
        unfolding a so using hashmap_invD(4)[OF inv] F(4) dc by (simp add: ta)
      show "t_table (source ?hm2) = None \<Longrightarrow> source ?hm2 = zero_table \<and> hm_hiter ?hm2 = 0"
        unfolding so using hashmap_invD(5,6)[OF inv] by simp
    next
      fix stbl assume st: "t_table (source ?hm2) = Some stbl"
      then have st1: "t_table (source hm) = Some stbl" and ne: "t_table (source hm) \<noteq> None"
        unfolding so by simp_all
      have "\<forall>x\<in>tab_entries (active ?hm2). \<forall>y\<in>tab_entries (source ?hm2).
                \<not> same_key (hm_case_sensitive ?hm2) x y"
        unfolding a so F(3) using hashmap_invD(9)[OF inv ne] by (simp add: ta)
      then show "tbl_wf (hm_case_sensitive ?hm2) (source ?hm2) \<and>
         unat (t_hashbits (source ?hm2)) \<le> 31 \<and>
         (\<forall>x\<in>tab_entries (active ?hm2). \<forall>y\<in>tab_entries (source ?hm2). \<not> same_key (hm_case_sensitive ?hm2) x y) \<and>
         (\<forall>p. p < hm_hiter ?hm2 \<longrightarrow> n_key (stbl p) = None) \<and>
         unat (hm_hiter ?hm2) \<le> 2 ^ unat (t_hashbits (source ?hm2))"
        using hashmap_invD(7,8,11)[OF inv ne] hashmap_invD(10)[OF inv st1] unfolding so by simp
    qed
    have xa: "strip (tbl pos) \<in> tab_entries (active hm)" using xin by (simp add: ta)
    have xs: "strip (tbl pos) \<notin> tab_entries (source hm)"
    proof
      assume xs: "strip (tbl pos) \<in> tab_entries (source hm)"
      then have ne: "t_table (source hm) \<noteq> None" by (cases "t_table (source hm)") simp_all
      have xc: "strip (tbl pos) \<in> contents hm" using xa by (simp add: contents_def)
      from hashmap_invD(9)[OF inv ne xa xs] same_key_refl[OF contents_node(2,1)[OF inv xc]]
      show False by simp
    qed
    have cont: "contents ?hm2 = contents hm - {strip (tbl pos)}"
      unfolding contents_def a so F(3) using xs by (auto simp: ta)
    have "t_hashbits (active ?hm2) = t_hashbits (active hm)" unfolding a by (simp add: ta)
    moreover have "rehashing_in_progress ?hm2 = rehashing_in_progress hm"
      unfolding rehashing_source so ..
    moreover have "load ?hm2 + 1 \<le> load hm"
      unfolding load_def so using dc by simp
    ultimately show ?thesis
      using F(1) inv2 cont dc by (intro exI[of _ ?hm2]) simp
  next
    assume isrc: "idx = hashmap_nexttable (hm_hindex hm)"
    have a: "active ?hm2 = active hm" and so: "source ?hm2 = ?t'" by (simp_all add: isrc)
    have ts: "?t = source hm" by (simp add: isrc source_def)
    have st0: "t_table (source hm) = Some tbl" and ne: "t_table (source hm) \<noteq> None"
      using tt by (simp_all add: ts)
    note wfs = hashmap_invD(7)[OF inv ne]
    from wfs obtain S where S: "t_table (source hm) = Some S"
      "1 \<le> unat (t_hashbits (source hm))" "unat (t_hashbits (source hm)) \<le> 32"
      "t_hashmask (source hm) = mask (unat (t_hashbits (source hm)))" by (rule tbl_wfD)
    note os = oldsize_31[OF hashmap_invD(8)[OF inv ne]]
    have inv2: "hashmap_inv ?hm2"
    proof (rule hashmap_invI[OF v2 hi2])
      show "tbl_wf (hm_case_sensitive ?hm2) (active ?hm2)" unfolding a using hashmap_invD(3)[OF inv] by simp
      show "unat (hm_count ?hm2) = tab_count (active ?hm2) + tab_count (source ?hm2)"
        unfolding a so using hashmap_invD(4)[OF inv] F(4) dc by (simp add: ts)
      show "t_table (source ?hm2) = None \<Longrightarrow> source ?hm2 = zero_table \<and> hm_hiter ?hm2 = 0"
        unfolding so by simp
    next
      fix stbl assume st: "t_table (source ?hm2) = Some stbl"
      then have stF: "stbl = F" unfolding so by simp
      have c3: "\<forall>x\<in>tab_entries (active ?hm2). \<forall>y\<in>tab_entries (source ?hm2).
                \<not> same_key (hm_case_sensitive ?hm2) x y"
        unfolding a so F(3) using hashmap_invD(9)[OF inv ne] by (simp add: ts)
      have c4: "\<forall>p. p < hm_hiter ?hm2 \<longrightarrow> n_key (stbl p) = None"
      proof (intro allI impI)
        fix p assume "p < hm_hiter ?hm2"
        then have p: "p < hm_hiter hm" by simp
        then have "unat p < 2 ^ unat (t_hashbits (source hm))"
          using hashmap_invD(11)[OF inv ne] by (simp add: word_less_nat_alt)
        then have "p < 2 ^ unat (t_hashbits (source hm))" by (simp add: word_less_nat_alt os(2))
        then have pm: "p \<le> t_hashmask ?t" by (simp add: os(3) ts S(4))
        have "n_key (tbl p) = None" using hashmap_invD(10)[OF inv st0 p] .
        then show "n_key (stbl p) = None" using F(5) pm by (simp add: stF)
      qed
      show "tbl_wf (hm_case_sensitive ?hm2) (source ?hm2) \<and>
         unat (t_hashbits (source ?hm2)) \<le> 31 \<and>
         (\<forall>x\<in>tab_entries (active ?hm2). \<forall>y\<in>tab_entries (source ?hm2). \<not> same_key (hm_case_sensitive ?hm2) x y) \<and>
         (\<forall>p. p < hm_hiter ?hm2 \<longrightarrow> n_key (stbl p) = None) \<and>
         unat (hm_hiter ?hm2) \<le> 2 ^ unat (t_hashbits (source ?hm2))"
        using c3 c4 F(2) hashmap_invD(8,11)[OF inv ne] unfolding so by (simp add: ts)
    qed
    have xs: "strip (tbl pos) \<in> tab_entries (source hm)" using xin by (simp add: ts)
    have xa: "strip (tbl pos) \<notin> tab_entries (active hm)"
    proof
      assume xa: "strip (tbl pos) \<in> tab_entries (active hm)"
      have xc: "strip (tbl pos) \<in> contents hm" using xa by (simp add: contents_def)
      from hashmap_invD(9)[OF inv ne xa xs] same_key_refl[OF contents_node(2,1)[OF inv xc]]
      show False by simp
    qed
    have cont: "contents ?hm2 = contents hm - {strip (tbl pos)}"
      unfolding contents_def a so F(3) using xa by (auto simp: ts)
    have "rehashing_in_progress ?hm2 = rehashing_in_progress hm"
      unfolding rehashing_source so using ne by simp
    moreover have "load ?hm2 + 1 \<le> load hm"
      unfolding load_def so using dc F(4) by (simp add: ts)
    ultimately show ?thesis
      using F(1) inv2 cont dc a by (intro exI[of _ ?hm2]) simp
  qed
qed

lemma del_unfold:
  assumes v: "ISC_HASHMAP_VALID hm" and k: "length k \<le> 65535"
    and step: "(if rehashing_in_progress hm then hashmap_rehash_one hm
               else res_bind (Some (under_threshold hm)) (\<lambda>under.
                      if under then res_bind (Some (hashmap_rehash_start_shrink hm)) hashmap_rehash_one
                      else Some (Inr hm))) = Some (Inr hm1)"
  shows "isc_hashmap_delete H hm hvp (Some k) =
     res_bind (hashmap_find hm1 (the_hashval H hm hvp k) k (hm_hindex hm1)) (\<lambda>node.
          case node of
            None \<Rightarrow> Some (Inr (ISC_R_NOTFOUND, hm1))
          | Some (idx, pos, psl) \<Rightarrow>
              (case t_table (hm_tables hm1 idx) of
                 None \<Rightarrow> Some (Inl NULL_deref)
               | Some tbl \<Rightarrow>
                   if \<not> n_key (tbl pos) \<noteq> None then Some (Inl INSIST_failed)
                   else res_bind (hashmap_delete_node hm1 pos (the_hashval H hm hvp k) psl idx)
                          (\<lambda>hashmap. Some (Inr (ISC_R_SUCCESS, hashmap)))))"
  using v k step by (simp add: isc_hashmap_delete_def hashval_of_valid res_bind_def UINT16_MAX_def)

lemma isc_hashmap_delete_hit:
  assumes inv: "hashmap_inv hm" and cap: "unat (hm_count hm) \<le> 2 ^ unat (t_hashbits (active hm))"
    and noslip: "\<not> (\<not> rehashing_in_progress hm \<and> unat (t_hashbits (active hm)) = 32 \<and>
                    unat (hm_count hm) < (2 ^ 32 * 205) div 1024)"
    and k: "length k \<le> 65535"
    and x: "x \<in> contents hm" "hashmap_match x (the_hashval H hm hvp k) k (hm_case_sensitive hm)"
  shows "\<exists>hm'. isc_hashmap_delete H hm hvp (Some k) = Some (Inr (ISC_R_SUCCESS, hm')) \<and>
      hashmap_inv hm' \<and> room_ok hm' \<and> contents hm' = contents hm - {x} \<and>
      unat (hm_count hm') + 1 = unat (hm_count hm) \<and> hm_count hm' = hm_count hm - 1 \<and>
      hm_case_sensitive hm' = hm_case_sensitive hm \<and> hm_hash_key hm' = hm_hash_key hm \<and>
      shrink_rel hm hm' \<and> (hashmap_cap hm \<longrightarrow> hashmap_cap hm')"
proof -
  let ?hv = "the_hashval H hm hvp k"
  from del_step_spec[OF inv cap noslip] obtain hm1 where
    s: "(if rehashing_in_progress hm then hashmap_rehash_one hm
               else res_bind (Some (under_threshold hm)) (\<lambda>under.
                      if under then res_bind (Some (hashmap_rehash_start_shrink hm)) hashmap_rehash_one
                      else Some (Inr hm))) = Some (Inr hm1)"
      "hashmap_inv hm1" "contents hm1 = contents hm" "hm_count hm1 = hm_count hm"
      "hm_case_sensitive hm1 = hm_case_sensitive hm" "hm_hash_key hm1 = hm_hash_key hm"
      "unat (hm_count hm1) \<le> 2 ^ unat (t_hashbits (active hm1))" "shrink_rel hm hm1"
      "hashmap_cap hm \<longrightarrow> hashmap_cap hm1"
    by blast
  note u = del_unfold[OF hashmap_invD(1)[OF inv] k s(1), of H hvp]
  have x1: "x \<in> contents hm1" "hashmap_match x ?hv k (hm_case_sensitive hm1)"
    using x by (simp_all add: s(3,5))
  from hashmap_find_hit[OF s(2) s(7) x1] obtain idx pos tbl where
    f: "hashmap_find hm1 ?hv k (hm_hindex hm1) = Some (Inr (Some (idx, pos, n_psl (tbl pos))))"
       "idx = hm_hindex hm1 \<or> idx = hashmap_nexttable (hm_hindex hm1)"
       "t_table (hm_tables hm1 idx) = Some tbl" "pos \<le> t_hashmask (hm_tables hm1 idx)"
       "n_key (tbl pos) \<noteq> None" "strip (tbl pos) = x"
    by blast
  have hv: "n_hashval (tbl pos) = ?hv"
    using x(2) f(6) by (auto simp: hashmap_match_def strip_def)
  from map_delete_node_spec[OF s(2) f(2,3,4,5)] obtain hm2 where
    d: "hashmap_delete_node hm1 pos (n_hashval (tbl pos)) (n_psl (tbl pos)) idx = Some (Inr hm2)"
      "hashmap_inv hm2" "contents hm2 = contents hm1 - {strip (tbl pos)}"
      "unat (hm_count hm2) + 1 = unat (hm_count hm1)" "hm_count hm2 = hm_count hm1 - 1"
      "t_hashbits (active hm2) = t_hashbits (active hm1)"
      "hm_case_sensitive hm2 = hm_case_sensitive hm1" "hm_hash_key hm2 = hm_hash_key hm1"
      "rehashing_in_progress hm2 = rehashing_in_progress hm1" "load hm2 + 1 \<le> load hm1"
    by blast
  have capd: "hashmap_cap hm \<longrightarrow> hashmap_cap hm2"
    using s(9) d(4,6,9,10) by (auto simp: hashmap_cap_def Let_def)
  have res: "isc_hashmap_delete H hm hvp (Some k) = Some (Inr (ISC_R_SUCCESS, hm2))"
    unfolding u using f(1,3,5) d(1) by (simp add: res_bind_def hv)
  have "unat (hm_count hm2) < 2 ^ unat (t_hashbits (active hm2))" using d(4) s(7) by (simp add: d(6))
  then have "room_ok hm2" by (simp add: room_ok_def)
  moreover have "shrink_rel hm hm2" using s(8) d(6,9) by (rule shrink_rel_cong)
  ultimately show ?thesis using res d(2,3,4,5,7,8) s(3,4,5,6) f(6) capd by (intro exI[of _ hm2]) simp
qed

lemma isc_hashmap_delete_miss:
  assumes inv: "hashmap_inv hm" and room: "room_ok hm"
    and noslip: "\<not> (\<not> rehashing_in_progress hm \<and> unat (t_hashbits (active hm)) = 32 \<and>
                    unat (hm_count hm) < (2 ^ 32 * 205) div 1024)"
    and k: "length k \<le> 65535"
    and none: "\<forall>x\<in>contents hm. \<not> hashmap_match x (the_hashval H hm hvp k) k (hm_case_sensitive hm)"
  shows "\<exists>hm'. isc_hashmap_delete H hm hvp (Some k) = Some (Inr (ISC_R_NOTFOUND, hm')) \<and>
      hashmap_inv hm' \<and> room_ok hm' \<and> contents hm' = contents hm \<and> hm_count hm' = hm_count hm \<and>
      hm_case_sensitive hm' = hm_case_sensitive hm \<and> hm_hash_key hm' = hm_hash_key hm \<and>
      shrink_rel hm hm' \<and> (hashmap_cap hm \<longrightarrow> hashmap_cap hm')"
proof -
  let ?hv = "the_hashval H hm hvp k"
  from del_step_spec[OF inv cap_of_room[OF inv room] noslip] room obtain hm1 where
    s: "(if rehashing_in_progress hm then hashmap_rehash_one hm
               else res_bind (Some (under_threshold hm)) (\<lambda>under.
                      if under then res_bind (Some (hashmap_rehash_start_shrink hm)) hashmap_rehash_one
                      else Some (Inr hm))) = Some (Inr hm1)"
      "hashmap_inv hm1" "contents hm1 = contents hm" "hm_count hm1 = hm_count hm"
      "hm_case_sensitive hm1 = hm_case_sensitive hm" "hm_hash_key hm1 = hm_hash_key hm"
      "room_ok hm1" "shrink_rel hm hm1" "hashmap_cap hm \<longrightarrow> hashmap_cap hm1"
    by blast
  note u = del_unfold[OF hashmap_invD(1)[OF inv] k s(1), of H hvp]
  have none1: "\<forall>x\<in>contents hm1. \<not> hashmap_match x ?hv k (hm_case_sensitive hm1)"
    using none by (simp add: s(3,5))
  have res: "isc_hashmap_delete H hm hvp (Some k) = Some (Inr (ISC_R_NOTFOUND, hm1))"
    unfolding u using hashmap_find_miss[OF s(2) s(7) none1] by (simp add: res_bind_def)
  then show ?thesis using s(2-9) by blast
qed

lemma create_spec:
  assumes bits: "1 \<le> unat bits" "unat bits \<le> 32"
  shows "\<exists>hm. isc_hashmap_create entropy bits opts = Inr hm \<and> hashmap_inv hm \<and> room_ok hm \<and>
           contents hm = {} \<and> hm_count hm = 0 \<and> t_hashbits (active hm) = bits \<and>
           \<not> rehashing_in_progress hm \<and> hm_hash_key hm = entropy \<and>
           hm_case_sensitive hm = (opts AND ISC_HASHMAP_CASE_INSENSITIVE = 0)"
proof -
  let ?cs = "opts AND ISC_HASHMAP_CASE_INSENSITIVE = 0"
  let ?newt = "\<lparr>t_size = HASHSIZE (unat bits), t_hashbits = bits,
                t_hashmask = ucast (HASHSIZE (unat bits) - 1), t_table = Some (\<lambda>_. zero_node)\<rparr>
               :: 'a hashmap_table"
  let ?hm = "\<lparr>hm_magic = ISC_HASHMAP_MAGIC, hm_case_sensitive = ?cs, hm_hindex = 0,
              hm_hiter = 0, hm_count = 0, hm_hash_key = entropy,
              hm_tables = (\<lambda>_. zero_table)(0 := ?newt)\<rparr> :: 'a isc_hashmap"
  have ge: "bits \<ge> HASHMAP_MIN_BITS" and le: "bits \<le> HASHMAP_MAX_BITS"
    using bits by (simp_all add: word_le_nat_alt HASHMAP_MIN_BITS_def HASHMAP_MAX_BITS_def)
  have run: "isc_hashmap_create entropy bits opts = Inr ?hm"
    using ge le by (simp add: isc_hashmap_create_def hashmap_create_table_def zero_table_def
        HASHMAP_NO_BITS_def Let_def)
  have a: "active ?hm = ?newt" and s: "source ?hm = zero_table" by (simp_all add: active_def source_def)
  have hmsk: "t_hashmask ?newt = mask (unat bits)"
    using ucast_hashsize[of "unat bits"] bits(2) by (simp add: HASHSIZE_def)
  have wfn: "tbl_wf ?cs ?newt"
    using bits hmsk by (intro tbl_wfI[of _ "\<lambda>_. zero_node"]) (simp_all add: HASHSIZE_def)
  have en: "tab_entries ?newt = {}" "tab_count ?newt = 0"
    by (simp_all add: tab_entries_def tab_count_def)
  have inv: "hashmap_inv ?hm"
  proof (rule hashmap_invI)
    show "ISC_HASHMAP_VALID ?hm" by (simp add: ISC_HASHMAP_VALID_def)
    show "hm_hindex ?hm = 0 \<or> hm_hindex ?hm = 1" by simp
    show "tbl_wf (hm_case_sensitive ?hm) (active ?hm)" unfolding a using wfn by simp
    show "unat (hm_count ?hm) = tab_count (active ?hm) + tab_count (source ?hm)"
      unfolding a s en by simp
    show "t_table (source ?hm) = None \<Longrightarrow> source ?hm = zero_table \<and> hm_hiter ?hm = 0"
      unfolding s by simp
  next
    fix stbl assume "t_table (source ?hm) = Some stbl"
    then have False unfolding s by simp
    then show "tbl_wf (hm_case_sensitive ?hm) (source ?hm) \<and>
       unat (t_hashbits (source ?hm)) \<le> 31 \<and>
       (\<forall>x\<in>tab_entries (active ?hm). \<forall>y\<in>tab_entries (source ?hm). \<not> same_key (hm_case_sensitive ?hm) x y) \<and>
       (\<forall>p. p < hm_hiter ?hm \<longrightarrow> n_key (stbl p) = None) \<and>
       unat (hm_hiter ?hm) \<le> 2 ^ unat (t_hashbits (source ?hm))" ..
  qed
  have room: "room_ok ?hm" by (simp add: room_ok_def)
  have c: "contents ?hm = {}" unfolding contents_def a s en by simp
  have r: "\<not> rehashing_in_progress ?hm" unfolding rehashing_source s by simp
  have "t_hashbits (active ?hm) = bits" unfolding a by simp
  then show ?thesis using run inv room c r by (intro exI[of _ ?hm]) simp
qed

text \<open>A shrink of a table of 32 bits: \<^verbatim>\<open>hashmap_rehash_one\<close> reads the size \<open>2^32\<close> of the
  source table as the 32-bit value 0 and frees the table with its nodes.\<close>

lemma delete_slip:
  fixes hm :: "'a isc_hashmap"
  assumes inv: "hashmap_inv hm" and nr: "\<not> rehashing_in_progress hm"
    and b32: "unat (t_hashbits (active hm)) = 32"
    and under: "unat (hm_count hm) < (2 ^ 32 * 205) div 1024"
    and k: "length k \<le> 65535"
  shows "\<exists>hm'. isc_hashmap_delete H hm hvp (Some k) = Some (Inr (ISC_R_NOTFOUND, hm')) \<and>
      unat (t_hashbits (active hm')) = 31 \<and> contents hm' = {} \<and> hm_count hm' = hm_count hm \<and>
      \<not> rehashing_in_progress hm' \<and> psl_inv hm' \<and> t_size (active hm') = HASHSIZE 31 \<and>
      (\<forall>hvp' k'. length k' \<le> 65535 \<longrightarrow>
         isc_hashmap_find H hm' hvp' (Some k') (Some None) = Some (Inr (ISC_R_NOTFOUND, Some None)))"
proof -
  let ?ni = "hashmap_nexttable (hm_hindex hm)" and ?ai = "hm_hindex hm"
  let ?hv = "the_hashval H hm hvp k"
  from hashmap_invD(3)[OF inv] obtain A where A: "t_table (active hm) = Some A"
    "1 \<le> unat (t_hashbits (active hm))" "unat (t_hashbits (active hm)) \<le> 32"
    "t_hashmask (active hm) = mask (unat (t_hashbits (active hm)))"
    "t_size (active hm) = push_bit (unat (t_hashbits (active hm))) 1" by (rule tbl_wfD)
  have nrs: "t_table (source hm) = None" using nr by (simp add: rehashing_source)
  have z: "hm_tables hm ?ni = zero_table" using hashmap_invD(5)[OF inv nrs] by (simp add: source_def)
  have h0: "hm_hiter hm = 0" by (rule hashmap_invD(6)[OF inv nrs])
  have ut: "under_threshold hm = Inr True"
    using under_threshold_nat[OF A(2,3)] under b32 by simp
  have b2: "2 \<le> unat (t_hashbits (active hm))" using b32 by simp
  have sb: "unat (shrink_bits hm) = 31" using shrink_bits_spec[OF b2] b32 by simp
  then have sb': "shrink_bits hm = 31" by (simp add: word_unat_eq_iff)
  have lt: "shrink_bits hm < ucast (t_hashbits (active hm))"
    using sb b32 by (simp add: word_less_nat_alt bits_word)
  let ?newt = "\<lparr>t_size = HASHSIZE 31, t_hashbits = 31,
                t_hashmask = ucast (HASHSIZE 31 - 1), t_table = Some (\<lambda>_. zero_node)\<rparr>
               :: 'a hashmap_table"
  let ?hmg = "hm\<lparr>hm_tables := (hm_tables hm)(?ni := ?newt), hm_hindex := ?ni\<rparr>"
  have sg: "hashmap_rehash_start_shrink hm = Inr ?hmg"
    unfolding hashmap_rehash_start_shrink_def Let_def
    using nr lt
    by (simp add: active_def[symmetric] sb' hashmap_create_table_def z zero_table_def
        HASHMAP_NO_BITS_def HASHMAP_MIN_BITS_def HASHMAP_MAX_BITS_def)
  have nn: "hashmap_nexttable ?ni = ?ai" using hashmap_invD(2)[OF inv] by (rule nexttable_twice)
  have os: "(ucast (t_size (hm_tables hm ?ai)) :: 32 word) = 0"
    using A(5) by (simp add: active_def[symmetric] b32)
  have sk: "hashmap_rehash_skip A 0 0 = 0" by (subst hashmap_rehash_skip.simps) simp
  let ?hm' = "hm\<lparr>hm_hiter := 0, hm_tables := (hm_tables hm)(?ni := ?newt, ?ai := zero_table),
                 hm_hindex := ?ni\<rparr>"
  have ro: "hashmap_rehash_one ?hmg = Some (Inr ?hm')"
    unfolding hashmap_rehash_one_def Let_def
    using A(1) by (simp add: nn os sk h0 active_def hashmap_free_table_def res_bind_def)
  have step: "(if rehashing_in_progress hm then hashmap_rehash_one hm
               else res_bind (Some (under_threshold hm)) (\<lambda>under.
                      if under then res_bind (Some (hashmap_rehash_start_shrink hm)) hashmap_rehash_one
                      else Some (Inr hm))) = Some (Inr ?hm')"
    using nr ut sg ro by (simp add: res_bind_def)
  note u = del_unfold[OF hashmap_invD(1)[OF inv] k step, of H hvp]
  have a': "active ?hm' = ?newt" and s': "source ?hm' = zero_table"
    by (simp_all add: active_def source_def nn)
  have nt: "\<not> try_nexttable ?hm' (hm_hindex ?hm')" unfolding try_nexttable_active s' by simp
  have tt: "t_table (hm_tables ?hm' (hm_hindex ?hm')) = Some (\<lambda>_. zero_node)" by simp
  have fl: "hashmap_find_loop (\<lambda>_. zero_node) (t_hashmask (hm_tables ?hm' (hm_hindex ?hm')))
      (hm_case_sensitive ?hm') ?hv k
      (isc_hash_bits32 ?hv (t_hashbits (hm_tables ?hm' (hm_hindex ?hm')))) 0 = Some None"
    by (rule find_loop_stop) simp
  have f: "hashmap_find ?hm' ?hv k (hm_hindex ?hm') = Some (Inr None)"
    using tt fl nt by (rule hashmap_find_last)
  have res: "isc_hashmap_delete H hm hvp (Some k) = Some (Inr (ISC_R_NOTFOUND, ?hm'))"
    unfolding u f by (simp add: res_bind_def)
  have v': "ISC_HASHMAP_VALID ?hm'" using hashmap_invD(1)[OF inv] by (simp add: ISC_HASHMAP_VALID_def)
  have fnd: "\<forall>hvp' k'. length k' \<le> 65535 \<longrightarrow>
         isc_hashmap_find H ?hm' hvp' (Some k') (Some None) = Some (Inr (ISC_R_NOTFOUND, Some None))"
  proof (intro allI impI)
    fix hvp' and k' :: "8 word list" assume k': "length k' \<le> 65535"
    let ?hv' = "the_hashval H ?hm' hvp' k'"
    have fl': "hashmap_find_loop (\<lambda>_. zero_node) (t_hashmask (hm_tables ?hm' (hm_hindex ?hm')))
        (hm_case_sensitive ?hm') ?hv' k'
        (isc_hash_bits32 ?hv' (t_hashbits (hm_tables ?hm' (hm_hindex ?hm')))) 0 = Some None"
      by (rule find_loop_stop) simp
    have "hashmap_find ?hm' ?hv' k' (hm_hindex ?hm') = Some (Inr None)"
      using tt fl' nt by (rule hashmap_find_last)
    then show "isc_hashmap_find H ?hm' hvp' (Some k') (Some None) = Some (Inr (ISC_R_NOTFOUND, Some None))"
      using v' k' by (simp add: isc_hashmap_find_def hashval_of_valid res_bind_def UINT16_MAX_def)
  qed
  have tz: "table_psl (zero_table :: 'a hashmap_table)" "table_psl ?newt"
    by (simp_all add: table_psl_def psl_ok_def)
  have "table_psl (hm_tables ?hm' 0)" "table_psl (hm_tables ?hm' 1)"
    using hashmap_invD(2)[OF inv] tz by auto
  then have pi: "psl_inv ?hm'" unfolding psl_inv_def by blast
  have "unat (t_hashbits (active ?hm')) = 31" unfolding a' by simp
  moreover have "contents ?hm' = {}" unfolding contents_def a' s' by (simp add: tab_entries_def)
  moreover have "\<not> rehashing_in_progress ?hm'" unfolding rehashing_source s' by simp
  moreover note pi
  moreover have "t_size (active ?hm') = HASHSIZE 31" unfolding a' by simp
  ultimately show ?thesis using res fnd by (intro exI[of _ ?hm']) simp
qed

lemma iter_next_last:
  assumes nt: "\<not> try_nexttable hm (it_hindex it)"
    and tt: "it_i it < t_size (hm_tables hm (it_hindex it)) \<Longrightarrow> t_table (hm_tables hm (it_hindex it)) \<noteq> None"
  shows "\<exists>r it'. isc__hashmap_iter_next hm it = Some (Inr (r, it'))"
proof (cases "it_i it < t_size (hm_tables hm (it_hindex it))")
  case True
  from tt[OF True] obtain tbl where t: "t_table (hm_tables hm (it_hindex it)) = Some tbl" by auto
  show ?thesis
    by (subst isc__hashmap_iter_next.simps) (simp add: Let_def True t nt)
next
  case False
  show ?thesis
    by (subst isc__hashmap_iter_next.simps) (simp add: Let_def False nt)
qed

lemma iter_next_total:
  assumes tt: "it_i it < t_size (hm_tables hm (it_hindex it)) \<Longrightarrow> t_table (hm_tables hm (it_hindex it)) \<noteq> None"
  shows "\<exists>r it'. isc__hashmap_iter_next hm it = Some (Inr (r, it'))"
proof (cases "try_nexttable hm (it_hindex it)")
  case False
  then show ?thesis using tt by (rule iter_next_last)
next
  case True
  then have ih: "it_hindex it = hm_hindex hm" and reh: "rehashing_in_progress hm"
    by (simp_all add: try_nexttable_def)
  have second: "\<exists>r it'. isc__hashmap_iter_next hm
      (it\<lparr>it_hindex := hashmap_nexttable (it_hindex it), it_i := 0\<rparr>) = Some (Inr (r, it'))"
    using reh by (intro iter_next_last) (simp_all add: try_nexttable_def ih rehashing_in_progress_def)
  show ?thesis
  proof (cases "it_i it < t_size (hm_tables hm (it_hindex it))")
    case lt: True
    from tt[OF lt] obtain tbl where t: "t_table (hm_tables hm (it_hindex it)) = Some tbl" by auto
    show ?thesis
      using second
      by (subst isc__hashmap_iter_next.simps) (auto simp: Let_def lt t True)
  next
    case False
    show ?thesis
      using second
      by (subst isc__hashmap_iter_next.simps) (auto simp: Let_def False True)
  qed
qed

lemma ucast_le_mask:
  fixes i :: "64 word"
  assumes "b \<le> 32" "i < push_bit b 1"
  shows "(ucast i :: 32 word) \<le> mask b"
proof -
  have "unat i < unat (push_bit b 1 :: 64 word)" using assms(2) by (simp only: word_less_nat_alt)
  then have "unat i < 2 ^ b" by (simp only: unat_hashsize[OF assms(1)])
  moreover have "(2::nat) ^ b \<le> 2 ^ 32" using assms(1) by (intro power_increasing) simp_all
  ultimately have "unat i < 2 ^ 32" by simp
  then have "unat (ucast i :: 32 word) = unat i" by (simp add: unsigned_ucast_eq take_bit_nat_eq_self_iff)
  then show ?thesis using \<open>unat i < 2 ^ b\<close> assms(1) by (simp add: word_le_nat_alt unat_mask_le)
qed

text \<open>\<^verbatim>\<open>isc_hashmap_iter_delcurrent_next\<close> on an iterator whose current slot holds a node.\<close>

lemma delcurrent_next_spec:
  fixes hm :: "'a isc_hashmap"
  assumes inv: "hashmap_inv hm" and cur: "it_cur it \<noteq> None"
    and idx: "it_hindex it = hm_hindex hm \<or> it_hindex it = hashmap_nexttable (hm_hindex hm)"
    and tt: "t_table (hm_tables hm (it_hindex it)) = Some tbl"
    and i: "it_i it < t_size (hm_tables hm (it_hindex it))"
    and oc: "n_key (tbl (ucast (it_i it))) \<noteq> None"
  shows "\<exists>r hm' it'. isc_hashmap_iter_delcurrent_next hm it = Some (Inr (r, hm', it')) \<and>
      hashmap_inv hm' \<and> contents hm' = contents hm - {strip (tbl (ucast (it_i it)))} \<and>
      unat (hm_count hm') + 1 = unat (hm_count hm) \<and>
      t_hashbits (active hm') = t_hashbits (active hm) \<and>
      (hashmap_cap hm \<longrightarrow> hashmap_cap hm')"
proof -
  let ?t = "hm_tables hm (it_hindex it)"
  let ?pos = "ucast (it_i it) :: 32 word"
  have wf: "tbl_wf (hm_case_sensitive hm) ?t"
    using idx hashmap_invD(3)[OF inv] hashmap_invD(7)[OF inv] tt by (auto simp: active_def source_def)
  from wf obtain T where T: "t_table ?t = Some T" "1 \<le> unat (t_hashbits ?t)" "unat (t_hashbits ?t) \<le> 32"
    "t_hashmask ?t = mask (unat (t_hashbits ?t))" "t_size ?t = push_bit (unat (t_hashbits ?t)) 1"
    by (rule tbl_wfD)
  have pm: "?pos \<le> t_hashmask ?t" using ucast_le_mask[OF T(3)] i by (simp add: T(4,5))
  from map_delete_node_spec[OF inv idx tt pm oc] obtain hm2 where
    d: "hashmap_delete_node hm ?pos (n_hashval (tbl ?pos)) (n_psl (tbl ?pos)) (it_hindex it) = Some (Inr hm2)"
      "hashmap_inv hm2" "contents hm2 = contents hm - {strip (tbl ?pos)}"
      "unat (hm_count hm2) + 1 = unat (hm_count hm)"
      "t_hashbits (active hm2) = t_hashbits (active hm)"
      "rehashing_in_progress hm2 = rehashing_in_progress hm" "load hm2 + 1 \<le> load hm"
    by blast
  have capd: "hashmap_cap hm \<longrightarrow> hashmap_cap hm2"
    using d(4,5,6,7) by (auto simp: hashmap_cap_def Let_def)
  have keep: "t_table (hm_tables hm2 (it_hindex it)) \<noteq> None"
    using d(1) tt T(4,5)
    by (auto simp: hashmap_delete_node_def Let_def res_bind_def split: option.splits sum.splits)
  from iter_next_total[of it hm2] keep obtain r it' where
    n: "isc__hashmap_iter_next hm2 it = Some (Inr (r, it'))" by blast
  have "isc_hashmap_iter_delcurrent_next hm it = Some (Inr (r, hm2, it'))"
    using cur tt i d(1) n by (simp add: isc_hashmap_iter_delcurrent_next_def Let_def res_bind_def)
  then show ?thesis using d(2,3,4,5) capd by blast
qed

subsection \<open>The maps that the entry points build\<close>

lemma inv_psl:
  assumes inv: "hashmap_inv hm"
  shows "psl_inv hm"
proof -
  have a: "table_psl (active hm)"
  proof -
    from hashmap_invD(3)[OF inv] obtain A where "t_table (active hm) = Some A"
      "1 \<le> unat (t_hashbits (active hm))" "unat (t_hashbits (active hm)) \<le> 32"
      "t_hashmask (active hm) = mask (unat (t_hashbits (active hm)))"
      "t_size (active hm) = push_bit (unat (t_hashbits (active hm))) 1"
      "table_ok (hm_case_sensitive hm) A (t_hashbits (active hm)) (mask (unat (t_hashbits (active hm))))"
      by (rule tbl_wfD)
    then show ?thesis by (simp add: table_psl_def table_ok_def)
  qed
  have s: "table_psl (source hm)"
  proof (cases "t_table (source hm)")
    case None then show ?thesis by (simp add: table_psl_def)
  next
    case (Some S0)
    then have ne: "t_table (source hm) \<noteq> None" by simp
    from hashmap_invD(7)[OF inv ne] obtain S where "t_table (source hm) = Some S"
      "1 \<le> unat (t_hashbits (source hm))" "unat (t_hashbits (source hm)) \<le> 32"
      "t_hashmask (source hm) = mask (unat (t_hashbits (source hm)))"
      "t_size (source hm) = push_bit (unat (t_hashbits (source hm))) 1"
      "table_ok (hm_case_sensitive hm) S (t_hashbits (source hm)) (mask (unat (t_hashbits (source hm))))"
      by (rule tbl_wfD)
    then show ?thesis by (simp add: table_psl_def table_ok_def)
  qed
  from hashmap_invD(2)[OF inv] a s show ?thesis
    by (auto simp: psl_inv_def active_def source_def)
qed


lemma find_notfound_contents:
  assumes inv: "hashmap_inv hm" and room: "room_ok hm" and k: "length k \<le> 65535"
    and f: "isc_hashmap_find H hm hvp (Some k) (Some None) = Some (Inr (ISC_R_NOTFOUND, Some None))"
  shows "\<forall>x\<in>contents hm. \<not> hashmap_match x (the_hashval H hm hvp k) k (hm_case_sensitive hm)"
proof
  fix x assume x: "x \<in> contents hm"
  show "\<not> hashmap_match x (the_hashval H hm hvp k) k (hm_case_sensitive hm)"
  proof
    assume "hashmap_match x (the_hashval H hm hvp k) k (hm_case_sensitive hm)"
    from isc_hashmap_find_hit[OF inv cap_of_room[OF inv room] k x this, of ] f show False by simp
  qed
qed

lemma find_success_contents:
  assumes inv: "hashmap_inv hm" and room: "room_ok hm" and k: "length k \<le> 65535"
    and f: "isc_hashmap_find H hm hvp (Some k) (Some None) = Some (Inr (ISC_R_SUCCESS, Some v))"
  shows "\<exists>x\<in>contents hm. hashmap_match x (the_hashval H hm hvp k) k (hm_case_sensitive hm) \<and> n_value x = v"
proof (rule ccontr)
  assume n: "\<not> (\<exists>x\<in>contents hm. hashmap_match x (the_hashval H hm hvp k) k (hm_case_sensitive hm) \<and> n_value x = v)"
  show False
  proof (cases "\<exists>x\<in>contents hm. hashmap_match x (the_hashval H hm hvp k) k (hm_case_sensitive hm)")
    case True
    then obtain x where x: "x \<in> contents hm" "hashmap_match x (the_hashval H hm hvp k) k (hm_case_sensitive hm)"
      by blast
    from isc_hashmap_find_hit[OF inv cap_of_room[OF inv room] k x] f have "n_value x = v" by simp
    with n x show False by blast
  next
    case False
    then have "\<forall>x\<in>contents hm. \<not> hashmap_match x (the_hashval H hm hvp k) k (hm_case_sensitive hm)" by blast
    from isc_hashmap_find_miss[OF inv room k this] f show False by simp
  qed
qed

lemma the_hashval_cong:
  "hm_case_sensitive hm' = hm_case_sensitive hm \<Longrightarrow> hm_hash_key hm' = hm_hash_key hm \<Longrightarrow>
   the_hashval H hm' hvp k = the_hashval H hm hvp k"
  by (cases hvp) (simp_all add: the_hashval_def)

lemma shrinks_32_nat:
  assumes inv: "hashmap_inv hm"
  shows "shrinks_32 hm \<longleftrightarrow>
     (\<not> rehashing_in_progress hm \<and> unat (t_hashbits (active hm)) = 32 \<and>
      unat (hm_count hm) < (2 ^ 32 * 205) div 1024)"
proof -
  from hashmap_invD(3)[OF inv] obtain A where "t_table (active hm) = Some A"
    and b: "1 \<le> unat (t_hashbits (active hm))" "unat (t_hashbits (active hm)) \<le> 32" by (rule tbl_wfD)
  show ?thesis unfolding shrinks_32_def under_threshold_nat[OF b] by auto
qed

text \<open>The bound on the count gives the free slot that add needs.\<close>

lemma cap_room:
  assumes inv: "hashmap_inv hm" and cap: "hashmap_cap hm"
  shows "room_ok hm"
proof -
  let ?b = "unat (t_hashbits (active hm))"
  have b32: "?b \<le> 32" using hashmap_invD(3)[OF inv] by (rule tbl_wfD)
  have t: "cap_limit ?b < 2 ^ ?b"
  proof (cases "?b < 32")
    case True
    then show ?thesis using approx_lt_pow(1)[of ?b] by (simp add: cap_limit_def)
  next
    case False
    with b32 have "?b = 32" by simp
    then show ?thesis by (simp add: cap_limit_def)
  qed
  show ?thesis
  proof (cases "rehashing_in_progress hm")
    case True
    then have "unat (hm_count hm) \<le> cap_limit ?b"
      using cap by (simp add: hashmap_cap_def load_def Let_def)
    with t show ?thesis by (simp add: room_ok_def)
  next
    case False
    then have c: "unat (hm_count hm) \<le> cap_limit ?b + 1"
      using cap by (simp add: hashmap_cap_def Let_def)
    show ?thesis unfolding room_ok_def
    proof
      assume "rehashing_in_progress hm \<or> ?b = 32"
      with False have b: "?b = 32" by simp
      show "unat (hm_count hm) < 2 ^ ?b" using c unfolding b by (simp add: cap_limit_def)
    qed
  qed
qed

lemma ok_room: "hashmap_ok hm \<Longrightarrow> hashmap_inv hm \<and> room_ok hm"
  using cap_room by (auto simp: hashmap_ok_def)

lemma ok_create:
  fixes hm :: "'a isc_hashmap"
  assumes "isc_hashmap_create entropy bits opts = Inr hm"
  shows "hashmap_ok hm \<and> t_hashbits (active hm) = bits"
proof -
  have r: "bits \<ge> HASHMAP_MIN_BITS \<and> bits \<le> HASHMAP_MAX_BITS"
    using assms by (auto simp: isc_hashmap_create_def Let_def split: if_splits)
  then have b: "1 \<le> unat bits" "unat bits \<le> 32"
    by (simp_all add: word_le_nat_alt HASHMAP_MIN_BITS_def HASHMAP_MAX_BITS_def)
  from create_spec[where 'a = 'a, OF b, of entropy opts] obtain hm0 :: "'a isc_hashmap" where
    c: "isc_hashmap_create entropy bits opts = Inr hm0" "hashmap_inv hm0" "hm_count hm0 = 0"
      "\<not> rehashing_in_progress hm0" "t_hashbits (active hm0) = bits" by blast
  have "hm0 = hm" using c(1) assms by simp
  with c(2-5) show ?thesis by (simp add: hashmap_ok_def hashmap_cap_def Let_def)
qed

text \<open>Add and delete keep the invariant and the bound on the count, the add on a map with
  \<open>2 ^ 32 - 1\<close> nodes or more and the delete that shrinks a table of 32 bits apart.\<close>

lemma ok_add:
  assumes ok: "hashmap_ok hm" and k: "length k \<le> 65535"
  shows "\<exists>r hm'. isc_hashmap_add H hm hvp (Some k) v = Some (Inr (r, hm')) \<and> hashmap_inv hm' \<and>
           (unat (hm_count hm) < 2 ^ 32 - 1 \<longrightarrow> hashmap_ok hm')"
proof -
  from ok have inv: "hashmap_inv hm" and cap: "hashmap_cap hm" and room: "room_ok hm"
    using ok_room by (auto simp: hashmap_ok_def)
  show ?thesis
  proof (cases "\<forall>x\<in>contents hm. \<not> hashmap_match x (the_hashval H hm hvp k) k (hm_case_sensitive hm)")
    case True
    from isc_hashmap_add_new[OF inv room k True, of v] cap show ?thesis
      unfolding hashmap_ok_def by blast
  next
    case False
    then obtain x where x: "x \<in> contents hm"
      "hashmap_match x (the_hashval H hm hvp k) k (hm_case_sensitive hm)" by blast
    from isc_hashmap_add_exists[OF inv room k x, of v] cap show ?thesis
      unfolding hashmap_ok_def by blast
  qed
qed

lemma ok_delete:
  assumes ok: "hashmap_ok hm" and k: "length k \<le> 65535"
    and noslip: "\<not> (\<not> rehashing_in_progress hm \<and> unat (t_hashbits (active hm)) = 32 \<and>
                    unat (hm_count hm) < (2 ^ 32 * 205) div 1024)"
  shows "\<exists>r hm'. isc_hashmap_delete H hm hvp (Some k) = Some (Inr (r, hm')) \<and> hashmap_ok hm'"
proof -
  from ok have inv: "hashmap_inv hm" and cap: "hashmap_cap hm" and room: "room_ok hm"
    using ok_room by (auto simp: hashmap_ok_def)
  show ?thesis
  proof (cases "\<forall>x\<in>contents hm. \<not> hashmap_match x (the_hashval H hm hvp k) k (hm_case_sensitive hm)")
    case True
    from isc_hashmap_delete_miss[OF inv room noslip k True] cap show ?thesis
      unfolding hashmap_ok_def by blast
  next
    case False
    then obtain x where x: "x \<in> contents hm"
      "hashmap_match x (the_hashval H hm hvp k) k (hm_case_sensitive hm)" by blast
    from isc_hashmap_delete_hit[OF inv cap_of_room[OF inv room] noslip k x] cap show ?thesis
      unfolding hashmap_ok_def by blast
  qed
qed

text \<open>Every map that a sequence of calls builds from a new map satisfies the invariant and
  has the free slot: the hypotheses of the properties of the entry points.\<close>

lemma reachable_ok:
  assumes "reachable H hm"
  shows "hashmap_ok hm"
  using assms
proof (induction rule: reachable.induct)
  case (reachable_create entropy bits opts hashmap)
  then show ?case using ok_create by blast
next
  case (reachable_add hashmap key hashvalp val r hashmap')
  from ok_add[OF reachable_add.IH reachable_add(2), of H hashvalp val] reachable_add(3,4)
  show ?case by auto
next
  case (reachable_delete hashmap key hashvalp r hashmap')
  from ok_delete[OF reachable_delete.IH reachable_delete(2,3), of H hashvalp] reachable_delete(4)
  show ?case by auto
next
  case (reachable_delcurrent hashmap iter tbl r hashmap' iter')
  then have inv: "hashmap_inv hashmap" and cap: "hashmap_cap hashmap"
    by (simp_all add: hashmap_ok_def)
  from delcurrent_next_spec[OF inv reachable_delcurrent(2,3,4,5,6)] reachable_delcurrent(7) cap
    reachable_delcurrent.IH
  show ?case by (auto simp: hashmap_ok_def)
qed

lemma reachable_inv: "reachable H hm \<Longrightarrow> hashmap_inv hm \<and> room_ok hm \<and> psl_inv hm"
  using reachable_ok ok_room inv_psl by blast

subsection \<open>Properties of the entry points\<close>


text \<open>
  C4. On a map that satisfies the invariant (as every map does that create, add and delete
  build), a rehash in progress or not, and in which find returns the value \<open>v\<close>
  for the key: add of the key with any value returns EXISTS, find still returns \<open>v\<close>, and the count
  (the field, and what \<^verbatim>\<open>isc_hashmap_count\<close> returns) is unchanged.
\<close>

theorem isc_hashmap_add_exists_keeps:
  assumes inv: "hashmap_inv hm" and room: "room_ok hm" and k: "length k \<le> 65535"
    and present: "isc_hashmap_find H hm hvp (Some k) (Some None) = Some (Inr (ISC_R_SUCCESS, Some v))"
  shows "\<exists>hm'. isc_hashmap_add H hm hvp (Some k) v' = Some (Inr (ISC_R_EXISTS, hm')) \<and>
           isc_hashmap_find H hm' hvp (Some k) (Some None) = Some (Inr (ISC_R_SUCCESS, Some v)) \<and>
           hm_count hm' = hm_count hm \<and> isc_hashmap_count hm' = isc_hashmap_count hm"
proof -
  from find_success_contents[OF inv room k present] obtain x where
    x: "x \<in> contents hm" "hashmap_match x (the_hashval H hm hvp k) k (hm_case_sensitive hm)" "n_value x = v"
    by blast
  from isc_hashmap_add_exists[OF inv room k x(1,2), of v'] obtain hm' where
    a: "isc_hashmap_add H hm hvp (Some k) v' = Some (Inr (ISC_R_EXISTS, hm'))" "hashmap_inv hm'"
      "room_ok hm'" "contents hm' = contents hm" "hm_count hm' = hm_count hm"
      "hm_case_sensitive hm' = hm_case_sensitive hm" "hm_hash_key hm' = hm_hash_key hm"
    by blast
  have hv: "the_hashval H hm' hvp k = the_hashval H hm hvp k" using a(6,7) by (rule the_hashval_cong)
  have x': "x \<in> contents hm'" "hashmap_match x (the_hashval H hm' hvp k) k (hm_case_sensitive hm')"
    using x by (simp_all add: a(4,6) hv)
  have f: "isc_hashmap_find H hm' hvp (Some k) (Some None) = Some (Inr (ISC_R_SUCCESS, Some v))"
    using isc_hashmap_find_hit[OF a(2) cap_of_room[OF a(2,3)] k x'] x(3) by simp
  have c: "isc_hashmap_count hm' = isc_hashmap_count hm"
    using hashmap_invD(1)[OF inv] hashmap_invD(1)[OF a(2)] by (simp add: isc_hashmap_count_def a(5))
  show ?thesis using a(1,5) f c by blast
qed

lemma inv_bits:
  assumes inv: "hashmap_inv hm"
  shows "1 \<le> unat (t_hashbits (active hm))" "unat (t_hashbits (active hm)) \<le> 32"
    "t_size (active hm) = HASHSIZE (unat (t_hashbits (active hm)))"
    "unat (t_size (active hm)) = 2 ^ unat (t_hashbits (active hm))"
proof -
  from hashmap_invD(3)[OF inv] obtain A where a: "t_table (active hm) = Some A"
    "1 \<le> unat (t_hashbits (active hm))" "unat (t_hashbits (active hm)) \<le> 32"
    "t_hashmask (active hm) = mask (unat (t_hashbits (active hm)))"
    "t_size (active hm) = push_bit (unat (t_hashbits (active hm))) 1"
    by (rule tbl_wfD)
  show "1 \<le> unat (t_hashbits (active hm))" "unat (t_hashbits (active hm)) \<le> 32"
    "t_size (active hm) = HASHSIZE (unat (t_hashbits (active hm)))"
    "unat (t_size (active hm)) = 2 ^ unat (t_hashbits (active hm))"
    using a(2,3,5) unat_hashsize[OF a(3)] by (simp_all add: HASHSIZE_def)
qed

lemma add_total:
  assumes inv: "hashmap_inv hm" and room: "room_ok hm" and k: "length k \<le> 65535"
  shows "\<exists>r hm'. isc_hashmap_add H hm hvp (Some k) v = Some (Inr (r, hm')) \<and> hashmap_inv hm' \<and>
           grow_rel hm hm' \<and>
           (r = ISC_R_SUCCESS \<longleftrightarrow>
              (\<forall>x\<in>contents hm. \<not> hashmap_match x (the_hashval H hm hvp k) k (hm_case_sensitive hm)))"
proof (cases "\<forall>x\<in>contents hm. \<not> hashmap_match x (the_hashval H hm hvp k) k (hm_case_sensitive hm)")
  case True
  from isc_hashmap_add_new[OF inv room k True, of v] True show ?thesis by blast
next
  case False
  then obtain x where x: "x \<in> contents hm"
    "hashmap_match x (the_hashval H hm hvp k) k (hm_case_sensitive hm)" by blast
  from isc_hashmap_add_exists[OF inv room k x, of v] obtain hm' where
    "isc_hashmap_add H hm hvp (Some k) v = Some (Inr (ISC_R_EXISTS, hm'))" "hashmap_inv hm'"
    "grow_rel hm hm'" by blast
  with False show ?thesis by auto
qed

lemma delete_total:
  assumes inv: "hashmap_inv hm" and room: "room_ok hm" and k: "length k \<le> 65535"
  shows "\<exists>r hm'. isc_hashmap_delete H hm hvp (Some k) = Some (Inr (r, hm')) \<and>
           shrink_rel hm hm' \<and> psl_inv hm' \<and>
           1 \<le> unat (t_hashbits (active hm')) \<and> unat (t_hashbits (active hm')) \<le> 32 \<and>
           unat (t_size (active hm')) = 2 ^ unat (t_hashbits (active hm'))"
proof (cases "shrinks_32 hm")
  case True
  then have s: "\<not> rehashing_in_progress hm" "unat (t_hashbits (active hm)) = 32"
    "unat (hm_count hm) < (2 ^ 32 * 205) div 1024"
    using shrinks_32_nat[OF inv] by simp_all
  from True have u: "under_threshold hm = Inr True" by (simp add: shrinks_32_def)
  from delete_slip[OF inv s k, of H hvp] obtain hm' where
    d: "isc_hashmap_delete H hm hvp (Some k) = Some (Inr (ISC_R_NOTFOUND, hm'))"
      "unat (t_hashbits (active hm')) = 31" "psl_inv hm'" "t_size (active hm') = HASHSIZE 31"
    by blast
  have "shrink_rel hm hm'" using s(1,2) u d(2) by (simp add: shrink_rel_def)
  moreover have "unat (t_size (active hm')) = 2 ^ 31"
    using unat_hashsize[of 31] by (simp add: d(4) HASHSIZE_def)
  ultimately show ?thesis using d by simp
next
  case False
  then have noslip: "\<not> (\<not> rehashing_in_progress hm \<and> unat (t_hashbits (active hm)) = 32 \<and>
                    unat (hm_count hm) < (2 ^ 32 * 205) div 1024)"
    using shrinks_32_nat[OF inv] by simp
  have "\<exists>r hm'. isc_hashmap_delete H hm hvp (Some k) = Some (Inr (r, hm')) \<and>
           shrink_rel hm hm' \<and> hashmap_inv hm'"
  proof (cases "\<forall>x\<in>contents hm. \<not> hashmap_match x (the_hashval H hm hvp k) k (hm_case_sensitive hm)")
    case True
    from isc_hashmap_delete_miss[OF inv room noslip k True] show ?thesis by blast
  next
    case False
    then obtain x where x: "x \<in> contents hm"
      "hashmap_match x (the_hashval H hm hvp k) k (hm_case_sensitive hm)" by blast
    from isc_hashmap_delete_hit[OF inv cap_of_room[OF inv room] noslip k x] show ?thesis by blast
  qed
  then obtain r hm' where d: "isc_hashmap_delete H hm hvp (Some k) = Some (Inr (r, hm'))"
    "shrink_rel hm hm'" "hashmap_inv hm'" by blast
  show ?thesis using d(1,2) inv_psl[OF d(3)] inv_bits(1,2,4)[OF d(3)] by blast
qed

text \<open>
  C10. On a map that satisfies the invariant (as every map does that create, add and delete
  build), the width of the active table stays within 1 and 32 across add and delete, and its
  capacity is 2 to the width. On a map of 32 bits \<^verbatim>\<open>over_threshold\<close> is false, and an add
  keeps the width, starts no rehash and inserts a key that is not in the map; on a map of 1 bit
  \<^verbatim>\<open>under_threshold\<close> is false, and a delete keeps the width and starts no rehash.
\<close>

theorem hashmap_bits_range:
  assumes inv: "hashmap_inv hm" and room: "room_ok hm" and k: "length k \<le> 65535"
  shows "(\<exists>r hm'. isc_hashmap_add H hm hvp (Some k) v = Some (Inr (r, hm')) \<and>
            1 \<le> unat (t_hashbits (active hm')) \<and> unat (t_hashbits (active hm')) \<le> 32 \<and>
            unat (t_size (active hm')) = 2 ^ unat (t_hashbits (active hm')) \<and>
            (unat (t_hashbits (active hm)) = 32 \<longrightarrow>
               over_threshold hm = Inr False \<and> unat (t_hashbits (active hm')) = 32 \<and>
               (\<not> rehashing_in_progress hm \<longrightarrow> \<not> rehashing_in_progress hm') \<and>
               (isc_hashmap_find H hm hvp (Some k) (Some None) = Some (Inr (ISC_R_NOTFOUND, Some None))
                  \<longrightarrow> r = ISC_R_SUCCESS))) \<and>
         (\<exists>r hm'. isc_hashmap_delete H hm hvp (Some k) = Some (Inr (r, hm')) \<and>
            1 \<le> unat (t_hashbits (active hm')) \<and> unat (t_hashbits (active hm')) \<le> 32 \<and>
            unat (t_size (active hm')) = 2 ^ unat (t_hashbits (active hm')) \<and>
            (unat (t_hashbits (active hm)) = 1 \<longrightarrow>
               under_threshold hm = Inr False \<and> unat (t_hashbits (active hm')) = 1 \<and>
               (\<not> rehashing_in_progress hm \<longrightarrow> \<not> rehashing_in_progress hm')))"
proof -
  note b = inv_bits(1,2)[OF inv]
  from add_total[OF inv room k, of H hvp v] obtain r hm' where
    a: "isc_hashmap_add H hm hvp (Some k) v = Some (Inr (r, hm'))" "hashmap_inv hm'" "grow_rel hm hm'"
      "r = ISC_R_SUCCESS \<longleftrightarrow>
         (\<forall>x\<in>contents hm. \<not> hashmap_match x (the_hashval H hm hvp k) k (hm_case_sensitive hm))"
    by blast
  have a32: "over_threshold hm = Inr False \<and> unat (t_hashbits (active hm')) = 32 \<and>
             (\<not> rehashing_in_progress hm \<longrightarrow> \<not> rehashing_in_progress hm')"
    if "unat (t_hashbits (active hm)) = 32"
  proof -
    have o: "over_threshold hm = Inr False" using that by (simp add: over_threshold_nat[OF b])
    show ?thesis using a(3) that o by (auto simp: grow_rel_def Let_def)
  qed
  have asucc: "r = ISC_R_SUCCESS"
    if "isc_hashmap_find H hm hvp (Some k) (Some None) = Some (Inr (ISC_R_NOTFOUND, Some None))"
    using find_notfound_contents[OF inv room k that] a(4) by simp
  have A: "\<exists>r hm'. isc_hashmap_add H hm hvp (Some k) v = Some (Inr (r, hm')) \<and>
            1 \<le> unat (t_hashbits (active hm')) \<and> unat (t_hashbits (active hm')) \<le> 32 \<and>
            unat (t_size (active hm')) = 2 ^ unat (t_hashbits (active hm')) \<and>
            (unat (t_hashbits (active hm)) = 32 \<longrightarrow>
               over_threshold hm = Inr False \<and> unat (t_hashbits (active hm')) = 32 \<and>
               (\<not> rehashing_in_progress hm \<longrightarrow> \<not> rehashing_in_progress hm') \<and>
               (isc_hashmap_find H hm hvp (Some k) (Some None) = Some (Inr (ISC_R_NOTFOUND, Some None))
                  \<longrightarrow> r = ISC_R_SUCCESS))"
    using a(1) inv_bits(1,2,4)[OF a(2)] a32 asucc by blast
  from delete_total[OF inv room k, of H hvp] obtain r2 hm2 where
    d: "isc_hashmap_delete H hm hvp (Some k) = Some (Inr (r2, hm2))" "shrink_rel hm hm2"
      "1 \<le> unat (t_hashbits (active hm2))" "unat (t_hashbits (active hm2)) \<le> 32"
      "unat (t_size (active hm2)) = 2 ^ unat (t_hashbits (active hm2))"
    by blast
  have d1: "under_threshold hm = Inr False \<and> unat (t_hashbits (active hm2)) = 1 \<and>
             (\<not> rehashing_in_progress hm \<longrightarrow> \<not> rehashing_in_progress hm2)"
    if "unat (t_hashbits (active hm)) = 1"
  proof -
    have u: "under_threshold hm = Inr False" using that by (simp add: under_threshold_nat[OF b])
    show ?thesis using d(2) that u by (auto simp: shrink_rel_def Let_def)
  qed
  have D: "\<exists>r hm'. isc_hashmap_delete H hm hvp (Some k) = Some (Inr (r, hm')) \<and>
            1 \<le> unat (t_hashbits (active hm')) \<and> unat (t_hashbits (active hm')) \<le> 32 \<and>
            unat (t_size (active hm')) = 2 ^ unat (t_hashbits (active hm')) \<and>
            (unat (t_hashbits (active hm)) = 1 \<longrightarrow>
               under_threshold hm = Inr False \<and> unat (t_hashbits (active hm')) = 1 \<and>
               (\<not> rehashing_in_progress hm \<longrightarrow> \<not> rehashing_in_progress hm'))"
    using d(1,3,4,5) d1 by blast
  show ?thesis using A D by (rule conjI)
qed

lemma over_literal:
  fixes A cnt :: nat
  assumes "9 * A < 10 * cnt"
  shows "(A * 921) div 1024 < cnt"
  using assms by arith

lemma approx40_literal:
  fixes X cnt :: nat
  assumes "cnt \<le> (X * 409) div 1024"
  shows "10 * cnt \<le> 4 * X"
  using assms by arith

lemma approx40_two:
  "(2::nat) ^ b \<le> (2 ^ (b + 2) * 409) div 1024"
proof -
  have "(2::nat) ^ (b + 2) = 4 * 2 ^ b" by simp
  then show ?thesis by simp
qed

text \<open>
  C5 (amended). On a map that satisfies the invariant (as every map does that create, add and
  delete build), with no rehash in progress: an add
  issued when the count exceeds 90% of the capacity of the active table of width \<open>b\<close> leaves
  the active table at the least width \<open>b'\<close> greater than \<open>b\<close> with count at most 40% of
  \<open>2 ^ b'\<close>, 32 at most (a table of 32 bits keeps its width). A delete issued when the count is
  below \<^verbatim>\<open>APPROX_20_PERCENT\<close> of the capacity, which is \<open>(2 ^ b * 205) div 1024\<close>, and \<open>b\<close> is
  not 1, leaves the active table at width \<open>max (b - 1) 1\<close>.
\<close>

theorem hashmap_resize_widths:
  assumes inv: "hashmap_inv hm" and room: "room_ok hm" and k: "length k \<le> 65535"
    and nr: "\<not> rehashing_in_progress hm"
  shows "(\<exists>r hm'. isc_hashmap_add H hm hvp (Some k) v = Some (Inr (r, hm')) \<and>
            (9 * 2 ^ unat (t_hashbits (active hm)) < 10 * unat (hm_count hm) \<longrightarrow>
               unat (t_hashbits (active hm)) \<le> unat (t_hashbits (active hm')) \<and>
               unat (t_hashbits (active hm')) \<le> 32 \<and>
               (unat (t_hashbits (active hm)) < 32 \<longrightarrow>
                  unat (t_hashbits (active hm)) < unat (t_hashbits (active hm'))) \<and>
               (unat (t_hashbits (active hm')) < 32 \<longrightarrow>
                  10 * unat (hm_count hm) \<le> 4 * 2 ^ unat (t_hashbits (active hm'))) \<and>
               (\<forall>j. unat (t_hashbits (active hm)) < j \<and> j < unat (t_hashbits (active hm')) \<longrightarrow>
                  4 * 2 ^ j < 10 * unat (hm_count hm)))) \<and>
         (\<exists>r hm'. isc_hashmap_delete H hm hvp (Some k) = Some (Inr (r, hm')) \<and>
            (unat (hm_count hm) < (2 ^ unat (t_hashbits (active hm)) * 205) div 1024 \<and>
             unat (t_hashbits (active hm)) \<noteq> 1 \<longrightarrow>
               unat (t_hashbits (active hm')) = max (unat (t_hashbits (active hm)) - 1) 1))"
proof -
  let ?b = "unat (t_hashbits (active hm))"
  let ?cnt = "unat (hm_count hm)"
  note b = inv_bits(1,2)[OF inv]
  have src: "t_table (source hm) = None" using nr by (simp add: rehashing_source)
  have cnt: "?cnt \<le> 2 ^ ?b" by (rule steady_count[OF inv src])
  from add_total[OF inv room k, of H hvp v] obtain r hm' where
    a: "isc_hashmap_add H hm hvp (Some k) v = Some (Inr (r, hm'))" "hashmap_inv hm'" "grow_rel hm hm'"
    by blast
  let ?b' = "unat (t_hashbits (active hm'))"
  have grow: "?b \<le> ?b' \<and> ?b' \<le> 32 \<and> (?b < 32 \<longrightarrow> ?b < ?b') \<and> (?b' < 32 \<longrightarrow> 10 * ?cnt \<le> 4 * 2 ^ ?b') \<and>
              (\<forall>j. ?b < j \<and> j < ?b' \<longrightarrow> 4 * 2 ^ j < 10 * ?cnt)"
    if lit: "9 * 2 ^ ?b < 10 * ?cnt"
  proof (cases "?b = 32")
    case True
    then have "over_threshold hm = Inr False" by (simp add: over_threshold_nat[OF b])
    with a(3) nr have "?b' = ?b" by (simp add: grow_rel_def Let_def)
    with True show ?thesis by simp
  next
    case False
    have "(2 ^ ?b * 921) div 1024 < ?cnt" using lit by (rule over_literal)
    with False have o: "over_threshold hm = Inr True" by (simp add: over_threshold_nat[OF b])
    from a(3) nr o have g: "?b < ?b'" "?b' \<le> 32" "?b' < 32 \<longrightarrow> ?cnt \<le> (2 ^ ?b' * 409) div 1024"
      "\<forall>j. ?b < j \<and> j < ?b' \<longrightarrow> (2 ^ j * 409) div 1024 < ?cnt"
      by (simp_all add: grow_rel_def Let_def)
    have le2: "?b' \<le> ?b + 2"
    proof (rule ccontr)
      assume "\<not> ?b' \<le> ?b + 2"
      then have "?b < ?b + 2 \<and> ?b + 2 < ?b'" by simp
      with g(4) have "(2 ^ (?b + 2) * 409) div 1024 < ?cnt" by blast
      with approx40_two[of ?b] cnt show False by simp
    qed
    have low: "4 * 2 ^ j < 10 * ?cnt" if j: "?b < j \<and> j < ?b'" for j
    proof -
      from j le2 have "j = ?b + 1" by simp
      then have "4 * (2::nat) ^ j = 8 * 2 ^ ?b" by simp
      with lit show ?thesis by simp
    qed
    have up: "10 * ?cnt \<le> 4 * 2 ^ ?b'" if "?b' < 32"
      using g(3) that approx40_literal[of ?cnt "2 ^ ?b'"] by simp
    show ?thesis using g(1,2) up low by (simp add: less_imp_le)
  qed
  have A: "\<exists>r hm'. isc_hashmap_add H hm hvp (Some k) v = Some (Inr (r, hm')) \<and>
            (9 * 2 ^ ?b < 10 * ?cnt \<longrightarrow>
               ?b \<le> unat (t_hashbits (active hm')) \<and>
               unat (t_hashbits (active hm')) \<le> 32 \<and>
               (?b < 32 \<longrightarrow> ?b < unat (t_hashbits (active hm'))) \<and>
               (unat (t_hashbits (active hm')) < 32 \<longrightarrow>
                  10 * ?cnt \<le> 4 * 2 ^ unat (t_hashbits (active hm'))) \<and>
               (\<forall>j. ?b < j \<and> j < unat (t_hashbits (active hm')) \<longrightarrow> 4 * 2 ^ j < 10 * ?cnt))"
    using a(1) grow by blast
  from delete_total[OF inv room k, of H hvp] obtain r2 hm2 where
    d: "isc_hashmap_delete H hm hvp (Some k) = Some (Inr (r2, hm2))" "shrink_rel hm hm2"
    by blast
  have shrink: "unat (t_hashbits (active hm2)) = max (?b - 1) 1"
    if "?cnt < (2 ^ ?b * 205) div 1024 \<and> ?b \<noteq> 1"
  proof -
    from that have u: "under_threshold hm = Inr True" by (simp add: under_threshold_nat[OF b])
    with d(2) nr have "unat (t_hashbits (active hm2)) = ?b - 1" by (simp add: shrink_rel_def Let_def)
    with that b(1) show ?thesis by (auto simp: max_def)
  qed
  have D: "\<exists>r hm'. isc_hashmap_delete H hm hvp (Some k) = Some (Inr (r, hm')) \<and>
            (?cnt < (2 ^ ?b * 205) div 1024 \<and> ?b \<noteq> 1 \<longrightarrow>
               unat (t_hashbits (active hm')) = max (?b - 1) 1)"
    using d(1) shrink by blast
  show ?thesis using A D by (rule conjI)
qed

text \<open>
  C3 (amended). On a map that satisfies the invariant (as every map does that create, add,
  delete and \<^verbatim>\<open>isc_hashmap_iter_delcurrent_next\<close> on an occupied slot build, by
  \<open>reachable_inv\<close>), every non-empty slot at position \<open>p\<close> of either table stores the probe
  sequence length \<open>(p - (h >> (32 - bits))) AND hashmask\<close>, and this still holds after an
  add, after a delete, and after \<^verbatim>\<open>isc_hashmap_iter_delcurrent_next\<close> on an iterator whose
  current slot holds a node.
\<close>

theorem psl_invariant_preserved:
  assumes inv: "hashmap_inv hm" and room: "room_ok hm" and k: "length k \<le> 65535"
  shows "psl_inv hm \<and>
         (\<exists>r hm'. isc_hashmap_add H hm hvp (Some k) v = Some (Inr (r, hm')) \<and> psl_inv hm') \<and>
         (\<exists>r hm'. isc_hashmap_delete H hm hvp (Some k) = Some (Inr (r, hm')) \<and> psl_inv hm') \<and>
         (\<forall>it tbl. it_cur it \<noteq> None \<and>
              (it_hindex it = hm_hindex hm \<or> it_hindex it = hashmap_nexttable (hm_hindex hm)) \<and>
              t_table (hm_tables hm (it_hindex it)) = Some tbl \<and>
              it_i it < t_size (hm_tables hm (it_hindex it)) \<and>
              n_key (tbl (ucast (it_i it))) \<noteq> None \<longrightarrow>
            (\<exists>r hm' it'. isc_hashmap_iter_delcurrent_next hm it = Some (Inr (r, hm', it')) \<and>
               psl_inv hm'))"
proof -
  from add_total[OF inv room k, of H hvp v] obtain r hm' where
    a: "isc_hashmap_add H hm hvp (Some k) v = Some (Inr (r, hm'))" "hashmap_inv hm'" by blast
  have A: "\<exists>r hm'. isc_hashmap_add H hm hvp (Some k) v = Some (Inr (r, hm')) \<and> psl_inv hm'"
    using a(1) inv_psl[OF a(2)] by blast
  have D: "\<exists>r hm'. isc_hashmap_delete H hm hvp (Some k) = Some (Inr (r, hm')) \<and> psl_inv hm'"
    using delete_total[OF inv room k, of H hvp] by blast
  have I: "\<exists>r hm' it'. isc_hashmap_iter_delcurrent_next hm it = Some (Inr (r, hm', it')) \<and> psl_inv hm'"
    if c: "it_cur it \<noteq> None \<and>
           (it_hindex it = hm_hindex hm \<or> it_hindex it = hashmap_nexttable (hm_hindex hm)) \<and>
           t_table (hm_tables hm (it_hindex it)) = Some tbl \<and>
           it_i it < t_size (hm_tables hm (it_hindex it)) \<and>
           n_key (tbl (ucast (it_i it))) \<noteq> None" for it tbl
  proof -
    from c have c1: "it_cur it \<noteq> None"
      and c2: "it_hindex it = hm_hindex hm \<or> it_hindex it = hashmap_nexttable (hm_hindex hm)"
      and c3: "t_table (hm_tables hm (it_hindex it)) = Some tbl"
      and c4: "it_i it < t_size (hm_tables hm (it_hindex it))"
      and c5: "n_key (tbl (ucast (it_i it))) \<noteq> None" by simp_all
    from delcurrent_next_spec[OF inv c1 c2 c3 c4 c5] obtain r hm' it' where
      "isc_hashmap_iter_delcurrent_next hm it = Some (Inr (r, hm', it'))" "hashmap_inv hm'" by blast
    with inv_psl show ?thesis by blast
  qed
  show ?thesis using inv_psl[OF inv] A D I by blast
qed

subsection \<open>Runs of the code on the example maps\<close>

lemmas ev_defs = ISC_HASHMAP_VALID_def UINT16_MAX_def res_bind_def hashval_of_def
  rehashing_in_progress_def try_nexttable_def hashmap_nexttable_def zero_table_def zero_node_def
  over_threshold_def under_threshold_def HASHMAP_MIN_BITS_def HASHMAP_MAX_BITS_def HASHMAP_NO_BITS_def
  APPROX_20_PERCENT_def APPROX_90_PERCENT_def APPROX_40_PERCENT_def HASHSIZE_def
  hashmap_add_def hashmap_node_init_def isc_hash_bits32_def hashmap_match_def memcmp_def
  hashmap_rehash_start_shrink_def hashmap_rehash_start_grow_def shrink_bits_def grow_bits_def
  hashmap_create_table_def hashmap_rehash_one_def hashmap_free_table_def hashmap_delete_node_def
  Let_def word_le_nat_alt word_less_nat_alt
  hashmap_rehash_skip.simps hashmap_iter_skip.simps grow_bits_loop.simps hashmap_free_table_cleanup.simps

lemmas ev_steps = find_loop_stop find_loop_found find_loop_next hashmap_find_found hashmap_find_last
  hashmap_find_nexttable add_loop_place add_loop_exists add_loop_swap add_loop_keep
  delete_loop_insist delete_loop_stop delete_loop_shift

lemmas it_steps = iter_next_found iter_next_nomore

lemmas node_defs = node1_def nodeA_def nodeB_def nodeC_def nodeY_def nodeZ_def

lemma ev_create32: "isc_hashmap_create [] 32 0 = Inr map32_empty"
  by (simp add: isc_hashmap_create_def map32_empty_def ISC_HASHMAP_CASE_INSENSITIVE_def ev_defs)

lemma ev_add32:
  "isc_hashmap_add H0 map32_empty (Some 0) (Some [1]) (Some 5) = Some (Inr (ISC_R_SUCCESS, map32_one))"
  by (simp add: isc_hashmap_add_def map32_empty_def map32_one_def node1_def ev_defs ev_steps)

lemma ev_find32:
  "isc_hashmap_find H0 map32_one (Some 0) (Some [1]) (Some None) = Some (Inr (ISC_R_SUCCESS, Some (Some 5)))"
  by (simp add: isc_hashmap_find_def map32_one_def node1_def ev_defs ev_steps)

lemma ev_find32_absent:
  "isc_hashmap_find H0 map32_one (Some 1) (Some [2]) (Some None) = Some (Inr (ISC_R_NOTFOUND, Some None))"
  by (simp add: isc_hashmap_find_def map32_one_def node1_def ev_defs ev_steps)

lemma ev_shrink32: "hashmap_rehash_start_shrink map32_one = Inr map32_shrinking"
  by (simp add: map32_one_def map32_shrinking_def node1_def ev_defs)

lemma ev_find32_shrinking:
  "isc_hashmap_find H0 map32_shrinking (Some 0) (Some [1]) (Some None) =
     Some (Inr (ISC_R_SUCCESS, Some (Some 5)))"
  by (simp add: isc_hashmap_find_def map32_shrinking_def node1_def ev_defs ev_steps)

lemma ev_rehash32: "hashmap_rehash_one map32_shrinking = Some (Inr map31_lost)"
  by (simp add: map32_shrinking_def map31_lost_def node1_def ev_defs ev_steps) (simp add: fun_eq_iff)

lemma ev_delete32:
  "isc_hashmap_delete H0 map32_one (Some 1) (Some [2]) = Some (Inr (ISC_R_NOTFOUND, map31_lost))"
  by (simp add: isc_hashmap_delete_def map32_one_def map31_lost_def node1_def ev_defs ev_steps)
    (simp add: fun_eq_iff)

lemma ev_find31:
  "isc_hashmap_find H0 map31_lost (Some 0) (Some [1]) (Some None) = Some (Inr (ISC_R_NOTFOUND, Some None))"
  by (simp add: isc_hashmap_find_def map31_lost_def ev_defs ev_steps)

lemma ev_create1: "isc_hashmap_create [] 1 0 = Inr (hmap1 0 (\<lambda>_. zero_node))"
  by (simp add: isc_hashmap_create_def hmap1_def ISC_HASHMAP_CASE_INSENSITIVE_def ev_defs)

lemma ev_create2: "isc_hashmap_create [] 2 0 = Inr (hmap2 0 (\<lambda>_. zero_node))"
  by (simp add: isc_hashmap_create_def hmap2_def ISC_HASHMAP_CASE_INSENSITIVE_def ev_defs)

lemma ev_create3: "isc_hashmap_create [] 3 0 = Inr (hmap3 0 (\<lambda>_. zero_node))"
  by (simp add: isc_hashmap_create_def hmap3_def ISC_HASHMAP_CASE_INSENSITIVE_def ev_defs)

lemma ev1_addA:
  "isc_hashmap_add H0 (hmap1 0 (\<lambda>_. zero_node)) (Some 0) (Some [1]) (Some 10) =
     Some (Inr (ISC_R_SUCCESS, hmap1 1 ((\<lambda>_. zero_node)(0 := nodeA))))"
  by (simp add: isc_hashmap_add_def hmap1_def node_defs ev_defs ev_steps)

lemma ev1_addY:
  "isc_hashmap_add H0 (hmap1 1 ((\<lambda>_. zero_node)(0 := nodeA))) (Some 0x80000000) (Some [4]) (Some 40) =
     Some (Inr (ISC_R_SUCCESS, hmap1 2 ((\<lambda>_. zero_node)(0 := nodeA, 1 := nodeY))))"
  by (simp add: isc_hashmap_add_def hmap1_def node_defs ev_defs ev_steps)

lemma ev1_addZ:
  "isc_hashmap_add H0 (hmap1 2 ((\<lambda>_. zero_node)(0 := nodeA, 1 := nodeY))) (Some 0xA0000000) (Some [5]) (Some 50) =
     Some (Inr (ISC_R_SUCCESS, map_growing))"
  by (simp add: isc_hashmap_add_def hmap1_def map_growing_def node_defs ev_defs ev_steps)
    (simp add: fun_eq_iff)

lemma add_keeps_inv:
  assumes "hashmap_inv hm" "room_ok hm" "length k \<le> 65535"
    "isc_hashmap_add H hm hvp (Some k) v = Some (Inr (r, hm'))"
  shows "hashmap_inv hm'"
  using add_total[OF assms(1,2,3), of H hvp v] assms(4) by auto

lemma room_steady:
  "\<not> rehashing_in_progress hm \<Longrightarrow> unat (t_hashbits (active hm)) \<noteq> 32 \<Longrightarrow> room_ok hm"
  by (simp add: room_ok_def)

lemma ex_steady:
  "\<not> rehashing_in_progress (hmap1 c t)" "unat (t_hashbits (active (hmap1 c t))) = 1"
  "\<not> rehashing_in_progress (hmap2 c t)" "unat (t_hashbits (active (hmap2 c t))) = 2"
  "\<not> rehashing_in_progress (hmap3 c t)" "unat (t_hashbits (active (hmap3 c t))) = 3"
  "hm_count (hmap1 c t) = c" "hm_count (hmap2 c t) = c" "hm_count (hmap3 c t) = c"
  by (simp_all add: hmap1_def hmap2_def hmap3_def active_def ev_defs)

lemma ex_room: "room_ok (hmap1 c t)" "room_ok (hmap2 c t)" "room_ok (hmap3 c t)"
  by (rule room_steady; simp add: ex_steady)+

lemma ex32:
  "\<not> rehashing_in_progress map32_empty" "unat (t_hashbits (active map32_empty)) = 32"
  "\<not> rehashing_in_progress map32_one" "unat (t_hashbits (active map32_one)) = 32"
  "room_ok map32_empty" "room_ok map32_one"
  by (simp_all add: map32_empty_def map32_one_def active_def room_ok_def ev_defs)

lemma ex_growing:
  "rehashing_in_progress map_growing" "unat (t_hashbits (active map_growing)) = 3"
  "room_ok map_growing"
  by (simp_all add: map_growing_def active_def room_ok_def ev_defs)

lemma inv32_empty: "hashmap_inv map32_empty"
  using create_spec[where 'a = nat, of 32 "[]" 0] by (simp add: ev_create32)

lemma inv32_one: "hashmap_inv map32_one"
  by (rule add_keeps_inv[OF inv32_empty ex32(5) _ ev_add32]) simp

lemma inv1_0: "hashmap_inv (hmap1 0 (\<lambda>_. zero_node))"
  using create_spec[where 'a = nat, of 1 "[]" 0] by (simp add: ev_create1)

lemma inv1_A: "hashmap_inv (hmap1 1 ((\<lambda>_. zero_node)(0 := nodeA)))"
  by (rule add_keeps_inv[OF inv1_0 ex_room(1) _ ev1_addA]) simp

lemma inv1_AY: "hashmap_inv (hmap1 2 ((\<lambda>_. zero_node)(0 := nodeA, 1 := nodeY)))"
  by (rule add_keeps_inv[OF inv1_A ex_room(1) _ ev1_addY]) simp

lemma inv_growing: "hashmap_inv map_growing"
  by (rule add_keeps_inv[OF inv1_AY ex_room(1) _ ev1_addZ]) simp

lemma ev2_addA:
  "isc_hashmap_add H0 (hmap2 0 (\<lambda>_. zero_node)) (Some 0) (Some [1]) (Some 10) =
     Some (Inr (ISC_R_SUCCESS, hmap2 1 ((\<lambda>_. zero_node)(0 := nodeA))))"
  by (simp add: isc_hashmap_add_def hmap2_def node_defs ev_defs ev_steps)

lemma ev2_addB:
  "isc_hashmap_add H0 (hmap2 1 ((\<lambda>_. zero_node)(0 := nodeA))) (Some 1) (Some [2]) (Some 20) =
     Some (Inr (ISC_R_SUCCESS, hmap2 2 ((\<lambda>_. zero_node)(0 := nodeA, 1 := nodeB))))"
  by (simp add: isc_hashmap_add_def hmap2_def node_defs ev_defs ev_steps)

lemma ev2_addC:
  "isc_hashmap_add H0 (hmap2 2 ((\<lambda>_. zero_node)(0 := nodeA, 1 := nodeB))) (Some 0xC0000000) (Some [3]) (Some 30) =
     Some (Inr (ISC_R_SUCCESS, hmap2 3 tblABC))"
  by (simp add: isc_hashmap_add_def hmap2_def tblABC_def node_defs ev_defs ev_steps)

lemma inv2_0: "hashmap_inv (hmap2 0 (\<lambda>_. zero_node))"
  using create_spec[where 'a = nat, of 2 "[]" 0] by (simp add: ev_create2)

lemma inv2_A: "hashmap_inv (hmap2 1 ((\<lambda>_. zero_node)(0 := nodeA)))"
  by (rule add_keeps_inv[OF inv2_0 ex_room(2) _ ev2_addA]) simp

lemma inv2_AB: "hashmap_inv (hmap2 2 ((\<lambda>_. zero_node)(0 := nodeA, 1 := nodeB)))"
  by (rule add_keeps_inv[OF inv2_A ex_room(2) _ ev2_addB]) simp

lemma inv2_ABC: "hashmap_inv (hmap2 3 tblABC)"
  by (rule add_keeps_inv[OF inv2_AB ex_room(2) _ ev2_addC]) simp

lemma ev3_addA:
  "isc_hashmap_add H0 (hmap3 0 (\<lambda>_. zero_node)) (Some 0) (Some [1]) (Some 10) =
     Some (Inr (ISC_R_SUCCESS, hmap3 1 ((\<lambda>_. zero_node)(0 := nodeA))))"
  by (simp add: isc_hashmap_add_def hmap3_def node_defs ev_defs ev_steps)

lemma inv3_0: "hashmap_inv (hmap3 0 (\<lambda>_. zero_node))"
  using create_spec[where 'a = nat, of 3 "[]" 0] by (simp add: ev_create3)

lemma inv3_A: "hashmap_inv (hmap3 1 ((\<lambda>_. zero_node)(0 := nodeA)))"
  by (rule add_keeps_inv[OF inv3_0 ex_room(3) _ ev3_addA]) simp

lemma reach32_one: "reachable H0 map32_one"
  by (rule reachable_add[OF reachable_create[OF ev_create32] _ _ ev_add32])
     (simp_all add: map32_empty_def)

lemma reach1_0: "reachable H0 (hmap1 0 (\<lambda>_. zero_node))"
  by (rule reachable_create[OF ev_create1])

lemma reach1_A: "reachable H0 (hmap1 1 ((\<lambda>_. zero_node)(0 := nodeA)))"
  by (rule reachable_add[OF reach1_0 _ _ ev1_addA]) (simp_all add: ex_steady)

lemma reach1_AY: "reachable H0 (hmap1 2 ((\<lambda>_. zero_node)(0 := nodeA, 1 := nodeY)))"
  by (rule reachable_add[OF reach1_A _ _ ev1_addY]) (simp_all add: ex_steady)

lemma reach_growing: "reachable H0 map_growing"
  by (rule reachable_add[OF reach1_AY _ _ ev1_addZ]) (simp_all add: ex_steady)

lemma reach2_0: "reachable H0 (hmap2 0 (\<lambda>_. zero_node))"
  by (rule reachable_create[OF ev_create2])

lemma reach2_A: "reachable H0 (hmap2 1 ((\<lambda>_. zero_node)(0 := nodeA)))"
  by (rule reachable_add[OF reach2_0 _ _ ev2_addA]) (simp_all add: ex_steady)

lemma reach2_AB: "reachable H0 (hmap2 2 ((\<lambda>_. zero_node)(0 := nodeA, 1 := nodeB)))"
  by (rule reachable_add[OF reach2_A _ _ ev2_addB]) (simp_all add: ex_steady)

lemma reach2_ABC: "reachable H0 (hmap2 3 tblABC)"
  by (rule reachable_add[OF reach2_AB _ _ ev2_addC]) (simp_all add: ex_steady)

lemma reach3_0: "reachable H0 (hmap3 0 (\<lambda>_. zero_node))"
  by (rule reachable_create[OF ev_create3])

lemma ev3_delA:
  "isc_hashmap_delete H0 (hmap3 1 ((\<lambda>_. zero_node)(0 := nodeA))) (Some 0) (Some [1]) =
     Some (Inr (ISC_R_SUCCESS, hmap3 0 (\<lambda>_. zero_node)))"
  by (simp add: isc_hashmap_delete_def hmap3_def node_defs ev_defs ev_steps) (simp add: fun_eq_iff)

lemma ev3_del_empty:
  "isc_hashmap_delete H0 (hmap3 0 (\<lambda>_. zero_node)) (Some 0) (Some [1]) =
     Some (Inr (ISC_R_NOTFOUND,
       \<lparr>hm_magic = ISC_HASHMAP_MAGIC, hm_case_sensitive = True, hm_hindex = 1, hm_hiter = 0,
        hm_count = 0, hm_hash_key = [],
        hm_tables = (\<lambda>_. zero_table)(1 :=
          \<lparr>t_size = 4, t_hashbits = 2, t_hashmask = 3, t_table = Some (\<lambda>_. zero_node)\<rparr>)\<rparr>))"
  by (simp add: isc_hashmap_delete_def hmap3_def node_defs ev_defs ev_steps) (simp add: fun_eq_iff)


lemma ev_growing_find_Y:
  "isc_hashmap_find H0 map_growing (Some 0x80000000) (Some [4]) (Some None) =
     Some (Inr (ISC_R_SUCCESS, Some (Some 40)))"
  by (simp add: isc_hashmap_find_def map_growing_def node_defs ev_defs ev_steps)

lemma ev2_first:
  "isc_hashmap_iter_first (hmap2 3 tblABC) \<lparr>it_i = 0, it_hindex = 0, it_cur = None\<rparr> =
     Some (Inr (ISC_R_SUCCESS, \<lparr>it_i = 0, it_hindex = 0, it_cur = Some (0, 0)\<rparr>))"
  by (simp add: isc_hashmap_iter_first_def hmap2_def tblABC_def node_defs ev_defs it_steps)

lemma ev2_next1:
  "isc_hashmap_iter_next (hmap2 3 tblABC) \<lparr>it_i = 0, it_hindex = 0, it_cur = Some (0, 0)\<rparr> =
     Some (Inr (ISC_R_SUCCESS, \<lparr>it_i = 1, it_hindex = 0, it_cur = Some (0, 1)\<rparr>))"
  by (simp add: isc_hashmap_iter_next_def hmap2_def tblABC_def node_defs ev_defs it_steps)

lemma ev2_next2:
  "isc_hashmap_iter_next (hmap2 3 tblABC) \<lparr>it_i = 1, it_hindex = 0, it_cur = Some (0, 1)\<rparr> =
     Some (Inr (ISC_R_SUCCESS, \<lparr>it_i = 3, it_hindex = 0, it_cur = Some (0, 3)\<rparr>))"
  by (simp add: isc_hashmap_iter_next_def hmap2_def tblABC_def node_defs ev_defs it_steps)

lemma ev2_delC:
  "isc_hashmap_delete H0 (hmap2 3 tblABC) (Some 0xC0000000) (Some [3]) =
     Some (Inr (ISC_R_SUCCESS, hmap2 2 (tblABC(3 := zero_node))))"
  by (simp add: isc_hashmap_delete_def hmap2_def tblABC_def node_defs ev_defs ev_steps)

lemma ev2_delcur_stale:
  "isc_hashmap_iter_delcurrent_next (hmap2 2 (tblABC(3 := zero_node)))
       \<lparr>it_i = 3, it_hindex = 0, it_cur = Some (0, 3)\<rparr> =
     Some (Inr (ISC_R_SUCCESS, hmap2 1 tbl_stale, \<lparr>it_i = 3, it_hindex = 0, it_cur = Some (0, 3)\<rparr>))"
  apply (simp add: isc_hashmap_iter_delcurrent_next_def hmap2_def tblABC_def tbl_stale_def node_defs
      ev_defs ev_steps it_steps)
  apply (simp add: fun_eq_iff)
  done

lemma ev2_stale_slot:
  "n_key (tbl_stale 3) = Some [2]" "n_psl (tbl_stale 3) = 0"
  "(3 - isc_hash_bits32 (n_hashval (tbl_stale 3)) 2) AND 3 = 3"
  by (simp_all add: tbl_stale_def nodeB_def isc_hash_bits32_def)

lemma ev2_stale_bad: "\<not> psl_inv (hmap2 1 tbl_stale)"
proof
  assume "psl_inv (hmap2 1 tbl_stale)"
  then have "psl_ok tbl_stale 2 3" by (simp add: psl_inv_def table_psl_def hmap2_def)
  then have "n_key (tbl_stale 3) \<noteq> None \<longrightarrow>
      n_psl (tbl_stale 3) = (3 - isc_hash_bits32 (n_hashval (tbl_stale 3)) 2) AND 3"
    unfolding psl_ok_def by (simp add: word_le_nat_alt)
  then show False by (simp add: ev2_stale_slot)
qed

lemma ev2_iter_create:
  "isc_hashmap_iter_create (hmap2 3 tblABC) = Inr \<lparr>it_i = 0, it_hindex = 0, it_cur = None\<rparr>"
  by (simp add: isc_hashmap_iter_create_def hmap2_def ev_defs)

lemma ev3_shrink:
  "isc_hashmap_delete H0 (hmap3 0 (\<lambda>_. zero_node)) (Some 0) (Some [1]) =
     Some (Inr (ISC_R_NOTFOUND, map_shrunk))"
  by (simp add: ev3_del_empty map_shrunk_def)

lemma ex_shrunk: "unat (t_hashbits (active map_shrunk)) = 2" "\<not> rehashing_in_progress map_shrunk"
  by (simp_all add: map_shrunk_def active_def ev_defs)

lemma ex_contents32:
  "node1 \<in> contents map32_shrinking" "contents map31_lost = {}"
  by (auto simp: contents_def tab_entries_def entries_def active_def source_def strip_def
      map32_shrinking_def map31_lost_def node1_def ev_defs intro!: exI[of _ 0])


text \<open>An add of a key that sits in the source table of a map in the middle of a grow.\<close>

theorem isc_hashmap_add_exists_keeps_witness:
  "reachable H0 map_growing \<and> hashmap_inv map_growing \<and> room_ok map_growing \<and>
   isc_hashmap_find H0 map_growing (Some 0x80000000) (Some [4]) (Some None) =
     Some (Inr (ISC_R_SUCCESS, Some (Some 40))) \<and>
   (\<exists>hm'. isc_hashmap_add H0 map_growing (Some 0x80000000) (Some [4]) (Some 99) =
             Some (Inr (ISC_R_EXISTS, hm')) \<and>
      isc_hashmap_find H0 hm' (Some 0x80000000) (Some [4]) (Some None) =
        Some (Inr (ISC_R_SUCCESS, Some (Some 40))) \<and>
      hm_count hm' = hm_count map_growing \<and> isc_hashmap_count hm' = isc_hashmap_count map_growing)"
  using isc_hashmap_add_exists_keeps[OF inv_growing ex_growing(3) _ ev_growing_find_Y, of "Some 99"]
    inv_growing ex_growing ev_growing_find_Y reach_growing
  by simp

text \<open>An add on the map of 32 bits, and a delete on a map of 1 bit.\<close>

theorem hashmap_bits_range_witness:
  "reachable H0 map32_one \<and> reachable H0 (hmap1 1 ((\<lambda>_. zero_node)(0 := nodeA))) \<and>
   unat (t_hashbits (active map32_one)) = 32 \<and> over_threshold map32_one = Inr False \<and>
   (\<exists>r hm'. isc_hashmap_add H0 map32_one (Some 1) (Some [2]) (Some 6) = Some (Inr (r, hm')) \<and>
      r = ISC_R_SUCCESS \<and> unat (t_hashbits (active hm')) = 32 \<and> \<not> rehashing_in_progress hm' \<and>
      unat (t_size (active hm')) = 2 ^ 32) \<and>
   unat (t_hashbits (active (hmap1 1 ((\<lambda>_. zero_node)(0 := nodeA))))) = 1 \<and>
   under_threshold (hmap1 1 ((\<lambda>_. zero_node)(0 := nodeA))) = Inr False \<and>
   (\<exists>r hm'. isc_hashmap_delete H0 (hmap1 1 ((\<lambda>_. zero_node)(0 := nodeA))) (Some 0) (Some [1]) =
        Some (Inr (r, hm')) \<and>
      unat (t_hashbits (active hm')) = 1 \<and> \<not> rehashing_in_progress hm' \<and>
      unat (t_size (active hm')) = 2 ^ 1)"
proof -
  from hashmap_bits_range[OF inv32_one ex32(6), of "[2]" H0 "Some 1" "Some 6"]
  have a: "\<exists>r hm'. isc_hashmap_add H0 map32_one (Some 1) (Some [2]) (Some 6) = Some (Inr (r, hm')) \<and>
      r = ISC_R_SUCCESS \<and> unat (t_hashbits (active hm')) = 32 \<and> \<not> rehashing_in_progress hm' \<and>
      unat (t_size (active hm')) = 2 ^ 32" and o: "over_threshold map32_one = Inr False"
    using ex32(3,4) ev_find32_absent by auto
  from hashmap_bits_range[OF inv1_A ex_room(1), of "[1]" H0 "Some 0" "Some 6"]
  have d: "\<exists>r hm'. isc_hashmap_delete H0 (hmap1 1 ((\<lambda>_. zero_node)(0 := nodeA))) (Some 0) (Some [1]) =
        Some (Inr (r, hm')) \<and>
      unat (t_hashbits (active hm')) = 1 \<and> \<not> rehashing_in_progress hm' \<and>
      unat (t_size (active hm')) = 2 ^ 1"
    and u: "under_threshold (hmap1 1 ((\<lambda>_. zero_node)(0 := nodeA))) = Inr False"
    using ex_steady(1,2) by auto
  show ?thesis using a o d u ex32(4) ex_steady(2) reach32_one reach1_A by blast
qed

text \<open>The third add on the map of 1 bit starts a grow to 3 bits: the count 2 exceeds 90% of 2,
  and 3 is the least width above 1 with \<open>2 \<le> 40% of 2 ^ 3\<close>. A delete on the empty map of 3
  bits starts a shrink to 2 bits: the count 0 is below \<open>(8 * 205) div 1024 = 1\<close>.\<close>

theorem hashmap_resize_widths_witness:
  "reachable H0 (hmap1 2 ((\<lambda>_. zero_node)(0 := nodeA, 1 := nodeY))) \<and>
   reachable H0 (hmap3 0 (\<lambda>_. zero_node)) \<and>
   9 * 2 ^ unat (t_hashbits (active (hmap1 2 ((\<lambda>_. zero_node)(0 := nodeA, 1 := nodeY)))))
     < 10 * unat (hm_count (hmap1 2 ((\<lambda>_. zero_node)(0 := nodeA, 1 := nodeY)))) \<and>
   isc_hashmap_add H0 (hmap1 2 ((\<lambda>_. zero_node)(0 := nodeA, 1 := nodeY))) (Some 0xA0000000) (Some [5])
       (Some 50) = Some (Inr (ISC_R_SUCCESS, map_growing)) \<and>
   unat (t_hashbits (active map_growing)) = 3 \<and>
   10 * unat (hm_count (hmap1 2 ((\<lambda>_. zero_node)(0 := nodeA, 1 := nodeY)))) \<le> 4 * 2 ^ 3 \<and>
   4 * 2 ^ 2 < 10 * unat (hm_count (hmap1 2 ((\<lambda>_. zero_node)(0 := nodeA, 1 := nodeY)))) \<and>
   unat (hm_count (hmap3 0 (\<lambda>_. zero_node)))
     < (2 ^ unat (t_hashbits (active (hmap3 0 (\<lambda>_. zero_node)))) * 205) div 1024 \<and>
   isc_hashmap_delete H0 (hmap3 0 (\<lambda>_. zero_node)) (Some 0) (Some [1]) =
     Some (Inr (ISC_R_NOTFOUND, map_shrunk)) \<and>
   unat (t_hashbits (active map_shrunk)) = 2"
  using hashmap_resize_widths[OF inv1_AY ex_room(1) _ ex_steady(1), of "[5]" H0 "Some 0xA0000000" "Some 50"]
    hashmap_resize_widths[OF inv3_0 ex_room(3) _ ex_steady(5), of "[1]" H0 "Some 0" "Some 50"]
    ev1_addZ ev3_shrink ex_growing(2) ex_shrunk(1) reach1_AY reach3_0
  by (simp add: ex_steady)

text \<open>The map of 2 bits with the keys A, B and C, and an iterator on the slot of C.\<close>

theorem psl_invariant_preserved_witness:
  "reachable H0 (hmap2 3 tblABC) \<and> hashmap_inv (hmap2 3 tblABC) \<and> room_ok (hmap2 3 tblABC) \<and> psl_inv (hmap2 3 tblABC) \<and>
   (\<exists>r hm'. isc_hashmap_add H0 (hmap2 3 tblABC) (Some 0x40000000) (Some [7]) (Some 70) =
        Some (Inr (r, hm')) \<and> psl_inv hm') \<and>
   (\<exists>r hm'. isc_hashmap_delete H0 (hmap2 3 tblABC) (Some 0) (Some [1]) = Some (Inr (r, hm')) \<and>
        psl_inv hm') \<and>
   (\<exists>r hm' it'. isc_hashmap_iter_delcurrent_next (hmap2 3 tblABC)
          \<lparr>it_i = 3, it_hindex = 0, it_cur = Some (0, 3)\<rparr> = Some (Inr (r, hm', it')) \<and>
        psl_inv hm')"
proof -
  note t = psl_invariant_preserved[OF inv2_ABC ex_room(2)]
  from t[of "[7]" H0 "Some 0x40000000" "Some 70"]
  have p: "psl_inv (hmap2 3 tblABC)"
    and a: "\<exists>r hm'. isc_hashmap_add H0 (hmap2 3 tblABC) (Some 0x40000000) (Some [7]) (Some 70) =
        Some (Inr (r, hm')) \<and> psl_inv hm'" by simp_all
  from t[of "[1]" H0 "Some 0" "Some 70"]
  have d: "\<exists>r hm'. isc_hashmap_delete H0 (hmap2 3 tblABC) (Some 0) (Some [1]) = Some (Inr (r, hm')) \<and>
        psl_inv hm'"
    and i: "\<forall>it tbl. it_cur it \<noteq> None \<and>
              (it_hindex it = hm_hindex (hmap2 3 tblABC) \<or>
               it_hindex it = hashmap_nexttable (hm_hindex (hmap2 3 tblABC))) \<and>
              t_table (hm_tables (hmap2 3 tblABC) (it_hindex it)) = Some tbl \<and>
              it_i it < t_size (hm_tables (hmap2 3 tblABC) (it_hindex it)) \<and>
              n_key (tbl (ucast (it_i it))) \<noteq> None \<longrightarrow>
            (\<exists>r hm' it'. isc_hashmap_iter_delcurrent_next (hmap2 3 tblABC) it = Some (Inr (r, hm', it')) \<and>
               psl_inv hm')" by simp_all
  have c: "\<exists>r hm' it'. isc_hashmap_iter_delcurrent_next (hmap2 3 tblABC)
          \<lparr>it_i = 3, it_hindex = 0, it_cur = Some (0, 3)\<rparr> = Some (Inr (r, hm', it')) \<and> psl_inv hm'"
    by (rule i[rule_format, of "\<lparr>it_i = 3, it_hindex = 0, it_cur = Some (0, 3)\<rparr>" tblABC])
       (simp add: hmap2_def tblABC_def nodeC_def word_less_nat_alt)
  show ?thesis using reach2_ABC inv2_ABC ex_room(2) p a d c by blast
qed

text \<open>
  C3, as stated, fails on the code. On the map of 2 bits with the keys A and B, whose home is
  slot 0, and C, whose home is slot 3: the iterator is moved to C; \<^verbatim>\<open>isc_hashmap_delete\<close> of C
  empties slot 3; \<^verbatim>\<open>isc_hashmap_iter_delcurrent_next\<close> then deletes the node of the emptied
  slot, whose hash value and probe sequence length are 0, and the backward shift moves B from
  slot 1 to slot 3 with the probe sequence length 0, three slots away from its home.
\<close>

theorem stale_iterator_breaks_psl:
  "isc_hashmap_create [] 2 0 = Inr (hmap2 0 (\<lambda>_. zero_node)) \<and>
   isc_hashmap_add H0 (hmap2 0 (\<lambda>_. zero_node)) (Some 0) (Some [1]) (Some 10) =
     Some (Inr (ISC_R_SUCCESS, hmap2 1 ((\<lambda>_. zero_node)(0 := nodeA)))) \<and>
   isc_hashmap_add H0 (hmap2 1 ((\<lambda>_. zero_node)(0 := nodeA))) (Some 1) (Some [2]) (Some 20) =
     Some (Inr (ISC_R_SUCCESS, hmap2 2 ((\<lambda>_. zero_node)(0 := nodeA, 1 := nodeB)))) \<and>
   isc_hashmap_add H0 (hmap2 2 ((\<lambda>_. zero_node)(0 := nodeA, 1 := nodeB))) (Some 0xC0000000) (Some [3])
       (Some 30) = Some (Inr (ISC_R_SUCCESS, hmap2 3 tblABC)) \<and>
   psl_inv (hmap2 3 tblABC) \<and>
   isc_hashmap_iter_create (hmap2 3 tblABC) = Inr \<lparr>it_i = 0, it_hindex = 0, it_cur = None\<rparr> \<and>
   isc_hashmap_iter_first (hmap2 3 tblABC) \<lparr>it_i = 0, it_hindex = 0, it_cur = None\<rparr> =
     Some (Inr (ISC_R_SUCCESS, \<lparr>it_i = 0, it_hindex = 0, it_cur = Some (0, 0)\<rparr>)) \<and>
   isc_hashmap_iter_next (hmap2 3 tblABC) \<lparr>it_i = 0, it_hindex = 0, it_cur = Some (0, 0)\<rparr> =
     Some (Inr (ISC_R_SUCCESS, \<lparr>it_i = 1, it_hindex = 0, it_cur = Some (0, 1)\<rparr>)) \<and>
   isc_hashmap_iter_next (hmap2 3 tblABC) \<lparr>it_i = 1, it_hindex = 0, it_cur = Some (0, 1)\<rparr> =
     Some (Inr (ISC_R_SUCCESS, \<lparr>it_i = 3, it_hindex = 0, it_cur = Some (0, 3)\<rparr>)) \<and>
   isc_hashmap_delete H0 (hmap2 3 tblABC) (Some 0xC0000000) (Some [3]) =
     Some (Inr (ISC_R_SUCCESS, hmap2 2 (tblABC(3 := zero_node)))) \<and>
   isc_hashmap_iter_delcurrent_next (hmap2 2 (tblABC(3 := zero_node)))
       \<lparr>it_i = 3, it_hindex = 0, it_cur = Some (0, 3)\<rparr> =
     Some (Inr (ISC_R_SUCCESS, hmap2 1 tbl_stale, \<lparr>it_i = 3, it_hindex = 0, it_cur = Some (0, 3)\<rparr>)) \<and>
   n_key (tbl_stale 3) = Some [2] \<and> n_psl (tbl_stale 3) = 0 \<and>
   (3 - isc_hash_bits32 (n_hashval (tbl_stale 3)) 2) AND 3 = 3 \<and>
   \<not> psl_inv (hmap2 1 tbl_stale)"
  using ev_create2 ev2_addA ev2_addB ev2_addC inv_psl[OF inv2_ABC] ev2_iter_create ev2_first ev2_next1
    ev2_next2 ev2_delC ev2_delcur_stale ev2_stale_slot ev2_stale_bad
  by simp

text \<open>
  C5, as stated, fails on the code. The map of 3 bits that holds one key has a count below 20%
  of its capacity 8, and more than the minimum capacity; the delete of the key starts no
  shrink: the map that it returns has 3 bits and no rehash in progress.
\<close>

theorem no_shrink_below_20_percent:
  "isc_hashmap_create [] 3 0 = Inr (hmap3 0 (\<lambda>_. zero_node)) \<and>
   isc_hashmap_add H0 (hmap3 0 (\<lambda>_. zero_node)) (Some 0) (Some [1]) (Some 10) =
     Some (Inr (ISC_R_SUCCESS, hmap3 1 ((\<lambda>_. zero_node)(0 := nodeA)))) \<and>
   \<not> rehashing_in_progress (hmap3 1 ((\<lambda>_. zero_node)(0 := nodeA))) \<and>
   unat (t_hashbits (active (hmap3 1 ((\<lambda>_. zero_node)(0 := nodeA))))) = 3 \<and>
   unat (hm_count (hmap3 1 ((\<lambda>_. zero_node)(0 := nodeA)))) = 1 \<and>
   5 * unat (hm_count (hmap3 1 ((\<lambda>_. zero_node)(0 := nodeA))))
     < 2 ^ unat (t_hashbits (active (hmap3 1 ((\<lambda>_. zero_node)(0 := nodeA))))) \<and>
   isc_hashmap_delete H0 (hmap3 1 ((\<lambda>_. zero_node)(0 := nodeA))) (Some 0) (Some [1]) =
     Some (Inr (ISC_R_SUCCESS, hmap3 0 (\<lambda>_. zero_node))) \<and>
   \<not> rehashing_in_progress (hmap3 0 (\<lambda>_. zero_node)) \<and>
   unat (t_hashbits (active (hmap3 0 (\<lambda>_. zero_node)))) = 3"
  using ev_create3 ev3_addA ev3_delA by (simp add: ex_steady)

text \<open>
  C2 fails on the code for a source table of 32 bits. On the map created with 32 bits that holds
  one key, \<^verbatim>\<open>under_threshold\<close> holds; after \<^verbatim>\<open>hashmap_rehash_start_shrink\<close> the key is in the
  source table and find returns its value; \<^verbatim>\<open>hashmap_rehash_one\<close> then moves no node and frees
  the source table, since its \<^verbatim>\<open>oldsize\<close> is \<open>2 ^ 32\<close> cut to 32 bits, which is 0: the contents
  are empty, the count is still 1, and find returns NOTFOUND. (For a source table of at most 31
  bits the step keeps the contents: \<open>rehash_one_spec\<close>.)
\<close>

theorem rehash_one_frees_32_bit_source:
  "isc_hashmap_create [] 32 0 = Inr map32_empty \<and>
   isc_hashmap_add H0 map32_empty (Some 0) (Some [1]) (Some 5) = Some (Inr (ISC_R_SUCCESS, map32_one)) \<and>
   under_threshold map32_one = Inr True \<and>
   hashmap_rehash_start_shrink map32_one = Inr map32_shrinking \<and>
   node1 \<in> contents map32_shrinking \<and>
   isc_hashmap_find H0 map32_shrinking (Some 0) (Some [1]) (Some None) =
     Some (Inr (ISC_R_SUCCESS, Some (Some 5))) \<and>
   hashmap_rehash_one map32_shrinking = Some (Inr map31_lost) \<and>
   contents map31_lost = {} \<and> hm_count map31_lost = 1 \<and>
   isc_hashmap_find H0 map31_lost (Some 0) (Some [1]) (Some None) =
     Some (Inr (ISC_R_NOTFOUND, Some None))"
proof -
  have "under_threshold map32_one = Inr True" by (simp add: map32_one_def ev_defs)
  moreover have "hm_count map31_lost = 1" by (simp add: map31_lost_def)
  ultimately show ?thesis
    using ev_create32 ev_add32 ev_shrink32 ex_contents32 ev_find32_shrinking ev_rehash32 ev_find31
    by simp
qed

text \<open>
  C9 fails on the code for a table of 32 bits. On the map created with 32 bits that holds the
  key \<open>[1]\<close>, the delete of the absent key \<open>[2]\<close> returns NOTFOUND, and find of the key \<open>[1]\<close>
  returns its value before the call and NOTFOUND after it, while the count is 1 before and
  after. (Elsewhere a call that returns EXISTS or NOTFOUND keeps the contents and the count:
  \<open>isc_hashmap_add_exists\<close>, \<open>isc_hashmap_delete_miss\<close>.)
\<close>

theorem delete_notfound_empties_32_bit_map:
  "isc_hashmap_find H0 map32_one (Some 0) (Some [1]) (Some None) =
     Some (Inr (ISC_R_SUCCESS, Some (Some 5))) \<and>
   isc_hashmap_count map32_one = Inr 1 \<and>
   isc_hashmap_find H0 map32_one (Some 1) (Some [2]) (Some None) =
     Some (Inr (ISC_R_NOTFOUND, Some None)) \<and>
   isc_hashmap_delete H0 map32_one (Some 1) (Some [2]) = Some (Inr (ISC_R_NOTFOUND, map31_lost)) \<and>
   isc_hashmap_find H0 map31_lost (Some 0) (Some [1]) (Some None) =
     Some (Inr (ISC_R_NOTFOUND, Some None)) \<and>
   isc_hashmap_count map31_lost = Inr 1"
proof -
  have "isc_hashmap_count map32_one = Inr 1" "isc_hashmap_count map31_lost = Inr 1"
    by (simp_all add: isc_hashmap_count_def map32_one_def map31_lost_def ev_defs)
  then show ?thesis using ev_find32 ev_find32_absent ev_delete32 ev_find31 by simp
qed

end
